(* ===== verification/Prelude.thy ===== *)
theory Prelude
  imports Main "HOL-Library.Word" "HOL-Library.AList" "HOL-Library.Monad_Syntax"
begin

text \<open>
  The Go runtime as far as the modelled code uses it, and the generic lemmas the component
  theories share.

  A Go function that may hit a runtime panic (an index out of range, a division by zero)
  returns an option here: \<^term>\<open>None\<close> is the panic, and the \<open>do\<close> notation of
  Monad\_Syntax sequences the reads and writes in the order of the source. Slices are lists,
  Go maps are association lists with distinct keys (\<^const>\<open>map_of\<close>,
  \<^const>\<open>AList.update\<close>, \<^const>\<open>AList.delete\<close>, and their length for \<open>len\<close>),
  Go strings are byte strings (\<^typ>\<open>string\<close>), \<open>uint16\<close> and \<open>int32\<close> are words,
  and an \<open>int64\<close> is an \<^typ>\<open>int\<close> that is wrapped by \<open>int64\<close> after each
  addition.
\<close>

unbundle bit_operations_syntax

named_theorems go_simps \<open>slice reads and writes that are in range\<close>
named_theorems gomap_simps \<open>lookup, update, delete and length of Go maps\<close>

type_synonym u16 = "16 word"
type_synonym i32 = "32 word"

subsection \<open>Slices\<close>

definition slice_get :: "'a list \<Rightarrow> nat \<Rightarrow> 'a option" where
  "slice_get xs i = (if i < length xs then Some (xs ! i) else None)"

definition slice_set :: "'a list \<Rightarrow> nat \<Rightarrow> 'a \<Rightarrow> 'a list option" where
  "slice_set xs i x = (if i < length xs then Some (xs[i := x]) else None)"

lemma slice_get_in [go_simps]: "i < length xs \<Longrightarrow> slice_get xs i = Some (xs ! i)"
  by (simp add: slice_get_def)

lemma slice_set_in [go_simps]: "i < length xs \<Longrightarrow> slice_set xs i x = Some (xs[i := x])"
  by (simp add: slice_set_def)

lemma slice_get_eq_Some: "slice_get xs i = Some x \<longleftrightarrow> i < length xs \<and> xs ! i = x"
  by (auto simp: slice_get_def)

lemma slice_set_eq_Some: "slice_set xs i x = Some ys \<longleftrightarrow> i < length xs \<and> ys = xs[i := x]"
  by (auto simp: slice_set_def)

subsection \<open>Signed 64-bit integers\<close>

definition int64 :: "int \<Rightarrow> int" where
  "int64 x = signed_take_bit 63 x"

lemma int64_id: "- (2 ^ 63) \<le> x \<Longrightarrow> x < 2 ^ 63 \<Longrightarrow> int64 x = x"
  by (simp add: int64_def signed_take_bit_int_eq_self)

lemma int64_range: "- (2 ^ 63) \<le> int64 x \<and> int64 x < 2 ^ 63"
  using signed_take_bit_int_greater_eq_minus_exp [of 63 x] signed_take_bit_int_less_exp [of 63 x]
  by (simp add: int64_def)

subsection \<open>Go maps\<close>

lemma map_of_update [gomap_simps]: "map_of (AList.update k v al) = (map_of al)(k \<mapsto> v)"
  by (rule AList.update_conv')

lemma map_of_delete [gomap_simps]: "map_of (AList.delete k al) = (map_of al)(k := None)"
  by (rule AList.delete_conv')

lemma distinct_update [gomap_simps]:
  "distinct (map fst al) \<Longrightarrow> distinct (map fst (AList.update k v al))"
  by (rule AList.distinct_update)

lemma distinct_delete [gomap_simps]:
  "distinct (map fst al) \<Longrightarrow> distinct (map fst (AList.delete k al))"
  by (rule AList.distinct_delete)

lemma map_of_eq_Some_distinct:
  "distinct (map fst al) \<Longrightarrow> map_of al k = Some v \<longleftrightarrow> (k, v) \<in> set al"
  by (simp add: map_of_eq_Some_iff)

lemma map_of_append_key:
  "map_of (xs @ ys) k = (if k \<in> fst ` set xs then map_of xs k else map_of ys k)"
  by (induction xs) auto

lemma map_of_Some_key: "map_of xs k = Some v \<Longrightarrow> k \<in> fst ` set xs"
  by (force dest: map_of_SomeD)

lemma length_update_new: "k \<notin> fst ` set al \<Longrightarrow> length (AList.update k v al) = Suc (length al)"
  by (induction al) auto

subsection \<open>Words used as indices\<close>

lemma unat_pred: "(i :: 'a::len word) \<noteq> 0 \<Longrightarrow> unat (i - 1) = unat i - 1"
  by (simp add: unat_minus_one)

lemma unat_pos: "(i :: 'a::len word) \<noteq> 0 \<longleftrightarrow> 0 < unat i"
  by (simp add: unat_gt_0)

lemma unat_u16_bound: "unat (i :: u16) < 65536"
  using unsigned_less [of i] by simp

lemma unat_of_nat_u16: "n < 65536 \<Longrightarrow> unat (of_nat n :: u16) = n"
  by (simp add: unat_of_nat)

lemma unat_succ_u16: "unat (i :: u16) < 65535 \<Longrightarrow> unat (i + 1) = Suc (unat i)"
  by (simp add: unat_word_ariths)

subsection \<open>Lists\<close>

lemma map_update_other: "i \<notin> set xs \<Longrightarrow> map (f(i := y)) xs = map f xs"
  by (induction xs) auto

lemma remove1_mid: "x \<notin> set as \<Longrightarrow> remove1 x (as @ x # bs) = as @ bs"
  by (simp add: remove1_append)

end
