(* ===== verification/Lru2_Links.thy ===== *)
theory Lru2_Links
  imports Prelude
begin

text \<open>
  The doubly linked list that \<open>pkg/store/lru2.go\<close> keeps in an array: the field \<open>dlnk\<close> of
  \<open>cache\<close> and the method \<open>adjust\<close>. Entry 0 is a sentinel, so the list is a ring through 0.
  The package variables \<open>p\<close> and \<open>n\<close> (indices 0 and 1 of a link, never reassigned) are the
  two values of \<open>dir\<close>.

  The lemmas describe a ring by the list of its node numbers, in either direction:
  \<open>seg\<close> is a doubly linked segment, unlinking a node and inserting it behind the sentinel
  are two lemmas about it, and \<open>adjust\<close> is their composition.
\<close>

subsection \<open>Links and the code of adjust\<close>

datatype dir = Prev | Next

type_synonym link = "u16 \<times> u16"

fun sel :: "link \<Rightarrow> dir \<Rightarrow> u16" where
  "sel (a, b) Prev = a"
| "sel (a, b) Next = b"

fun upd :: "link \<Rightarrow> dir \<Rightarrow> u16 \<Rightarrow> link" where
  "upd (a, b) Prev x = (x, b)"
| "upd (a, b) Next x = (a, x)"

definition lread :: "link list \<Rightarrow> u16 \<Rightarrow> dir \<Rightarrow> u16 option" where
  "lread d i f = do { l \<leftarrow> slice_get d (unat i); Some (sel l f) }"

definition lwrite :: "link list \<Rightarrow> u16 \<Rightarrow> dir \<Rightarrow> u16 \<Rightarrow> link list option" where
  "lwrite d i f x = do { l \<leftarrow> slice_get d (unat i); slice_set d (unat i) (upd l f x) }"

definition adjust :: "link list \<Rightarrow> u16 \<Rightarrow> dir \<Rightarrow> dir \<Rightarrow> link list option" where
  "adjust d idx f t = do {
     c \<leftarrow> lread d idx f;
     if c \<noteq> 0 then do {
       b \<leftarrow> lread d idx t;
       a \<leftarrow> lread d idx f;
       d \<leftarrow> lwrite d b f a;
       a \<leftarrow> lread d idx f;
       b \<leftarrow> lread d idx t;
       d \<leftarrow> lwrite d a t b;
       d \<leftarrow> lwrite d idx f 0;
       h \<leftarrow> lread d 0 t;
       d \<leftarrow> lwrite d idx t h;
       h \<leftarrow> lread d 0 t;
       d \<leftarrow> lwrite d h f idx;
       lwrite d 0 t idx }
     else Some d }"

subsection \<open>Links as a function\<close>

definition lk :: "link list \<Rightarrow> u16 \<times> dir \<Rightarrow> u16" where
  "lk d = (\<lambda>(i, f). sel (d ! unat i) f)"

lemma sel_upd [simp]: "sel (upd l f x) g = (if g = f then x else sel l g)"
  by (cases l; cases f; cases g) auto

lemma lread_in [go_simps]: "unat i < length d \<Longrightarrow> lread d i f = Some (lk d (i, f))"
  by (simp add: lread_def lk_def go_simps)

definition lset :: "link list \<Rightarrow> u16 \<Rightarrow> dir \<Rightarrow> u16 \<Rightarrow> link list" where
  "lset d i f x = d[unat i := upd (d ! unat i) f x]"

lemma lwrite_in [go_simps]: "unat i < length d \<Longrightarrow> lwrite d i f x = Some (lset d i f x)"
  by (simp add: lwrite_def lset_def go_simps)

lemma length_lset [simp]: "length (lset d i f x) = length d"
  by (simp add: lset_def)

lemma lk_lset [simp]: "unat i < length d \<Longrightarrow> lk (lset d i f x) = (lk d)((i, f) := x)"
  by (auto simp: lk_def lset_def fun_eq_iff nth_list_update word_unat_eq_iff)

lemma lk_link:
  assumes "unat l < length d"
  shows "lk (d[unat l := (a, b)]) = (lk d)((l, Prev) := a, (l, Next) := b)"
proof (rule ext, clarify)
  fix i f
  show "lk (d[unat l := (a, b)]) (i, f) = ((lk d)((l, Prev) := a, (l, Next) := b)) (i, f)"
    using assms by (cases f) (auto simp: lk_def nth_list_update word_unat_eq_iff)
qed

subsection \<open>Doubly linked segments\<close>

text \<open>\<open>seg g f t a xs b\<close>: going in direction \<open>t\<close> from \<open>a\<close> one meets \<open>xs\<close> and then \<open>b\<close>,
  and the \<open>f\<close> links lead back.\<close>

fun seg :: "(u16 \<times> dir \<Rightarrow> u16) \<Rightarrow> dir \<Rightarrow> dir \<Rightarrow> u16 \<Rightarrow> u16 list \<Rightarrow> u16 \<Rightarrow> bool" where
  "seg g f t a [] b \<longleftrightarrow> g (a, t) = b \<and> g (b, f) = a"
| "seg g f t a (x # xs) b \<longleftrightarrow> g (a, t) = x \<and> g (x, f) = a \<and> seg g f t x xs b"

lemma seg_append: "seg g f t a (xs @ y # ys) b \<longleftrightarrow> seg g f t a xs y \<and> seg g f t y ys b"
  by (induction xs arbitrary: a) auto

lemma seg_rev: "seg g f t a xs b \<longleftrightarrow> seg g t f b (rev xs) a"
  by (induction xs arbitrary: a) (auto simp: seg_append)

lemma seg_cong:
  assumes "\<And>i. i \<in> insert a (set xs) \<Longrightarrow> g' (i, t) = g (i, t)"
    and "\<And>i. i \<in> insert b (set xs) \<Longrightarrow> g' (i, f) = g (i, f)"
  shows "seg g' f t a xs b \<longleftrightarrow> seg g f t a xs b"
  using assms by (induction xs arbitrary: a) auto

lemma seg_last: "seg g f t a xs b \<Longrightarrow> g (b, f) = last (a # xs)"
  by (induction xs arbitrary: a) auto

lemma seg_first: "seg g f t a xs b \<Longrightarrow> g (a, t) = hd (xs @ [b])"
  by (cases xs) auto

lemma seg_mid:
  assumes "seg g f t a (xs @ x # ys) b"
  shows "g (x, f) = last (a # xs)" and "g (x, t) = hd (ys @ [b])"
  using assms seg_last [of g f t a xs x] seg_first [of g f t x ys b] by (auto simp: seg_append)

definition unlink :: "(u16 \<times> dir \<Rightarrow> u16) \<Rightarrow> dir \<Rightarrow> dir \<Rightarrow> u16 \<Rightarrow> (u16 \<times> dir \<Rightarrow> u16)" where
  "unlink g f t x = g((g (x, t), f) := g (x, f), (g (x, f), t) := g (x, t))"

definition relink :: "(u16 \<times> dir \<Rightarrow> u16) \<Rightarrow> dir \<Rightarrow> dir \<Rightarrow> u16 \<Rightarrow> (u16 \<times> dir \<Rightarrow> u16)" where
  "relink g f t x = g((x, f) := 0, (x, t) := g (0, t), (g (0, t), f) := x, (0, t) := x)"

lemma unlink_seg:
  assumes "seg g f t 0 (xs @ x # ys) 0" "distinct (xs @ x # ys)" "0 \<notin> set (xs @ x # ys)" "f \<noteq> t"
  shows "seg (unlink g f t x) f t 0 (xs @ ys) 0"
proof -
  define a where "a = last (0 # xs)"
  define b where "b = hd (ys @ [0])"
  have g: "unlink g f t x = g((b, f) := a, (a, t) := b)"
    unfolding unlink_def a_def b_def using seg_mid [OF assms(1)] by simp
  have s: "seg g f t 0 xs x" "seg g f t x ys 0"
    using assms(1) by (auto simp: seg_append)
  show ?thesis
  proof (cases xs rule: rev_cases)
    case Nil
    note xs = Nil
    show ?thesis
    proof (cases ys)
      case Nil
      then show ?thesis using xs assms(4) by (simp add: g a_def b_def)
    next
      case (Cons y zs)
      have "seg (g((b, f) := a, (a, t) := b)) f t y zs 0 = seg g f t y zs 0"
        using assms(2,3,4) xs Cons by (intro seg_cong) (auto simp: a_def b_def)
      then show ?thesis using xs Cons s assms(3,4) by (auto simp: g a_def b_def)
    qed
  next
    case (snoc ws p)
    have A: "a = p" by (simp add: a_def snoc)
    have "seg (g((b, f) := a, (a, t) := b)) f t 0 ws p = seg g f t 0 ws p"
      using assms(2,3,4) snoc by (intro seg_cong) (auto simp: A b_def hd_append split: list.splits)
    then have p: "seg (unlink g f t x) f t 0 ws p"
      using s(1) snoc by (simp add: g seg_append)
    show ?thesis
    proof (cases ys)
      case Nil
      then show ?thesis using p snoc assms(3,4) by (simp add: g A b_def seg_append)
    next
      case (Cons y zs)
      have "seg (g((b, f) := a, (a, t) := b)) f t y zs 0 = seg g f t y zs 0"
        using assms(2,3,4) snoc Cons by (intro seg_cong) (auto simp: A b_def)
      then show ?thesis
        using p snoc Cons s(2) assms(2,4) by (auto simp: g A b_def seg_append)
    qed
  qed
qed

lemma relink_seg:
  assumes "seg g f t 0 ys 0" "x \<notin> set ys" "distinct ys" "0 \<notin> set ys" "x \<noteq> 0" "f \<noteq> t"
  shows "seg (relink g f t x) f t 0 (x # ys) 0"
proof (cases ys)
  case Nil
  then show ?thesis using assms by (simp add: relink_def)
next
  case (Cons y zs)
  then have y: "g (0, t) = y" and z: "seg g f t y zs 0" using assms(1) by auto
  have "seg (relink g f t x) f t y zs 0 = seg g f t y zs 0"
    using assms Cons y by (intro seg_cong) (auto simp: relink_def)
  then show ?thesis using assms Cons y z by (auto simp: relink_def)
qed

subsection \<open>The effect of adjust\<close>

lemma adjust_links:
  assumes "lk d (idx, f) \<noteq> 0" "f \<noteq> t" "idx \<noteq> 0"
    and "unat idx < length d" "unat (lk d (idx, f)) < length d" "unat (lk d (idx, t)) < length d"
    and "unat (lk d (0, t)) < length d" "0 < length d"
    and "lk d (idx, t) \<noteq> idx" "lk d (idx, f) \<noteq> idx"
  obtains d' where "adjust d idx f t = Some d'" "length d' = length d"
    "lk d' = relink (unlink (lk d) f t idx) f t idx"
proof -
  let ?a = "lk d (idx, f)" and ?b = "lk d (idx, t)" and ?h = "lk d (0, t)"
  let ?d1 = "lset d ?b f ?a"
  let ?d2 = "lset ?d1 ?a t ?b"
  let ?d3 = "lset ?d2 idx f 0"
  let ?d4 = "lset ?d3 idx t ?h"
  let ?d5 = "lset ?d4 ?h f idx"
  let ?d6 = "lset ?d5 0 t idx"
  have "adjust d idx f t = Some ?d6"
    unfolding adjust_def using assms by (auto simp: go_simps)
  moreover have "lk ?d6 = relink (unlink (lk d) f t idx) f t idx"
    using assms by (auto simp: relink_def unlink_def fun_eq_iff)
  ultimately show thesis using that by simp
qed

text \<open>On a ring, \<open>adjust\<close> never panics and moves the node right behind the sentinel in
  direction \<open>t\<close>, keeping the order of the others.\<close>

lemma adjust_ring:
  assumes ring: "seg (lk d) f t 0 xs 0" and xs: "distinct xs" "0 \<notin> set xs" "x \<in> set xs"
    and len: "\<And>i. i \<in> insert 0 (set xs) \<Longrightarrow> unat i < length d" and ft: "f \<noteq> t"
  obtains d' where "adjust d x f t = Some d'" "length d' = length d"
    "seg (lk d') f t 0 (x # remove1 x xs) 0"
proof -
  obtain as bs where sp: "xs = as @ x # bs" and nx: "x \<notin> set as"
    using split_list_first [OF xs(3)] by blast
  note mid = seg_mid [OF ring [unfolded sp]]
  have rm: "remove1 x xs = as @ bs" using nx by (simp add: sp remove1_mid)
  show thesis
  proof (cases "as = []")
    case True
    then have "adjust d x f t = Some d" using mid len xs(3) by (simp add: adjust_def go_simps)
    then show thesis using that ring True sp rm by simp
  next
    case False
    have x: "x \<noteq> 0" using xs(2,3) by auto
    have a: "lk d (x, f) \<in> set as" using mid False by simp
    have b: "lk d (x, t) \<in> insert 0 (set bs)" using mid by (auto simp: hd_append)
    have h: "lk d (0, t) \<in> set as" using seg_first [OF ring] False sp by (simp add: hd_append)
    have d0: "d \<noteq> []" using len [of 0] by auto
    obtain d' where d': "adjust d x f t = Some d'" "length d' = length d"
      and lk: "lk d' = relink (unlink (lk d) f t x) f t x"
    proof (rule adjust_links [of d x f t])
      show "lk d (x, f) \<noteq> 0" using a xs(2) sp by auto
      show "lk d (x, t) \<noteq> x" using b x xs(1) sp by auto
      show "lk d (x, f) \<noteq> x" using a xs(1) sp by auto
    qed (use x ft a b h len sp d0 in auto)
    have "seg (unlink (lk d) f t x) f t 0 (as @ bs) 0"
      using unlink_seg [OF ring [unfolded sp]] xs sp ft by simp
    then have "seg (lk d') f t 0 (x # as @ bs) 0"
      unfolding lk by (rule relink_seg) (use xs sp x ft in auto)
    then show thesis using that d' rm by simp
  qed
qed

lemma adjust_front:
  assumes "seg (lk d) Prev Next 0 xs 0" "distinct xs" "0 \<notin> set xs" "x \<in> set xs"
    and "\<And>i. i \<in> insert 0 (set xs) \<Longrightarrow> unat i < length d"
  obtains d' where "adjust d x Prev Next = Some d'" "length d' = length d"
    "seg (lk d') Prev Next 0 (x # remove1 x xs) 0"
  using adjust_ring [OF assms] by blast

lemma adjust_back:
  assumes "seg (lk d) Prev Next 0 xs 0" "distinct xs" "0 \<notin> set xs" "x \<in> set xs"
    and "\<And>i. i \<in> insert 0 (set xs) \<Longrightarrow> unat i < length d"
  obtains d' where "adjust d x Next Prev = Some d'" "length d' = length d"
    "seg (lk d') Prev Next 0 (remove1 x xs @ [x]) 0"
proof -
  have r: "seg (lk d) Next Prev 0 (rev xs) 0" using assms(1) by (simp add: seg_rev [of _ Prev])
  obtain d' where d': "adjust d x Next Prev = Some d'" "length d' = length d"
    and s: "seg (lk d') Next Prev 0 (x # remove1 x (rev xs)) 0"
    using adjust_ring [OF r, of x] assms(2-5) by auto
  have "rev (x # remove1 x (rev xs)) = remove1 x xs @ [x]"
  proof -
    obtain as bs where "xs = as @ x # bs" using split_list [OF assms(4)] by blast
    with assms(2) show ?thesis by (simp add: remove1_mid)
  qed
  then have "seg (lk d') Prev Next 0 (remove1 x xs @ [x]) 0"
    using s seg_rev [of "lk d'" Next Prev 0 "x # remove1 x (rev xs)" 0] by simp
  with d' show thesis using that by blast
qed

subsection \<open>Following the links\<close>

fun follow :: "(u16 \<times> dir \<Rightarrow> u16) \<Rightarrow> dir \<Rightarrow> nat \<Rightarrow> u16 \<Rightarrow> u16 list" where
  "follow g t 0 i = []"
| "follow g t (Suc n) i = (if i = 0 then [] else i # follow g t n (g (i, t)))"

lemma follow_seg:
  assumes "seg g f t a xs 0" "0 \<notin> set xs" "length xs \<le> n"
  shows "follow g t n (g (a, t)) = xs"
  using assms
proof (induction xs arbitrary: a n)
  case Nil
  then show ?case by (cases n) auto
next
  case (Cons x xs)
  then obtain m where "n = Suc m" by (cases n) auto
  then show ?case using Cons by auto
qed

end
