(* ===== verification/Lru2_Spec.thy ===== *)
theory Lru2_Spec
  imports Prelude
begin

text \<open>
  What one cache level promises. A level is read as the list of its entries from most to least
  recently used; an entry with expiry 0 is logically deleted. \<open>lru_put\<close>, \<open>lru_get\<close>, \<open>lru_del\<close>
  and \<open>lru_walk\<close> are the operations on such lists, \<open>live\<close> is what a reader of the list sees.
  The locale \<open>lru_level\<close> is the contract of an implementation; the store is verified against
  the facts proved inside it, and \<open>Lru2_Cache_Refine\<close> interprets it on the array-linked cache.
\<close>

subsection \<open>LRU lists\<close>

type_synonym 'v entry = "string \<times> 'v option \<times> int"

type_synonym 'v callback = "string \<times> 'v option"

definition lru_put :: "nat \<Rightarrow> 'v entry list \<Rightarrow> string \<Rightarrow> 'v option \<Rightarrow> int \<Rightarrow> bool \<Rightarrow>
    'v entry list \<times> int \<times> 'v callback list" where
  "lru_put cap xs k v e cb =
     (if k \<in> fst ` set xs then ((k, v, e) # AList.delete k xs, 0, [])
      else if length xs = cap then
        ((k, v, e) # butlast xs, 1,
         (case last xs of (k', v', e') \<Rightarrow> if cb \<and> 0 < e' then [(k', v')] else []))
      else ((k, v, e) # xs, 1, []))"

definition lru_get :: "'v entry list \<Rightarrow> string \<Rightarrow> 'v entry list \<times> 'v entry option \<times> int" where
  "lru_get xs k =
     (case map_of xs k of
        Some (v, e) \<Rightarrow> ((k, v, e) # AList.delete k xs, Some (k, v, e), 1)
      | None \<Rightarrow> (xs, None, 0))"

definition lru_del :: "'v entry list \<Rightarrow> string \<Rightarrow> 'v entry list \<times> 'v entry option \<times> int \<times> int" where
  "lru_del xs k =
     (case map_of xs k of
        Some (v, e) \<Rightarrow>
          if 0 < e then (AList.delete k xs @ [(k, v, 0)], Some (k, v, 0), 1, e)
          else (xs, None, 0, 0)
      | None \<Rightarrow> (xs, None, 0, 0))"

fun lru_walk :: "'v entry list \<Rightarrow> ('s \<Rightarrow> string \<Rightarrow> 'v option \<Rightarrow> int \<Rightarrow> 's \<times> bool) \<Rightarrow> 's \<Rightarrow> 's" where
  "lru_walk [] w s = s"
| "lru_walk ((k, v, e) # xs) w s =
     (if 0 < e then (case w s k v e of (s', True) \<Rightarrow> lru_walk xs w s' | (s', False) \<Rightarrow> s')
      else lru_walk xs w s)"

subsection \<open>The live view\<close>

definition live :: "'v entry list \<Rightarrow> string \<Rightarrow> ('v option \<times> int) option" where
  "live xs k = (case map_of xs k of Some (v, e) \<Rightarrow> if 0 < e then Some (v, e) else None | None \<Rightarrow> None)"

text \<open>The entry that a \<open>put\<close> of \<open>k\<close> throws out.\<close>

definition displaced :: "nat \<Rightarrow> 'v entry list \<Rightarrow> string \<Rightarrow> 'v entry option" where
  "displaced cap xs k =
     (if k \<notin> fst ` set xs \<and> length xs = cap \<and> xs \<noteq> [] then Some (last xs) else None)"

definition keys_of :: "'v entry list \<Rightarrow> string set" where
  "keys_of xs = fst ` set xs"

definition live_list :: "'v entry list \<Rightarrow> 'v entry list" where
  "live_list xs = filter (\<lambda>(k, v, e). 0 < e) xs"

lemma live_Cons: "live ((k, v, e) # xs) k' =
    (if k' = k then (if 0 < e then Some (v, e) else None) else live xs k')"
  by (simp add: live_def)

lemma live_delete: "live (AList.delete k xs) k' = (if k' = k then None else live xs k')"
  by (simp add: live_def gomap_simps)

lemma live_append: "live (xs @ ys) k = (if k \<in> fst ` set xs then live xs k else live ys k)"
  by (simp add: live_def map_of_append_key del: map_of_append)

lemma live_Nil [simp]: "live [] k = None"
  by (simp add: live_def)

lemma keys_simps [simp]:
  "keys_of [] = {}" "keys_of (x # xs) = insert (fst x) (keys_of xs)"
  "keys_of (xs @ ys) = keys_of xs \<union> keys_of ys"
  "keys_of (AList.delete k xs) = keys_of xs - {k}"
  by (simp_all add: keys_of_def AList.delete_keys image_Un flip: set_map)

lemma live_notin: "k \<notin> keys_of xs \<Longrightarrow> live xs k = None"
  by (simp add: live_def keys_of_def map_of_eq_None_iff [THEN iffD2])

lemma live_Some: "live xs k = Some (v, e) \<longleftrightarrow> map_of xs k = Some (v, e) \<and> 0 < e"
  by (auto simp: live_def split: option.splits if_splits)

lemma live_in_list:
  assumes "distinct (map fst xs)"
  shows "live xs k = Some (v, e) \<longleftrightarrow> (k, v, e) \<in> set (live_list xs)"
  using assms by (simp add: live_Some live_list_def)

lemma live_None: "live xs k = None \<longleftrightarrow> (\<forall>v e. map_of xs k = Some (v, e) \<longrightarrow> e \<le> 0)"
  by (fastforce simp: live_def split: option.splits if_splits)

text \<open>The view after a \<open>put\<close>, a \<open>get\<close> and a \<open>del\<close>.\<close>

lemma live_put:
  assumes "distinct (map fst xs)" "lru_put cap xs k v e cb = (ys, r, evs)"
  shows "live ys k' =
    (if k' = k then (if 0 < e then Some (v, e) else None)
     else if (\<exists>x. displaced cap xs k = Some (k', x)) then None else live xs k')"
proof (cases "k \<in> fst ` set xs")
  case True
  then show ?thesis using assms by (auto simp: lru_put_def live_Cons live_delete displaced_def)
next
  case new: False
  show ?thesis
  proof (cases "length xs = cap \<and> xs \<noteq> []")
    case False
    then show ?thesis using new assms by (auto simp: lru_put_def live_Cons displaced_def split: if_splits)
  next
    case True
    obtain ws l x where xs: "xs = ws @ [(l, x)]" using True by (metis append_butlast_last_id surj_pair)
    have "l \<notin> fst ` set ws" using assms(1) by (simp add: xs)
    then have "live ws l = None" by (simp add: live_notin keys_of_def)
    moreover have "k' \<noteq> l \<Longrightarrow> live xs k' = live ws k'"
      by (cases x) (auto simp: xs live_append live_Cons live_notin keys_of_def)
    ultimately show ?thesis using new True assms(2)
      by (auto simp: lru_put_def live_Cons displaced_def xs)
  qed
qed

lemma lru_put_events:
  "lru_put cap xs k v e cb = (ys, r, evs) \<Longrightarrow> 0 < cap \<Longrightarrow>
   evs = (case displaced cap xs k of
            Some (k', v', e') \<Rightarrow> if cb \<and> 0 < e' then [(k', v')] else [] | None \<Rightarrow> [])"
  by (auto simp: lru_put_def displaced_def split: if_splits prod.splits)

lemma keys_butlast: "keys_of (butlast xs) \<subseteq> keys_of xs"
  by (auto simp: keys_of_def dest: in_set_butlastD)

lemma lru_put_keys: "lru_put cap xs k v e cb = (ys, r, evs) \<Longrightarrow> keys_of ys \<subseteq> insert k (keys_of xs)"
  using keys_butlast [of xs] by (auto simp: lru_put_def split: if_splits)

lemma lru_put_key: "lru_put cap xs k v e cb = (ys, r, evs) \<Longrightarrow> k \<in> keys_of ys"
  by (auto simp: lru_put_def split: if_splits)

lemma lru_get_view:
  assumes "lru_get xs k = (ys, r, st)"
  shows "live ys = live xs" "keys_of ys = keys_of xs"
    "r = map_option (\<lambda>(v, e). (k, v, e)) (map_of xs k)" "st = (if map_of xs k = None then 0 else 1)"
proof -
  have "live ys = live xs \<and> keys_of ys = keys_of xs \<and>
    r = map_option (\<lambda>(v, e). (k, v, e)) (map_of xs k) \<and> st = (if map_of xs k = None then 0 else 1)"
  proof (cases "map_of xs k")
    case None
    then show ?thesis using assms by (simp add: lru_get_def)
  next
    case (Some x)
    then have "k \<in> keys_of xs" by (simp add: keys_of_def map_of_Some_key)
    then show ?thesis using Some assms
      by (cases x) (auto simp: lru_get_def fun_eq_iff live_Cons live_delete live_def)
  qed
  then show "live ys = live xs" "keys_of ys = keys_of xs"
    "r = map_option (\<lambda>(v, e). (k, v, e)) (map_of xs k)" "st = (if map_of xs k = None then 0 else 1)"
    by blast+
qed

lemma lru_del_view:
  assumes "lru_del xs k = (ys, r, st, e)"
  shows "live ys = (live xs)(k := None)" "keys_of ys = keys_of xs"
    "r = map_option (\<lambda>(v, e). (k, v, 0)) (live xs k)"
    "st = (if live xs k = None then 0 else 1)"
    "e = (case live xs k of Some (v, e) \<Rightarrow> e | None \<Rightarrow> 0)"
proof -
  have "live ys = (live xs)(k := None) \<and> keys_of ys = keys_of xs \<and>
    r = map_option (\<lambda>(v, e). (k, v, 0)) (live xs k) \<and> st = (if live xs k = None then 0 else 1) \<and>
    e = (case live xs k of Some (v, e) \<Rightarrow> e | None \<Rightarrow> 0)"
  proof (cases "map_of xs k")
    case None
    then show ?thesis using assms by (auto simp: lru_del_def live_def fun_eq_iff)
  next
    case (Some x)
    then have "k \<in> keys_of xs" by (simp add: keys_of_def map_of_Some_key)
    then show ?thesis using Some assms
      by (cases x) (auto simp: lru_del_def live_def map_of_append_key AList.delete_keys gomap_simps
          fun_eq_iff map_of_eq_None_iff [symmetric] split: if_splits option.splits)
  qed
  then show "live ys = (live xs)(k := None)" "keys_of ys = keys_of xs"
    "r = map_option (\<lambda>(v, e). (k, v, 0)) (live xs k)" "st = (if live xs k = None then 0 else 1)"
    "e = (case live xs k of Some (v, e) \<Rightarrow> e | None \<Rightarrow> 0)"
    by blast+
qed

text \<open>A walker that never stops folds over the live entries, in order.\<close>

lemma lru_walk_fold:
  assumes "\<And>s k v e. snd (w s k v e)"
  shows "lru_walk xs w s = fold (\<lambda>(k, v, e) s. fst (w s k v e)) (live_list xs) s"
proof (induction xs arbitrary: s)
  case (Cons x xs)
  obtain k v e where x: "x = (k, v, e)" by (cases x)
  obtain s' where "w s k v e = (s', True)" using assms [of s k v e] by (cases "w s k v e") auto
  with Cons x show ?case by (simp add: live_list_def)
qed (simp add: live_list_def)

lemma live_list_Nil:
  assumes "distinct (map fst xs)" "\<forall>k. live xs k = None"
  shows "live_list xs = []"
proof -
  have "(k, v, e) \<notin> set (live_list xs)" for k v e
    using assms(2) by (simp flip: live_in_list [OF assms(1)])
  then show ?thesis by (metis list.set_intros(1) neq_Nil_conv prod_cases3)
qed

lemma keys_live_list:
  "distinct (map fst xs) \<Longrightarrow> fst ` set (live_list xs) = {k. live xs k \<noteq> None}"
  by (force simp: live_in_list)

lemma live_list_keys_distinct: "distinct (map fst xs) \<Longrightarrow> distinct (map fst (live_list xs))"
  by (simp add: live_list_def distinct_map_filter)

subsection \<open>The contract of a level\<close>

text \<open>\<open>cput\<close> ... \<open>cwalk\<close> are the operations of the code on a level, \<open>ent\<close> reads the level as an
  LRU list. Each law says that the operation does not panic, keeps the invariant and the
  capacity, and refines the operation on lists. \<open>'n\<close> is the node type that \<open>cget\<close> and \<open>cdel\<close>
  hand out, read by \<open>nent\<close>; walkers are instantiated at list accumulators, which every walker of
  the store uses.\<close>

locale lru_level =
  fixes linv :: "'c \<Rightarrow> bool"
    and ent :: "'c \<Rightarrow> 'v entry list"
    and lcap :: "'c \<Rightarrow> nat"
    and nent :: "'n \<Rightarrow> 'v entry"
    and cput :: "'c \<Rightarrow> string \<Rightarrow> 'v option \<Rightarrow> int \<Rightarrow> bool \<Rightarrow> ('c \<times> int \<times> 'v callback list) option"
    and cget :: "'c \<Rightarrow> string \<Rightarrow> ('c \<times> 'n option \<times> int) option"
    and cdel :: "'c \<Rightarrow> string \<Rightarrow> ('c \<times> 'n option \<times> int \<times> int) option"
  assumes ent_distinct: "linv c \<Longrightarrow> distinct (map fst (ent c))"
    and ent_bound: "linv c \<Longrightarrow> length (ent c) \<le> lcap c"
    and cap_pos: "linv c \<Longrightarrow> 0 < lcap c"
    and put_law: "linv c \<Longrightarrow> \<exists>c' r evs. cput c k v e cb = Some (c', r, evs) \<and> linv c' \<and>
      lcap c' = lcap c \<and> (ent c', r, evs) = lru_put (lcap c) (ent c) k v e cb"
    and get_law: "linv c \<Longrightarrow> \<exists>c' nd st. cget c k = Some (c', nd, st) \<and> linv c' \<and>
      lcap c' = lcap c \<and> (ent c', map_option nent nd, st) = lru_get (ent c) k"
    and del_law: "linv c \<Longrightarrow> \<exists>c' nd st e. cdel c k = Some (c', nd, st, e) \<and> linv c' \<and>
      lcap c' = lcap c \<and> (ent c', map_option nent nd, st, e) = lru_del (ent c) k"
begin

text \<open>What a client of a level relies on: the live view after each operation.\<close>

lemma put_view:
  assumes "linv c"
  obtains c' r evs where "cput c k v e cb = Some (c', r, evs)" "linv c'" "lcap c' = lcap c"
    "live (ent c') = (\<lambda>k'. if k' = k then (if 0 < e then Some (v, e) else None)
       else if (\<exists>x. displaced (lcap c) (ent c) k = Some (k', x)) then None else live (ent c) k')"
    "keys_of (ent c') \<subseteq> insert k (keys_of (ent c))"
    "evs = (case displaced (lcap c) (ent c) k of
        Some (k', v', e') \<Rightarrow> if cb \<and> 0 < e' then [(k', v')] else [] | None \<Rightarrow> [])"
proof -
  obtain c' r evs where P: "cput c k v e cb = Some (c', r, evs)" "linv c'" "lcap c' = lcap c"
    and L: "(ent c', r, evs) = lru_put (lcap c) (ent c) k v e cb"
    using put_law [OF assms] by blast
  note L' = L [symmetric]
  show thesis
    by (rule that [OF P]) (use live_put [OF ent_distinct [OF assms] L'] in \<open>simp add: fun_eq_iff\<close>,
        use lru_put_keys [OF L'] in simp, use lru_put_events [OF L' cap_pos [OF assms]] in simp)
qed

lemma get_view:
  assumes "linv c"
  obtains c' nd st where "cget c k = Some (c', nd, st)" "linv c'" "lcap c' = lcap c"
    "live (ent c') = live (ent c)" "keys_of (ent c') = keys_of (ent c)"
    "map_option nent nd = map_option (\<lambda>(v, e). (k, v, e)) (map_of (ent c) k)"
    "st = (if nd = None then 0 else 1)"
proof -
  obtain c' nd st where P: "cget c k = Some (c', nd, st)" "linv c'" "lcap c' = lcap c"
    and L: "lru_get (ent c) k = (ent c', map_option nent nd, st)"
    using get_law [OF assms] by metis
  note V = lru_get_view [OF L]
  have "(map_of (ent c) k = None) = (nd = None)" using V(3) by (cases nd; cases "map_of (ent c) k") auto
  then show thesis using that P V by (simp del: map_of_eq_None_iff)
qed

lemma del_view:
  assumes "linv c"
  obtains c' nd st e where "cdel c k = Some (c', nd, st, e)" "linv c'" "lcap c' = lcap c"
    "live (ent c') = (live (ent c))(k := None)" "keys_of (ent c') = keys_of (ent c)"
    "map_option nent nd = map_option (\<lambda>(v, e). (k, v, 0)) (live (ent c) k)"
    "st = (if live (ent c) k = None then 0 else 1)"
    "e = (case live (ent c) k of Some (v, e) \<Rightarrow> e | None \<Rightarrow> 0)"
proof -
  obtain c' nd st e where P: "cdel c k = Some (c', nd, st, e)" "linv c'" "lcap c' = lcap c"
    and L: "lru_del (ent c) k = (ent c', map_option nent nd, st, e)"
    using del_law [OF assms] by metis
  then show thesis using that P lru_del_view [OF L] by blast
qed

lemma live_bound: "linv c \<Longrightarrow> length (live_list (ent c)) \<le> lcap c"
  using ent_bound [of c] by (simp add: live_list_def) (meson le_trans length_filter_le)

end

end
