(* ===== verification/Lru2_Cache.thy ===== *)
theory Lru2_Cache
  imports Lru2_Links Lru2_Spec
begin

text \<open>
  One level of a bucket: the struct \<open>cache\<close> of \<open>pkg/store/lru2.go\<close> with \<open>Create\<close>,
  \<open>put\<close>, \<open>get\<close>, \<open>del\<close> and \<open>walk\<close>, translated statement by statement.

  A value is a \<^typ>\<open>'v option\<close>, \<^term>\<open>None\<close> being Go's nil interface (the zero node of
  \<open>make([]node, cap)\<close> holds it). The callback \<open>onEvicted\<close> is user code: an operation that may
  call it takes a flag that says whether it is non-nil and returns the calls it makes, in order.
  A \<open>*node\<close> that an operation returns is the node's value at that moment.

  \<open>cache_inv\<close> is the well-formedness invariant, and \<open>entries_of\<close> reads the cache as the list of
  its entries from most to least recently used, logically deleted ones included.
\<close>

subsection \<open>Data\<close>

record 'v node =
  nd_k :: string
  nd_v :: "'v option"
  nd_expireAt :: int

definition zero_node :: "'v node" where
  "zero_node = \<lparr>nd_k = [], nd_v = None, nd_expireAt = 0\<rparr>"

record 'v cache =
  c_dlnk :: "link list"
  c_m :: "'v node list"
  c_hmap :: "(string \<times> u16) list"
  c_last :: u16

definition Create :: "u16 \<Rightarrow> 'v cache" where
  "Create cap =
     \<lparr>c_dlnk = replicate (unat (cap + 1)) (0, 0),
      c_m = replicate (unat cap) zero_node,
      c_hmap = [],
      c_last = 0\<rparr>"

subsection \<open>Operations\<close>

definition put ::
  "'v cache \<Rightarrow> string \<Rightarrow> 'v option \<Rightarrow> int \<Rightarrow> bool \<Rightarrow> ('v cache \<times> int \<times> 'v callback list) option"
where
  "put c key val expireAt onEvicted =
     (case map_of (c_hmap c) key of
        Some idx \<Rightarrow> do {
          nd \<leftarrow> slice_get (c_m c) (unat (idx - 1));
          m' \<leftarrow> slice_set (c_m c) (unat (idx - 1)) (nd\<lparr>nd_v := val, nd_expireAt := expireAt\<rparr>);
          d' \<leftarrow> adjust (c_dlnk c) idx Prev Next;
          Some (c\<lparr>c_m := m', c_dlnk := d'\<rparr>, 0, []) }
      | None \<Rightarrow>
          if c_last c = of_nat (length (c_m c)) then do {
            ti \<leftarrow> lread (c_dlnk c) 0 Prev;
            tail \<leftarrow> slice_get (c_m c) (unat (ti - 1));
            let evs = (if onEvicted \<and> 0 < nd_expireAt tail then [(nd_k tail, nd_v tail)] else []);
            let hm = AList.update key ti (AList.delete (nd_k tail) (c_hmap c));
            m' \<leftarrow> slice_set (c_m c) (unat (ti - 1))
                   (tail\<lparr>nd_k := key, nd_v := val, nd_expireAt := expireAt\<rparr>);
            ti \<leftarrow> lread (c_dlnk c) 0 Prev;
            d' \<leftarrow> adjust (c_dlnk c) ti Prev Next;
            Some (c\<lparr>c_hmap := hm, c_m := m', c_dlnk := d'\<rparr>, 1, evs) }
          else do {
            let l = c_last c + 1;
            d1 \<leftarrow> (if length (c_hmap c) \<le> 0 then lwrite (c_dlnk c) 0 Prev l
                   else do { h \<leftarrow> lread (c_dlnk c) 0 Next; lwrite (c_dlnk c) h Prev l });
            nd \<leftarrow> slice_get (c_m c) (unat (l - 1));
            m' \<leftarrow> slice_set (c_m c) (unat (l - 1))
                   (nd\<lparr>nd_k := key, nd_v := val, nd_expireAt := expireAt\<rparr>);
            h \<leftarrow> lread d1 0 Next;
            d2 \<leftarrow> slice_set d1 (unat l) (0, h);
            let hm = AList.update key l (c_hmap c);
            d3 \<leftarrow> lwrite d2 0 Next l;
            Some (c\<lparr>c_last := l, c_m := m', c_dlnk := d3, c_hmap := hm\<rparr>, 1, []) })"

definition get :: "'v cache \<Rightarrow> string \<Rightarrow> ('v cache \<times> 'v node option \<times> int) option" where
  "get c key =
     (case map_of (c_hmap c) key of
        Some idx \<Rightarrow> do {
          d' \<leftarrow> adjust (c_dlnk c) idx Prev Next;
          nd \<leftarrow> slice_get (c_m c) (unat (idx - 1));
          Some (c\<lparr>c_dlnk := d'\<rparr>, Some nd, 1) }
      | None \<Rightarrow> Some (c, None, 0))"

definition del :: "'v cache \<Rightarrow> string \<Rightarrow> ('v cache \<times> 'v node option \<times> int \<times> int) option" where
  "del c key =
     (case map_of (c_hmap c) key of
        Some idx \<Rightarrow> do {
          nd \<leftarrow> slice_get (c_m c) (unat (idx - 1));
          if 0 < nd_expireAt nd then do {
            let e = nd_expireAt nd;
            m' \<leftarrow> slice_set (c_m c) (unat (idx - 1)) (nd\<lparr>nd_expireAt := 0\<rparr>);
            d' \<leftarrow> adjust (c_dlnk c) idx Next Prev;
            nd' \<leftarrow> slice_get m' (unat (idx - 1));
            Some (c\<lparr>c_m := m', c_dlnk := d'\<rparr>, Some nd', 1, e) }
          else Some (c, None, 0, 0) }
      | None \<Rightarrow> Some (c, None, 0, 0))"

text \<open>The walker is a closure over the caller's variables: it takes their value \<open>s\<close> and
  returns the new one with its verdict. The loop follows the links until it meets 0; were the
  links cyclic past 0 it would not return, which is \<^term>\<open>None\<close> too.\<close>

partial_function (option) walk_from ::
  "'v cache \<Rightarrow> ('s \<Rightarrow> string \<Rightarrow> 'v option \<Rightarrow> int \<Rightarrow> 's \<times> bool) \<Rightarrow> u16 \<Rightarrow> 's \<Rightarrow> 's option"
where
  "walk_from c walker idx s =
     (if idx = 0 then Some s
      else do {
        nd \<leftarrow> slice_get (c_m c) (unat (idx - 1));
        case (if 0 < nd_expireAt nd then walker s (nd_k nd) (nd_v nd) (nd_expireAt nd) else (s, True)) of
          (s', continue) \<Rightarrow>
            if continue then do { i \<leftarrow> lread (c_dlnk c) idx Next; walk_from c walker i s' }
            else Some s' })"

declare walk_from.simps [code]

definition walk ::
  "'v cache \<Rightarrow> ('s \<Rightarrow> string \<Rightarrow> 'v option \<Rightarrow> int \<Rightarrow> 's \<times> bool) \<Rightarrow> 's \<Rightarrow> 's option"
where
  "walk c walker s = do { h \<leftarrow> lread (c_dlnk c) 0 Next; walk_from c walker h s }"

subsection \<open>Invariant and abstraction\<close>

definition node_at :: "'v cache \<Rightarrow> u16 \<Rightarrow> 'v node" where
  "node_at c i = c_m c ! unat (i - 1)"

definition entry_of :: "'v node \<Rightarrow> 'v entry" where
  "entry_of nd = (nd_k nd, nd_v nd, nd_expireAt nd)"

definition capacity :: "'v cache \<Rightarrow> nat" where
  "capacity c = length (c_m c)"

definition order :: "'v cache \<Rightarrow> u16 list" where
  "order c = follow (lk (c_dlnk c)) Next (length (c_m c)) (lk (c_dlnk c) (0, Next))"

definition entries_of :: "'v cache \<Rightarrow> 'v entry list" where
  "entries_of c = map (\<lambda>i. entry_of (node_at c i)) (order c)"

definition cache_rel :: "'v cache \<Rightarrow> u16 list \<Rightarrow> bool" where
  "cache_rel c xs \<longleftrightarrow>
     seg (lk (c_dlnk c)) Prev Next 0 xs 0 \<and> distinct xs \<and> 0 \<notin> set xs \<and>
     (\<forall>i\<in>set xs. i \<le> c_last c) \<and> length xs = unat (c_last c) \<and>
     length xs \<le> length (c_m c) \<and> 0 < length (c_m c) \<and> int (length (c_m c)) < 65535 \<and>
     length (c_dlnk c) = Suc (length (c_m c)) \<and>
     distinct (map fst (c_hmap c)) \<and>
     (\<forall>(k, i)\<in>set (c_hmap c). i \<in> set xs \<and> nd_k (node_at c i) = k) \<and>
     (\<forall>i\<in>set xs. map_of (c_hmap c) (nd_k (node_at c i)) = Some i)"

definition cache_inv :: "'v cache \<Rightarrow> bool" where
  "cache_inv c \<longleftrightarrow> cache_rel c (order c)"

end
