(* ===== verification/Store_Api.thy ===== *)
theory Store_Api
  imports Prelude
begin

text \<open>
  \<open>pkg/store/store.go\<close>: the cache types, the options and their defaults. The callback
  \<open>OnEvicted\<close> is user code; the options only record whether one is set. A
  \<open>time.Duration\<close> is an \<open>int64\<close> count of nanoseconds.
\<close>

datatype cache_type = LRU | LRU2 | Other_Type string

record options =
  MaxBytes :: int
  BucketCount :: u16
  CapPerBucket :: u16
  Level2Cap :: u16
  CleanupInterval :: int
  OnEvicted :: bool

definition minute :: int where
  "minute = 60 * 1000000000"

definition NewOptions :: options where
  "NewOptions =
     \<lparr>MaxBytes = 8192, BucketCount = 16, CapPerBucket = 512, Level2Cap = 256,
      CleanupInterval = minute, OnEvicted = False\<rparr>"

end
