(* ===== verification/Lru2_Store.thy ===== *)
theory Lru2_Store
  imports Lru2_Cache Store_Api
begin

text \<open>
  The two-level, bucketed store of \<open>pkg/store/lru2.go\<close>: \<open>lru2Store\<close>, its constructor and its
  operations, \<open>hashBKRD\<close> and \<open>maskOfNextPowOf2\<close>.

  Every operation of the code that takes the lock of bucket \<open>idx\<close> and works on
  \<open>s.caches[idx]\<close> is a function on one bucket (a pair of levels), lifted to the store by
  \<open>on_bucket\<close>: choosing the bucket, reading it and writing it back is one critical section of the
  code. \<open>Now()\<close> is a parameter: an operation that reads the clock twice takes two readings.
  An operation returns the calls of \<open>onEvicted\<close> it makes; \<^term>\<open>None\<close> is a runtime panic.
\<close>

subsection \<open>Hashing a key, the bucket mask\<close>

definition hashBKRD :: "string \<Rightarrow> i32" where
  "hashBKRD s = foldl (\<lambda>hash c. hash * 131 + of_char c) 0 s"

definition maskOfNextPowOf2 :: "u16 \<Rightarrow> u16" where
  "maskOfNextPowOf2 cap =
     (if 0 < cap \<and> cap AND (cap - 1) = 0 then cap - 1
      else
        let cap = cap OR drop_bit 1 cap;
            cap = cap OR drop_bit 2 cap;
            cap = cap OR drop_bit 4 cap
        in cap OR drop_bit 8 cap)"

subsection \<open>State and constructor\<close>

type_synonym 'v bucket = "'v cache \<times> 'v cache"

record 'v lru2 =
  caches :: "'v bucket list"
  onEvicted :: bool
  st_mask :: i32
  ticking :: bool
  tick_interval :: int

definition newLRU2Cache :: "options \<Rightarrow> 'v lru2" where
  "newLRU2Cache opts =
     (let buckets = (if BucketCount opts = 0 then 16 else BucketCount opts);
          cap1 = (if CapPerBucket opts = 0 then 1024 else CapPerBucket opts);
          cap2 = (if Level2Cap opts = 0 then 1024 else Level2Cap opts);
          interval = (if CleanupInterval opts \<le> 0 then minute else CleanupInterval opts);
          msk = maskOfNextPowOf2 buckets
      in \<lparr>caches = replicate (unat (msk + 1)) (Create cap1, Create cap2),
          onEvicted = OnEvicted opts,
          st_mask = ucast msk,
          ticking = True,
          tick_interval = interval\<rparr>)"

text \<open>Both cases of the switch in \<open>NewStore\<close> build an \<open>lru2Store\<close>.\<close>

definition NewStore :: "cache_type \<Rightarrow> options \<Rightarrow> 'v lru2" where
  "NewStore cacheType opts =
     (case cacheType of LRU2 \<Rightarrow> newLRU2Cache opts | _ \<Rightarrow> newLRU2Cache opts)"

definition Close :: "'v lru2 \<Rightarrow> 'v lru2" where
  "Close s = s\<lparr>ticking := False\<rparr>"

subsection \<open>Choosing the bucket\<close>

definition bucket_index :: "'v lru2 \<Rightarrow> string \<Rightarrow> i32" where
  "bucket_index s key = hashBKRD key AND st_mask s"

text \<open>Indexing a slice by an \<open>int32\<close> panics on a negative index.\<close>

definition index_i32 :: "i32 \<Rightarrow> nat option" where
  "index_i32 i = (if 0 \<le> sint i then Some (nat (sint i)) else None)"

definition on_bucket ::
  "'v lru2 \<Rightarrow> i32 \<Rightarrow> ('v bucket \<Rightarrow> ('v bucket \<times> 'r) option) \<Rightarrow> ('v lru2 \<times> 'r) option"
where
  "on_bucket s idx f = do {
     i \<leftarrow> index_i32 idx;
     b \<leftarrow> slice_get (caches s) i;
     (b', r) \<leftarrow> f b;
     cs \<leftarrow> slice_set (caches s) i b';
     Some (s\<lparr>caches := cs\<rparr>, r) }"

subsection \<open>The internal delete and level read\<close>

definition delete_in :: "bool \<Rightarrow> string \<Rightarrow> 'v bucket \<Rightarrow> ('v bucket \<times> bool \<times> 'v callback list) option" where
  "delete_in onEv key b = do {
     let (c0, c1) = b;
     (c0, n1, s1, e1) \<leftarrow> del c0 key;
     (c1, n2, s2, e2) \<leftarrow> del c1 key;
     let deleted = (0 < s1 \<or> 0 < s2);
     let evs =
       (if deleted \<and> onEv then
          (if n1 \<noteq> None \<and> nd_v (the n1) \<noteq> None then [(key, nd_v (the n1))]
           else if n2 \<noteq> None \<and> nd_v (the n2) \<noteq> None then [(key, nd_v (the n2))]
           else [])
        else []);
     Some ((c0, c1), deleted, evs) }"

text \<open>\<open>_get\<close> with \<open>level = 1\<close>, the only level the code passes.\<close>

definition get_level2 :: "string \<Rightarrow> int \<Rightarrow> 'v bucket \<Rightarrow> ('v bucket \<times> 'v node option \<times> int) option" where
  "get_level2 key currentTime b = do {
     let (c0, c1) = b;
     (c1, n, st) \<leftarrow> get c1 key;
     Some ((c0, c1),
       (case n of
          Some nd \<Rightarrow>
            if 0 < st then
              (if nd_expireAt nd \<le> 0 \<or> nd_expireAt nd \<le> currentTime then (None, 0) else (Some nd, st))
            else (None, 0)
        | None \<Rightarrow> (None, 0))) }"

subsection \<open>Get\<close>

definition get_in ::
  "bool \<Rightarrow> string \<Rightarrow> int \<Rightarrow> int \<Rightarrow> 'v bucket \<Rightarrow>
   ('v bucket \<times> ('v option \<times> bool) \<times> 'v callback list) option"
where
  "get_in onEv key now now' b = do {
     let (c0, c1) = b;
     (c0, n1, status1, expireAt) \<leftarrow> del c0 key;
     if 0 < status1 then
       if 0 < expireAt \<and> expireAt \<le> now then do {
         (b, ok, evs) \<leftarrow> delete_in onEv key (c0, c1);
         Some (b, (None, False), evs) }
       else do {
         nd \<leftarrow> n1;
         (c1, r, evs) \<leftarrow> put c1 key (nd_v nd) expireAt onEv;
         Some ((c0, c1), (nd_v nd, True), evs) }
     else do {
       (b, n2, status2) \<leftarrow> get_level2 key now' (c0, c1);
       case n2 of
         Some nd \<Rightarrow>
           if 0 < status2 then
             if 0 < nd_expireAt nd \<and> nd_expireAt nd \<le> now then do {
               (b, ok, evs) \<leftarrow> delete_in onEv key b;
               Some (b, (None, False), evs) }
             else Some (b, (nd_v nd, True), [])
           else Some (b, (None, False), [])
       | None \<Rightarrow> Some (b, (None, False), []) } }"

definition Get :: "'v lru2 \<Rightarrow> string \<Rightarrow> int \<Rightarrow> int \<Rightarrow>
    ('v lru2 \<times> ('v option \<times> bool) \<times> 'v callback list) option" where
  "Get s key now now' = on_bucket s (bucket_index s key) (get_in (onEvicted s) key now now')"

subsection \<open>Set\<close>

text \<open>The tail of a full level 1 that a new key is about to overwrite, if it is still valid.\<close>

definition overwritten :: "'v cache \<Rightarrow> string \<Rightarrow> 'v node option option" where
  "overwritten l1 key =
     (if map_of (c_hmap l1) key = None \<and> c_last l1 = of_nat (length (c_m l1)) then do {
        tailIdx \<leftarrow> lread (c_dlnk l1) 0 Prev;
        if 0 < tailIdx then do {
          tail \<leftarrow> slice_get (c_m l1) (unat (tailIdx - 1));
          Some (if 0 < nd_expireAt tail then Some tail else None) }
        else Some None }
      else Some None)"

definition set_in ::
  "bool \<Rightarrow> string \<Rightarrow> 'v option \<Rightarrow> int \<Rightarrow> 'v bucket \<Rightarrow> ('v bucket \<times> 'v callback list) option"
where
  "set_in onEv key val expireAt b = do {
     let (l1, l2) = b;
     evicted \<leftarrow> overwritten l1 key;
     (l1, r, evs) \<leftarrow> put l1 key val expireAt False;
     case evicted of
       None \<Rightarrow> Some ((l1, l2), [])
     | Some nd \<Rightarrow> do {
         (l2, r, evs) \<leftarrow> put l2 (nd_k nd) (nd_v nd) (nd_expireAt nd) onEv;
         Some ((l1, l2), evs) } }"

definition expiry :: "int \<Rightarrow> int \<Rightarrow> int" where
  "expiry now expiration = (if 0 < expiration then int64 (now + expiration) else 0)"

definition SetWithExpiration ::
  "'v lru2 \<Rightarrow> string \<Rightarrow> 'v option \<Rightarrow> int \<Rightarrow> int \<Rightarrow> ('v lru2 \<times> 'v callback list) option"
where
  "SetWithExpiration s key val expiration now =
     on_bucket s (bucket_index s key) (set_in (onEvicted s) key val (expiry now expiration))"

definition Set :: "'v lru2 \<Rightarrow> string \<Rightarrow> 'v option \<Rightarrow> int \<Rightarrow> ('v lru2 \<times> 'v callback list) option" where
  "Set s key val now = SetWithExpiration s key val 9999999999999999 now"

subsection \<open>Delete, Clear, Len\<close>

definition Delete :: "'v lru2 \<Rightarrow> string \<Rightarrow> ('v lru2 \<times> bool \<times> 'v callback list) option" where
  "Delete s key = on_bucket s (bucket_index s key) (delete_in (onEvicted s) key)"

definition collect_new :: "string list \<Rightarrow> string \<Rightarrow> 'v option \<Rightarrow> int \<Rightarrow> string list \<times> bool" where
  "collect_new keys key v e = ((if key \<in> set keys then keys else keys @ [key]), True)"

definition collect_all :: "string list \<Rightarrow> string \<Rightarrow> 'v option \<Rightarrow> int \<Rightarrow> string list \<times> bool" where
  "collect_all keys key v e = (keys @ [key], True)"

text \<open>The first phase of \<open>Clear\<close> visits the buckets in order; \<open>keys\<close> is carried along.\<close>

fun clear_keys :: "'v bucket list \<Rightarrow> string list \<Rightarrow> string list option" where
  "clear_keys [] keys = Some keys"
| "clear_keys ((c0, c1) # bs) keys = do {
     keys \<leftarrow> walk c0 collect_all keys;
     keys \<leftarrow> walk c1 collect_new keys;
     clear_keys bs keys }"

fun delete_keys :: "'v lru2 \<Rightarrow> string list \<Rightarrow> ('v lru2 \<times> 'v callback list) option" where
  "delete_keys s [] = Some (s, [])"
| "delete_keys s (key # keys) = do {
     (s, ok, evs) \<leftarrow> Delete s key;
     (s, evs') \<leftarrow> delete_keys s keys;
     Some (s, evs @ evs') }"

definition Clear :: "'v lru2 \<Rightarrow> ('v lru2 \<times> 'v callback list) option" where
  "Clear s = do { keys \<leftarrow> clear_keys (caches s) []; delete_keys s keys }"

definition count_step :: "int \<Rightarrow> string \<Rightarrow> 'v option \<Rightarrow> int \<Rightarrow> int \<times> bool" where
  "count_step count key v e = (count + 1, True)"

fun count_buckets :: "'v bucket list \<Rightarrow> int \<Rightarrow> int option" where
  "count_buckets [] count = Some count"
| "count_buckets ((c0, c1) # bs) count = do {
     count \<leftarrow> walk c0 count_step count;
     count \<leftarrow> walk c1 count_step count;
     count_buckets bs count }"

definition Len :: "'v lru2 \<Rightarrow> int option" where
  "Len s = count_buckets (caches s) 0"

subsection \<open>Expiry: one tick of the cleanup loop\<close>

definition expired_all :: "int \<Rightarrow> string list \<Rightarrow> string \<Rightarrow> 'v option \<Rightarrow> int \<Rightarrow> string list \<times> bool" where
  "expired_all now ks key v e = ((if 0 < e \<and> e \<le> now then ks @ [key] else ks), True)"

definition expired_new :: "int \<Rightarrow> string list \<Rightarrow> string \<Rightarrow> 'v option \<Rightarrow> int \<Rightarrow> string list \<times> bool" where
  "expired_new now ks key v e =
     ((if 0 < e \<and> e \<le> now then (if key \<in> set ks then ks else ks @ [key]) else ks), True)"

fun delete_each :: "bool \<Rightarrow> string list \<Rightarrow> 'v bucket \<Rightarrow> ('v bucket \<times> 'v callback list) option" where
  "delete_each onEv [] b = Some (b, [])"
| "delete_each onEv (key # keys) b = do {
     (b, ok, evs) \<leftarrow> delete_in onEv key b;
     (b, evs') \<leftarrow> delete_each onEv keys b;
     Some (b, evs @ evs') }"

definition cleanup_in :: "bool \<Rightarrow> int \<Rightarrow> 'v bucket \<Rightarrow> ('v bucket \<times> 'v callback list) option" where
  "cleanup_in onEv now b = do {
     let (c0, c1) = b;
     ks \<leftarrow> walk c0 (expired_all now) [];
     ks \<leftarrow> walk c1 (expired_new now) ks;
     delete_each onEv ks (c0, c1) }"

text \<open>The body of the loop over the buckets runs under the lock of bucket \<open>i\<close>.\<close>

definition cleanup_bucket :: "'v lru2 \<Rightarrow> int \<Rightarrow> nat \<Rightarrow> ('v lru2 \<times> 'v callback list) option" where
  "cleanup_bucket s now i = do {
     b \<leftarrow> slice_get (caches s) i;
     (b', evs) \<leftarrow> cleanup_in (onEvicted s) now b;
     cs \<leftarrow> slice_set (caches s) i b';
     Some (s\<lparr>caches := cs\<rparr>, evs) }"

fun cleanup_each :: "'v lru2 \<Rightarrow> int \<Rightarrow> nat list \<Rightarrow> ('v lru2 \<times> 'v callback list) option" where
  "cleanup_each s now [] = Some (s, [])"
| "cleanup_each s now (i # is) = do {
     (s, evs) \<leftarrow> cleanup_bucket s now i;
     (s, evs') \<leftarrow> cleanup_each s now is;
     Some (s, evs @ evs') }"

definition cleanup_tick :: "'v lru2 \<Rightarrow> int \<Rightarrow> ('v lru2 \<times> 'v callback list) option" where
  "cleanup_tick s now = cleanup_each s now [0..<length (caches s)]"

end
