(* ===== verification/Lru2_Cache_Refine.thy ===== *)
theory Lru2_Cache_Refine
  imports Lru2_Cache
begin

text \<open>
  The operations of \<open>Lru2_Cache\<close> never panic under \<open>cache_inv\<close>, keep it, and refine the
  operations on the abstract LRU list.
\<close>

subsection \<open>Consequences of the invariant\<close>

lemma cache_rel_order: "cache_rel c xs \<Longrightarrow> order c = xs"
  unfolding cache_rel_def order_def by (auto intro!: follow_seg [where f = Prev])

lemma cache_rel_inv: "cache_rel c xs \<Longrightarrow> cache_inv c"
  by (simp add: cache_inv_def cache_rel_order)

lemma cache_rel_entries: "cache_rel c xs \<Longrightarrow> entries_of c = map (\<lambda>i. entry_of (node_at c i)) xs"
  by (simp add: entries_of_def cache_rel_order)

lemma cache_relD:
  assumes "cache_rel c xs"
  shows "seg (lk (c_dlnk c)) Prev Next 0 xs 0" "distinct xs" "0 \<notin> set xs"
    and "\<And>i. i \<in> set xs \<Longrightarrow> i \<le> c_last c" "length xs = unat (c_last c)"
    and "length xs \<le> length (c_m c)" "0 < length (c_m c)" "length (c_m c) < 65535"
    and "length (c_dlnk c) = Suc (length (c_m c))" "distinct (map fst (c_hmap c))"
  using assms by (auto simp: cache_rel_def)

lemma cache_rel_hmap:
  assumes "cache_rel c xs"
  shows "map_of (c_hmap c) k = Some i \<longleftrightarrow> i \<in> set xs \<and> nd_k (node_at c i) = k"
  using assms unfolding cache_rel_def by (fastforce dest: map_of_SomeD)

lemma cache_rel_index:
  assumes "cache_rel c xs" "i \<in> set xs"
  shows "i \<noteq> 0" "unat (i - 1) < length (c_m c)" "unat i < length (c_dlnk c)"
    and "unat (i - 1) = unat i - 1"
proof -
  show i: "i \<noteq> 0" using assms cache_relD(3) by blast
  have "unat i \<le> unat (c_last c)" using cache_relD(4) [OF assms] by (simp add: word_le_nat_alt)
  then have "unat i \<le> length (c_m c)" using cache_relD(5,6) [OF assms(1)] by linarith
  moreover have "0 < unat i" using i by (simp add: unat_gt_0)
  ultimately show "unat (i - 1) < length (c_m c)" "unat i < length (c_dlnk c)"
    using i cache_relD(9) [OF assms(1)] by (auto simp: unat_pred)
  show "unat (i - 1) = unat i - 1" using i by (rule unat_pred)
qed

lemma cache_rel_links:
  assumes "cache_rel c xs" "i \<in> insert 0 (set xs)"
  shows "unat i < length (c_dlnk c)"
  using assms cache_rel_index(3) [OF assms(1)] cache_relD(9) [OF assms(1)] by auto

lemma node_slot_inj:
  assumes "cache_rel c xs" "i \<in> set xs" "j \<in> set xs" "unat (i - 1) = unat (j - 1)"
  shows "i = j"
  using assms by (metis diff_add_cancel word_unat_eq_iff)

lemma node_at_update:
  assumes "cache_rel c xs" "i \<in> set xs" "j \<in> set xs"
  shows "(c_m c)[unat (i - 1) := nd] ! unat (j - 1) = (if j = i then nd else node_at c j)"
  using assms node_slot_inj [OF assms(1,3,2)] cache_rel_index(2) [OF assms(1,2)]
  by (auto simp: node_at_def nth_list_update)

subsection \<open>Entries and the index\<close>

lemma keys_inj:
  assumes "cache_rel c xs" "i \<in> set xs" "j \<in> set xs" "nd_k (node_at c i) = nd_k (node_at c j)"
  shows "i = j"
  using assms cache_rel_hmap by (metis option.inject)

lemma entries_keys: "cache_rel c xs \<Longrightarrow> map fst (entries_of c) = map (\<lambda>i. nd_k (node_at c i)) xs"
  by (simp add: cache_rel_entries entry_of_def comp_def)

lemma entries_distinct: "cache_rel c xs \<Longrightarrow> distinct (map fst (entries_of c))"
  by (simp add: entries_keys distinct_map cache_relD inj_on_def) (blast intro: keys_inj)

lemma hmap_None: "cache_rel c xs \<Longrightarrow>
  map_of (c_hmap c) k = None \<longleftrightarrow> k \<notin> fst ` set (entries_of c)"
  by (auto simp: cache_rel_entries entry_of_def image_iff)
     (metis cache_rel_hmap not_None_eq option.distinct(1))+

lemma hmap_entries_None:
  "cache_rel c xs \<Longrightarrow> map_of (c_hmap c) k = None \<longleftrightarrow> map_of (entries_of c) k = None"
  by (metis hmap_None map_of_eq_None_iff)

lemma hmap_Some_entry:
  assumes "cache_rel c xs" "map_of (c_hmap c) k = Some i"
  shows "map_of (entries_of c) k = Some (nd_v (node_at c i), nd_expireAt (node_at c i))"
proof -
  have "i \<in> set xs" "nd_k (node_at c i) = k" using assms by (auto simp: cache_rel_hmap)
  then have "(k, nd_v (node_at c i), nd_expireAt (node_at c i)) \<in> set (entries_of c)"
    using assms(1) by (force simp: cache_rel_entries entry_of_def)
  then show ?thesis using entries_distinct [OF assms(1)] by simp
qed

lemma delete_entry:
  assumes "cache_rel c xs" "i \<in> set xs"
  shows "AList.delete (nd_k (node_at c i)) (entries_of c) =
    map (\<lambda>i. entry_of (node_at c i)) (remove1 i xs)"
proof -
  have "filter (\<lambda>j. nd_k (node_at c i) \<noteq> nd_k (node_at c j)) xs = filter (\<lambda>j. i \<noteq> j) xs"
    using keys_inj [OF assms(1) assms(2)] by (intro filter_cong) auto
  then show ?thesis
    using assms cache_relD(2) [OF assms(1)]
    by (simp add: cache_rel_entries AList.delete_eq filter_map comp_def entry_of_def case_prod_beta
        distinct_remove1_removeAll removeAll_filter_not_eq)
qed

lemma hmap_empty: "cache_rel c xs \<Longrightarrow> c_hmap c = [] \<longleftrightarrow> xs = []"
  unfolding cache_rel_def by (cases xs; cases "c_hmap c") auto

subsection \<open>Moving a node, overwriting a node\<close>

text \<open>Replacing the links by links of a permuted ring keeps the relation.\<close>

lemma cache_rel_reorder:
  assumes "cache_rel c xs" "seg (lk d) Prev Next 0 ys 0" "length d = length (c_dlnk c)"
    and "set ys = set xs" "distinct ys"
  shows "cache_rel (c\<lparr>c_dlnk := d\<rparr>) ys"
proof -
  have "length ys = length xs"
    using assms(1,4,5) by (metis cache_relD(2) distinct_card)
  with assms show ?thesis unfolding cache_rel_def node_at_def by simp
qed

text \<open>Overwriting a node's value and expiry keeps it, and so does giving a node a new key when
  the index follows.\<close>

lemma cache_rel_overwrite:
  assumes "cache_rel c xs" "i \<in> set xs" "nd_k nd = nd_k (node_at c i)"
  shows "cache_rel (c\<lparr>c_m := (c_m c)[unat (i - 1) := nd]\<rparr>) xs"
proof -
  have k: "\<And>j. j \<in> set xs \<Longrightarrow>
      nd_k (node_at (c\<lparr>c_m := (c_m c)[unat (i - 1) := nd]\<rparr>) j) = nd_k (node_at c j)"
    using node_at_update [OF assms(1,2), of _ nd] assms(3) by (simp add: node_at_def)
  show ?thesis using assms(1) k unfolding cache_rel_def by auto
qed

lemma cache_rel_rekey:
  assumes "cache_rel c xs" "i \<in> set xs" "map_of (c_hmap c) (nd_k nd) = None"
  shows "cache_rel (c\<lparr>c_m := (c_m c)[unat (i - 1) := nd],
    c_hmap := AList.update (nd_k nd) i (AList.delete (nd_k (node_at c i)) (c_hmap c))\<rparr>) xs"
    (is "cache_rel ?c xs")
proof -
  let ?h = "AList.update (nd_k nd) i (AList.delete (nd_k (node_at c i)) (c_hmap c))"
  have n: "\<And>j. j \<in> set xs \<Longrightarrow> node_at ?c j = (if j = i then nd else node_at c j)"
    using node_at_update [OF assms(1,2), of _ nd] by (simp add: node_at_def)
  have d: "distinct (map fst ?h)"
    using cache_relD(10) [OF assms(1)] by (simp add: gomap_simps)
  have old: "map_of (c_hmap c) (nd_k (node_at c i)) = Some i"
    using assms(1,2) by (simp add: cache_rel_hmap)
  have fresh: "nd_k (node_at c j) \<noteq> nd_k nd" if "j \<in> set xs" for j
    using assms(1,3) that cache_rel_hmap [OF assms(1), of "nd_k nd" j] by auto
  have look: "map_of ?h = (map_of (c_hmap c))(nd_k (node_at c i) := None, nd_k nd \<mapsto> i)"
    by (simp add: gomap_simps)
  have "map_of ?h (nd_k (node_at ?c j)) = Some j" if j: "j \<in> set xs" for j
    using j n [OF j] fresh [OF j] keys_inj [OF assms(1,2) j] assms(1)
    by (auto simp: look cache_rel_hmap)
  moreover have "j \<in> set xs \<and> nd_k (node_at ?c j) = k" if "(k, j) \<in> set ?h" for k j
  proof (cases "k = nd_k nd")
    case True
    then have "j = i" using that d look by (metis fun_upd_same map_of_eq_Some_distinct option.inject)
    then show ?thesis using True assms(2) n by simp
  next
    case False
    from that d have "map_of ?h k = Some j" by simp
    with False have k: "k \<noteq> nd_k (node_at c i)" "map_of (c_hmap c) k = Some j"
      by (auto simp: look split: if_splits)
    then have "j \<in> set xs" "nd_k (node_at c j) = k" using assms(1) by (auto simp: cache_rel_hmap)
    then show ?thesis using k n by auto
  qed
  ultimately show ?thesis using assms(1) d unfolding cache_rel_def by auto
qed

subsection \<open>get and del\<close>

lemma node_at_dlnk [simp]: "node_at (c\<lparr>c_dlnk := d\<rparr>) i = node_at c i"
  by (simp add: node_at_def)

lemma adjust_front_rel:
  assumes "cache_rel c xs" "i \<in> set xs"
  obtains d' where "adjust (c_dlnk c) i Prev Next = Some d'"
    "cache_rel (c\<lparr>c_dlnk := d'\<rparr>) (i # remove1 i xs)"
proof -
  obtain d' where d: "adjust (c_dlnk c) i Prev Next = Some d'" "length d' = length (c_dlnk c)"
    and s: "seg (lk d') Prev Next 0 (i # remove1 i xs) 0"
    using adjust_front [OF cache_relD(1-3) [OF assms(1)] assms(2)] cache_rel_links [OF assms(1)]
    by blast
  have "cache_rel (c\<lparr>c_dlnk := d'\<rparr>) (i # remove1 i xs)"
    using assms d s cache_relD(2) [OF assms(1)]
    by (intro cache_rel_reorder [OF assms(1) s]) auto
  with d that show thesis by blast
qed

lemma adjust_back_rel:
  assumes "cache_rel c xs" "i \<in> set xs"
  obtains d' where "adjust (c_dlnk c) i Next Prev = Some d'"
    "cache_rel (c\<lparr>c_dlnk := d'\<rparr>) (remove1 i xs @ [i])"
proof -
  obtain d' where d: "adjust (c_dlnk c) i Next Prev = Some d'" "length d' = length (c_dlnk c)"
    and s: "seg (lk d') Prev Next 0 (remove1 i xs @ [i]) 0"
    using adjust_back [OF cache_relD(1-3) [OF assms(1)] assms(2)] cache_rel_links [OF assms(1)]
    by blast
  have "cache_rel (c\<lparr>c_dlnk := d'\<rparr>) (remove1 i xs @ [i])"
    using assms d s cache_relD(2) [OF assms(1)]
    by (intro cache_rel_reorder [OF assms(1) s]) auto
  with d that show thesis by blast
qed

lemma get_refine:
  assumes "cache_rel c xs"
  obtains c' nd st ys where "get c k = Some (c', nd, st)" "cache_rel c' ys"
    "(entries_of c', map_option entry_of nd, st) = lru_get (entries_of c) k" "capacity c' = capacity c"
proof (cases "map_of (c_hmap c) k")
  case None
  with hmap_entries_None [OF assms] have "map_of (entries_of c) k = None" by blast
  with None show thesis using that [of c None 0 xs] assms by (simp add: get_def lru_get_def)
next
  case (Some i)
  then have i: "i \<in> set xs" "nd_k (node_at c i) = k" using assms by (auto simp: cache_rel_hmap)
  obtain d' where d: "adjust (c_dlnk c) i Prev Next = Some d'"
    and r: "cache_rel (c\<lparr>c_dlnk := d'\<rparr>) (i # remove1 i xs)"
    by (rule adjust_front_rel [OF assms i(1)])
  have "get c k = Some (c\<lparr>c_dlnk := d'\<rparr>, Some (node_at c i), 1)"
    using Some d cache_rel_index(2) [OF assms i(1)] by (simp add: get_def go_simps node_at_def)
  moreover have "(entries_of (c\<lparr>c_dlnk := d'\<rparr>), Some (entry_of (node_at c i)), 1) =
      lru_get (entries_of c) k"
    using delete_entry [OF assms i(1)] hmap_Some_entry [OF assms Some] i(2)
    by (simp add: cache_rel_entries [OF r] lru_get_def entry_of_def)
  ultimately show thesis using that r by (force simp: capacity_def)
qed

lemma entries_overwrite:
  assumes "cache_rel c xs" "i \<in> set xs" "c' = c\<lparr>c_m := (c_m c)[unat (i - 1) := nd]\<rparr>"
  shows "map (\<lambda>j. entry_of (node_at c' j)) (remove1 i xs) = map (\<lambda>j. entry_of (node_at c j)) (remove1 i xs)"
    and "node_at c' i = nd"
  using assms node_at_update [OF assms(1,2), of _ nd] cache_relD(2) [OF assms(1)]
  by (auto simp: node_at_def)

lemma del_refine:
  assumes "cache_rel c xs"
  obtains c' nd st e ys where "del c k = Some (c', nd, st, e)" "cache_rel c' ys"
    "(entries_of c', map_option entry_of nd, st, e) = lru_del (entries_of c) k"
    "capacity c' = capacity c"
proof (cases "map_of (c_hmap c) k")
  case None
  with hmap_entries_None [OF assms] have "map_of (entries_of c) k = None" by blast
  with None show thesis using that [of c None 0 0 xs] assms by (simp add: del_def lru_del_def)
next
  case (Some i)
  then have i: "i \<in> set xs" "nd_k (node_at c i) = k" using assms by (auto simp: cache_rel_hmap)
  note idx = cache_rel_index(2) [OF assms i(1)]
  note look = hmap_Some_entry [OF assms Some]
  let ?nd = "(node_at c i)\<lparr>nd_expireAt := 0\<rparr>"
  let ?c = "c\<lparr>c_m := (c_m c)[unat (i - 1) := ?nd]\<rparr>"
  show thesis
  proof (cases "0 < nd_expireAt (node_at c i)")
    case False
    then have "del c k = Some (c, None, 0, 0)"
      using Some idx by (simp add: del_def go_simps node_at_def)
    then show thesis using that [of c None 0 0 xs] assms look False by (simp add: lru_del_def)
  next
    case True
    have r: "cache_rel ?c xs" by (rule cache_rel_overwrite [OF assms i(1)]) simp
    obtain d' where d: "adjust (c_dlnk c) i Next Prev = Some d'"
      and r': "cache_rel (?c\<lparr>c_dlnk := d'\<rparr>) (remove1 i xs @ [i])"
      using adjust_back_rel [OF r i(1)] by auto
    have "del c k = Some (?c\<lparr>c_dlnk := d'\<rparr>, Some ?nd, 1, nd_expireAt (node_at c i))"
      using Some d idx True by (simp add: del_def go_simps node_at_def)
    moreover have "(entries_of (?c\<lparr>c_dlnk := d'\<rparr>), Some (entry_of ?nd), 1, nd_expireAt (node_at c i)) =
        lru_del (entries_of c) k"
      using entries_overwrite [OF assms i(1) refl, of ?nd] delete_entry [OF assms i(1)] look True i(2)
      unfolding cache_rel_entries [OF r'] by (simp add: lru_del_def entry_of_def)
    ultimately show thesis using that r' by (force simp: capacity_def)
  qed
qed

subsection \<open>put\<close>

lemma put_update:
  assumes "cache_rel c xs" "map_of (c_hmap c) k = Some i"
  obtains c' ys where "put c k v e cb = Some (c', 0, [])" "cache_rel c' ys"
    "entries_of c' = (k, v, e) # AList.delete k (entries_of c)" "capacity c' = capacity c"
proof -
  have i: "i \<in> set xs" "nd_k (node_at c i) = k" using assms by (auto simp: cache_rel_hmap)
  let ?nd = "(node_at c i)\<lparr>nd_v := v, nd_expireAt := e\<rparr>"
  let ?c = "c\<lparr>c_m := (c_m c)[unat (i - 1) := ?nd]\<rparr>"
  have r: "cache_rel ?c xs" by (rule cache_rel_overwrite [OF assms(1) i(1)]) simp
  obtain d' where d: "adjust (c_dlnk c) i Prev Next = Some d'"
    and r': "cache_rel (?c\<lparr>c_dlnk := d'\<rparr>) (i # remove1 i xs)"
    using adjust_front_rel [OF r i(1)] by auto
  have "put c k v e cb = Some (?c\<lparr>c_dlnk := d'\<rparr>, 0, [])"
    using assms(2) d cache_rel_index(2) [OF assms(1) i(1)]
    by (simp add: put_def go_simps node_at_def)
  moreover have "entries_of (?c\<lparr>c_dlnk := d'\<rparr>) = (k, v, e) # AList.delete k (entries_of c)"
    using entries_overwrite [OF assms(1) i(1) refl, of ?nd] delete_entry [OF assms(1) i(1)] i(2)
    unfolding cache_rel_entries [OF r'] by (simp add: entry_of_def)
  ultimately show thesis using that r' by (force simp: capacity_def)
qed

lemma full_iff: "cache_rel c xs \<Longrightarrow> c_last c = of_nat (length (c_m c)) \<longleftrightarrow> length xs = capacity c"
  using cache_relD(5,8) [of c xs]
  by (auto simp: capacity_def word_unat_eq_iff unat_of_nat_u16)

lemma put_replace:
  assumes rel: "cache_rel c xs" and new: "map_of (c_hmap c) k = None" and full: "length xs = capacity c"
  obtains c' ys where
    "put c k v e cb = Some (c', 1, case last (entries_of c) of (k', v', e') \<Rightarrow>
       if cb \<and> 0 < e' then [(k', v')] else [])"
    "cache_rel c' ys" "entries_of c' = (k, v, e) # butlast (entries_of c)" "capacity c' = capacity c"
proof -
  have ne: "xs \<noteq> []" using full cache_relD(7) [OF rel] by (auto simp: capacity_def)
  define i where "i = last xs"
  have i: "i \<in> set xs" using ne by (simp add: i_def)
  have ti: "lk (c_dlnk c) (0, Prev) = i"
    using seg_last [OF cache_relD(1) [OF rel]] ne by (simp add: i_def)
  note idx = cache_rel_index(2) [OF rel i] cache_rel_links [OF rel, of 0, simplified]
  have rm: "remove1 i xs = butlast xs"
    using ne cache_relD(2) [OF rel] unfolding i_def
    by (cases xs rule: rev_cases) (auto simp: remove1_append)
  let ?nd = "(node_at c i)\<lparr>nd_k := k, nd_v := v, nd_expireAt := e\<rparr>"
  let ?h = "AList.update k i (AList.delete (nd_k (node_at c i)) (c_hmap c))"
  let ?c = "c\<lparr>c_m := (c_m c)[unat (i - 1) := ?nd], c_hmap := ?h\<rparr>"
  have r: "cache_rel ?c xs" using cache_rel_rekey [OF rel i, of ?nd] new by simp
  obtain d' where d: "adjust (c_dlnk c) i Prev Next = Some d'"
    and r': "cache_rel (?c\<lparr>c_dlnk := d'\<rparr>) (i # remove1 i xs)"
    using adjust_front_rel [OF r i] by auto
  have le: "last (entries_of c) = entry_of (node_at c i)"
    using ne by (simp add: cache_rel_entries [OF rel] last_map i_def)
  have "put c k v e cb = Some (?c\<lparr>c_dlnk := d'\<rparr>, 1, case last (entries_of c) of (k', v', e') \<Rightarrow>
       if cb \<and> 0 < e' then [(k', v')] else [])"
    using new d idx ti full by (simp add: put_def go_simps full_iff [OF rel] node_at_def le entry_of_def)
  moreover have "entries_of (?c\<lparr>c_dlnk := d'\<rparr>) = (k, v, e) # butlast (entries_of c)"
  proof -
    have "set (butlast xs) = set xs - {i}"
      using cache_relD(2) [OF rel] by (simp flip: rm)
    then have "map (\<lambda>j. entry_of (node_at ?c j)) (butlast xs) = map (\<lambda>j. entry_of (node_at c j)) (butlast xs)"
      using node_at_update [OF rel i, of _ ?nd] by (auto simp: node_at_def)
    moreover have "node_at ?c i = ?nd"
      using node_at_update [OF rel i i, of ?nd] by (simp add: node_at_def)
    ultimately show ?thesis
      unfolding cache_rel_entries [OF r'] rm
      by (simp add: entry_of_def cache_rel_entries [OF rel] map_butlast)
  qed
  ultimately show thesis using that r' by (force simp: capacity_def)
qed

lemma push_front_links:
  assumes "seg (lk d) Prev Next 0 xs 0" "distinct xs" "0 \<notin> set xs" "l \<notin> set xs" "l \<noteq> 0"
    and "\<And>i. i \<in> insert 0 (set xs) \<Longrightarrow> unat i < length d" "unat l < length d"
  obtains d1 d2 d3 where
    "(if xs = [] then lwrite d 0 Prev l
      else do { h \<leftarrow> lread d 0 Next; lwrite d h Prev l }) = Some d1"
    "lread d1 0 Next = Some (lk d (0, Next))"
    "slice_set d1 (unat l) (0, lk d (0, Next)) = Some d2" "lwrite d2 0 Next l = Some d3"
    "length d3 = length d" "seg (lk d3) Prev Next 0 (l # xs) 0"
proof -
  let ?h = "lk d (0, Next)"
  have h: "?h \<in> insert 0 (set xs)" "xs = [] \<longleftrightarrow> ?h = 0"
    using seg_first [OF assms(1)] assms(3) by (cases xs; auto)+
  have hl: "?h \<noteq> l" using h(1) assms(4,5) by auto
  let ?d1 = "lset d ?h Prev l"
  let ?d2 = "?d1[unat l := (0, ?h)]"
  have len: "unat ?h < length d" "unat (0 :: u16) < length d" "unat l < length d"
    using assms(6,7) h(1) by blast+
  have lk2: "lk ?d2 = (lk ?d1)((l, Prev) := 0, (l, Next) := ?h)"
    using len by (simp add: lk_link)
  have "lk (lset ?d2 0 Next l) = relink (lk d) Prev Next l"
    using len assms(5) hl by (auto simp: lk2 relink_def fun_eq_iff)
  moreover have "seg (relink (lk d) Prev Next l) Prev Next 0 (l # xs) 0"
    using assms by (intro relink_seg) auto
  ultimately show thesis
    using that [of ?d1 ?d2 "lset ?d2 0 Next l"] len h(2) by (simp add: go_simps)
qed

lemma put_insert:
  assumes rel: "cache_rel c xs" and new: "map_of (c_hmap c) k = None" and room: "length xs \<noteq> capacity c"
  obtains c' ys where "put c k v e cb = Some (c', 1, [])" "cache_rel c' ys"
    "entries_of c' = (k, v, e) # entries_of c" "capacity c' = capacity c"
proof -
  note R = cache_relD [OF rel]
  define l where "l = c_last c + 1"
  have ul: "unat (c_last c) < length (c_m c)" using R(5,6) room by (auto simp: capacity_def)
  have sl: "unat l = Suc (unat (c_last c))" using ul R(8) by (simp add: l_def unat_succ_u16)
  have l0: "l \<noteq> 0" using sl by (auto simp: word_unat_eq_iff)
  have lp: "l - 1 = c_last c" by (simp add: l_def)
  have lx: "l \<notin> set xs" using R(4) [of l] sl by (auto simp: word_le_nat_alt)
  obtain d1 d2 d3 where d1: "(if xs = [] then lwrite (c_dlnk c) 0 Prev l
      else do { h \<leftarrow> lread (c_dlnk c) 0 Next; lwrite (c_dlnk c) h Prev l }) = Some d1"
    and d2: "lread d1 0 Next = Some (lk (c_dlnk c) (0, Next))"
      "slice_set d1 (unat l) (0, lk (c_dlnk c) (0, Next)) = Some d2" "lwrite d2 0 Next l = Some d3"
    and d3: "length d3 = length (c_dlnk c)" "seg (lk d3) Prev Next 0 (l # xs) 0"
    using push_front_links [OF R(1-3) lx l0 cache_rel_links [OF rel]] sl ul R(9) by auto
  let ?nd = "(node_at c l)\<lparr>nd_k := k, nd_v := v, nd_expireAt := e\<rparr>"
  let ?c = "c\<lparr>c_last := l, c_m := (c_m c)[unat (l - 1) := ?nd], c_dlnk := d3,
      c_hmap := AList.update k l (c_hmap c)\<rparr>"
  have put: "put c k v e cb = Some (?c, 1, [])"
    using new room d1 d2 ul hmap_empty [OF rel]
    by (simp add: put_def full_iff [OF rel] l_def [symmetric] lp go_simps node_at_def)
  have nl: "node_at ?c l = ?nd" using ul lp by (simp add: node_at_def)
  have nx: "node_at ?c j = node_at c j" if "j \<in> set xs" for j
  proof -
    have "j - 1 \<noteq> c_last c" using that lx lp by (metis diff_add_cancel)
    then show ?thesis by (simp add: node_at_def lp word_unat_eq_iff)
  qed
  have fresh: "nd_k (node_at c j) \<noteq> k" if "j \<in> set xs" for j
    using new that cache_rel_hmap [OF rel, of k j] by auto
  have hm: "map_of (AList.update k l (c_hmap c)) = (map_of (c_hmap c))(k \<mapsto> l)"
    by (simp add: gomap_simps)
  have "cache_rel ?c (l # xs)"
    unfolding cache_rel_def
  proof (intro conjI)
    show "\<forall>i\<in>set (l # xs). i \<le> c_last ?c"
      using R(4) sl by (force simp: word_le_nat_alt)
    show "distinct (map fst (c_hmap ?c))" using R(10) by (simp add: gomap_simps)
    show "\<forall>(k', i)\<in>set (c_hmap ?c). i \<in> set (l # xs) \<and> nd_k (node_at ?c i) = k'"
    proof (clarify)
      fix k' i assume "(k', i) \<in> set (c_hmap ?c)"
      moreover have "distinct (map fst (c_hmap ?c))" using R(10) by (simp add: gomap_simps)
      ultimately have "map_of (c_hmap ?c) k' = Some i" by (rule map_of_is_SomeI [rotated])
      then have "k' = k \<and> i = l \<or> map_of (c_hmap c) k' = Some i" by (auto simp: hm split: if_splits)
      then show "i \<in> set (l # xs) \<and> nd_k (node_at ?c i) = k'"
        using nl nx cache_rel_hmap [OF rel] by auto
    qed
    show "\<forall>i\<in>set (l # xs). map_of (c_hmap ?c) (nd_k (node_at ?c i)) = Some i"
      using nl nx fresh cache_rel_hmap [OF rel] by (auto simp: hm)
  qed (use R d3 lx l0 sl ul in \<open>auto simp del: seg.simps\<close>)
  moreover from this have "entries_of ?c = (k, v, e) # entries_of c"
    using nl nx by (simp add: cache_rel_entries cache_rel_entries [OF rel] entry_of_def)
  ultimately show thesis using that put by (force simp: capacity_def)
qed

lemma put_refine:
  assumes rel: "cache_rel c xs"
  obtains c' r evs ys where "put c k v e cb = Some (c', r, evs)" "cache_rel c' ys"
    "(entries_of c', r, evs) = lru_put (capacity c) (entries_of c) k v e cb" "capacity c' = capacity c"
proof (cases "map_of (c_hmap c) k")
  case (Some i)
  obtain c' ys where P: "put c k v e cb = Some (c', 0, [])" "cache_rel c' ys"
    "entries_of c' = (k, v, e) # AList.delete k (entries_of c)" "capacity c' = capacity c"
    by (rule put_update [OF rel Some])
  have "k \<in> fst ` set (entries_of c)" using Some hmap_None [OF rel, of k] by simp
  then show thesis using that P by (simp add: lru_put_def)
next
  case None
  have k: "k \<notin> fst ` set (entries_of c)" using None hmap_None [OF rel, of k] by simp
  have len: "length (entries_of c) = length xs" by (simp add: cache_rel_entries [OF rel])
  show thesis
  proof (cases "length xs = capacity c")
    case True
    obtain c' ys where P: "put c k v e cb = Some (c', 1, case last (entries_of c) of (k', v', e') \<Rightarrow>
         if cb \<and> 0 < e' then [(k', v')] else [])"
      "cache_rel c' ys" "entries_of c' = (k, v, e) # butlast (entries_of c)" "capacity c' = capacity c"
      by (rule put_replace [OF rel None True])
    then show thesis using that k len True by (simp add: lru_put_def)
  next
    case False
    obtain c' ys where P: "put c k v e cb = Some (c', 1, [])" "cache_rel c' ys"
      "entries_of c' = (k, v, e) # entries_of c" "capacity c' = capacity c"
      by (rule put_insert [OF rel None False])
    then show thesis using that k len False by (simp add: lru_put_def)
  qed
qed

subsection \<open>walk\<close>

lemma walk_from_seg:
  assumes "cache_rel c xs" "seg (lk (c_dlnk c)) Prev Next a ys 0" "set ys \<subseteq> set xs"
  shows "walk_from c w (lk (c_dlnk c) (a, Next)) s = Some (lru_walk (map (\<lambda>i. entry_of (node_at c i)) ys) w s)"
  using assms(2,3)
proof (induction ys arbitrary: a s)
  case Nil
  then show ?case by (subst walk_from.simps) simp
next
  case (Cons i ys)
  note idx = cache_rel_index [OF assms(1), of i]
  have lr: "lread (c_dlnk c) i Next = Some (lk (c_dlnk c) (i, Next))"
    using Cons.prems idx by (simp add: go_simps)
  have IH: "\<And>s. walk_from c w (lk (c_dlnk c) (i, Next)) s =
      Some (lru_walk (map (\<lambda>i. entry_of (node_at c i)) ys) w s)"
    using Cons by simp
  show ?case
    using Cons.prems idx(1,2) IH lr
    by (subst walk_from.simps)
       (auto simp: go_simps node_at_def entry_of_def split: prod.splits bool.splits)
qed

lemma walk_refine: "cache_rel c xs \<Longrightarrow> walk c w s = Some (lru_walk (entries_of c) w s)"
  using walk_from_seg [of c xs 0 xs w s] cache_relD(1) [of c xs] cache_rel_links [of c xs 0]
  by (simp add: walk_def go_simps cache_rel_entries)

subsection \<open>Create\<close>

lemma Create_rel:
  assumes "0 < unat cap" "unat cap < 65535"
  shows "cache_rel (Create cap) []" "capacity (Create cap) = unat cap" "entries_of (Create cap) = []"
proof -
  have len: "length (c_m (Create cap)) = unat cap" "length (c_dlnk (Create cap)) = Suc (unat cap)"
    by (simp_all add: Create_def unat_succ_u16 [OF assms(2)])
  have cap: "int (length (c_m (Create cap))) < 65535"
    unfolding len using assms(2) by linarith
  have lk: "lk (c_dlnk (Create cap)) (0, f) = 0" for f
    using len(2) by (cases f) (simp_all add: lk_def Create_def)
  show r: "cache_rel (Create cap) []"
    unfolding cache_rel_def
    by (intro conjI cap) (simp_all add: lk len assms(1), simp_all add: Create_def)
  show "capacity (Create cap) = unat cap" by (simp add: capacity_def len)
  show "entries_of (Create cap) = []" using cache_rel_entries [OF r] by simp
qed

subsection \<open>The cache is a level\<close>

lemma entries_bound: "cache_rel c xs \<Longrightarrow> length (entries_of c) \<le> capacity c"
  using cache_relD(6) [of c xs] by (simp add: cache_rel_entries capacity_def)

interpretation level: lru_level cache_inv entries_of capacity entry_of put get del
proof
  fix c :: "'a cache" and k v e cb
  assume "cache_inv c"
  then have r: "cache_rel c (order c)" by (simp add: cache_inv_def)
  show "distinct (map fst (entries_of c))" by (rule entries_distinct [OF r])
  show "length (entries_of c) \<le> capacity c" by (rule entries_bound [OF r])
  show "0 < capacity c" using cache_relD(7) [OF r] by (simp add: capacity_def)
  show "\<exists>c' ret evs. put c k v e cb = Some (c', ret, evs) \<and> cache_inv c' \<and> capacity c' = capacity c \<and>
      (entries_of c', ret, evs) = lru_put (capacity c) (entries_of c) k v e cb"
    by (rule put_refine [OF r, of k v e cb]) (blast dest: cache_rel_inv)
  show "\<exists>c' nd st. get c k = Some (c', nd, st) \<and> cache_inv c' \<and> capacity c' = capacity c \<and>
      (entries_of c', map_option entry_of nd, st) = lru_get (entries_of c) k"
    by (rule get_refine [OF r, of k]) (blast dest: cache_rel_inv)
  show "\<exists>c' nd st e. del c k = Some (c', nd, st, e) \<and> cache_inv c' \<and> capacity c' = capacity c \<and>
      (entries_of c', map_option entry_of nd, st, e) = lru_del (entries_of c) k"
    by (rule del_refine [OF r, of k]) (blast dest: cache_rel_inv)
qed

lemma walk_entries: "cache_inv c \<Longrightarrow> walk c w s = Some (lru_walk (entries_of c) w s)"
  unfolding cache_inv_def by (rule walk_refine)

end
