(* ===== verification/Lru2_Bucket.thy ===== *)
theory Lru2_Bucket
  imports Lru2_Store Lru2_Cache_Refine
begin

text \<open>
  The operations of the store on one bucket, verified against the contract of its two levels
  (the interpretation \<open>level\<close> of \<open>Lru2_Cache_Refine\<close>). A reader of a bucket sees the level-1
  entry of a key if it is live, else the level-2 entry: \<open>peek\<close>.
\<close>

subsection \<open>Invariant and view of a bucket\<close>

definition bucket_inv :: "'v bucket \<Rightarrow> bool" where
  "bucket_inv b \<longleftrightarrow> cache_inv (fst b) \<and> cache_inv (snd b)"

definition view1 :: "'v bucket \<Rightarrow> string \<Rightarrow> ('v option \<times> int) option" where
  "view1 b = live (entries_of (fst b))"

definition view2 :: "'v bucket \<Rightarrow> string \<Rightarrow> ('v option \<times> int) option" where
  "view2 b = live (entries_of (snd b))"

definition peek :: "'v bucket \<Rightarrow> string \<Rightarrow> ('v option \<times> int) option" where
  "peek b k = (case view1 b k of Some x \<Rightarrow> Some x | None \<Rightarrow> view2 b k)"

lemma peek_cong: "view1 b' k = view1 b k \<Longrightarrow> view2 b' k = view2 b k \<Longrightarrow> peek b' k = peek b k"
  by (simp add: peek_def split: option.split)

lemma peek_None: "peek b k = None \<longleftrightarrow> view1 b k = None \<and> view2 b k = None"
  by (simp add: peek_def split: option.split)

definition bucket_keys :: "'v bucket \<Rightarrow> string set" where
  "bucket_keys b = keys_of (entries_of (fst b)) \<union> keys_of (entries_of (snd b))"

definition bucket_caps :: "'v bucket \<Rightarrow> nat \<times> nat" where
  "bucket_caps b = (capacity (fst b), capacity (snd b))"

definition delete_event :: "bool \<Rightarrow> string \<Rightarrow> ('v option \<times> int) option \<Rightarrow> ('v option \<times> int) option \<Rightarrow>
    'v callback list" where
  "delete_event onEv k x1 x2 =
     (if \<not> onEv then []
      else case x1 of
        Some (Some v, e) \<Rightarrow> [(k, Some v)]
      | _ \<Rightarrow> (case x2 of Some (Some v, e) \<Rightarrow> [(k, Some v)] | _ \<Rightarrow> []))"

lemmas bucket_defs = bucket_inv_def view1_def view2_def bucket_keys_def bucket_caps_def

lemma deleted_node:
  "map_option entry_of n = map_option (\<lambda>(v, e). (k, v, 0)) x \<Longrightarrow>
   n = None \<and> x = None \<or> (\<exists>nd v e. n = Some nd \<and> nd_v nd = v \<and> x = Some (v, e))"
  by (cases x; cases n) (auto simp: entry_of_def)

text \<open>What a \<open>put\<close> loses, it reports: the displaced entry is the last one of the level.\<close>

lemma displaced_live:
  assumes "cache_inv c" "displaced (capacity c) (entries_of c) k = Some (k', v', e')"
  shows "map_of (entries_of c) k' = Some (v', e')"
proof -
  have "entries_of c \<noteq> []" "last (entries_of c) = (k', v', e')"
    using assms(2) by (simp_all add: displaced_def split: if_splits)
  then have "(k', v', e') \<in> set (entries_of c)" by (metis last_in_set)
  then show ?thesis using level.ent_distinct [OF assms(1)] by simp
qed

lemma put_loss:
  assumes inv: "cache_inv c"
    and w: "live (entries_of c') = (\<lambda>k'. if k' = k then (if 0 < e then Some (v, e) else None)
       else if (\<exists>x. displaced (capacity c) (entries_of c) k = Some (k', x)) then None
       else live (entries_of c) k')"
    and evs: "evs = (case displaced (capacity c) (entries_of c) k of
        Some (k', v', e') \<Rightarrow> if cb \<and> 0 < e' then [(k', v')] else [] | None \<Rightarrow> [])"
    and k': "k' \<noteq> k"
  shows "live (entries_of c') k' = live (entries_of c) k' \<or> live (entries_of c') k' = None \<and>
    (\<forall>v' e'. live (entries_of c) k' = Some (v', e') \<longrightarrow> cb \<longrightarrow> (k', v') \<in> set evs)"
proof (cases "\<exists>x. displaced (capacity c) (entries_of c) k = Some (k', x)")
  case True
  then obtain v' e' where d: "displaced (capacity c) (entries_of c) k = Some (k', v', e')" by auto
  note displaced_live [OF inv d]
  with d k' show ?thesis by (auto simp: w evs live_Some)
next
  case False
  then show ?thesis using k' by (simp add: w)
qed

subsection \<open>delete\<close>

lemma delete_in_spec:
  assumes "bucket_inv b"
  obtains b' where
    "delete_in onEv k b = Some (b', peek b k \<noteq> None, delete_event onEv k (view1 b k) (view2 b k))"
    "bucket_inv b'" "bucket_caps b' = bucket_caps b" "bucket_keys b' = bucket_keys b"
    "view1 b' = (view1 b)(k := None)" "view2 b' = (view2 b)(k := None)"
proof -
  obtain c0 c1 where b: "b = (c0, c1)" by (cases b)
  have i: "cache_inv c0" "cache_inv c1" using assms by (simp_all add: bucket_inv_def b)
  obtain c0' n1 s1 e1 where D0: "del c0 k = Some (c0', n1, s1, e1)" "cache_inv c0'" "capacity c0' = capacity c0"
    "live (entries_of c0') = (live (entries_of c0))(k := None)"
    "keys_of (entries_of c0') = keys_of (entries_of c0)"
    and n1: "map_option entry_of n1 = map_option (\<lambda>(v, e). (k, v, 0)) (live (entries_of c0) k)"
    and s1: "s1 = (if live (entries_of c0) k = None then 0 else 1)"
    and e1: "e1 = (case live (entries_of c0) k of Some (v, e) \<Rightarrow> e | None \<Rightarrow> 0)"
    by (rule level.del_view [OF i(1), of k])
  obtain c1' n2 s2 e2 where D1: "del c1 k = Some (c1', n2, s2, e2)" "cache_inv c1'" "capacity c1' = capacity c1"
    "live (entries_of c1') = (live (entries_of c1))(k := None)"
    "keys_of (entries_of c1') = keys_of (entries_of c1)"
    and n2: "map_option entry_of n2 = map_option (\<lambda>(v, e). (k, v, 0)) (live (entries_of c1) k)"
    and s2: "s2 = (if live (entries_of c1) k = None then 0 else 1)"
    and e2: "e2 = (case live (entries_of c1) k of Some (v, e) \<Rightarrow> e | None \<Rightarrow> 0)"
    by (rule level.del_view [OF i(2), of k])
  have step: "delete_in onEv k b = Some ((c0', c1'), 0 < s1 \<or> 0 < s2,
      if (0 < s1 \<or> 0 < s2) \<and> onEv then
        (if n1 \<noteq> None \<and> nd_v (the n1) \<noteq> None then [(k, nd_v (the n1))]
         else if n2 \<noteq> None \<and> nd_v (the n2) \<noteq> None then [(k, nd_v (the n2))] else [])
      else [])"
    by (simp add: b delete_in_def D0(1) D1(1))
  have "0 < s1 \<or> 0 < s2 \<longleftrightarrow> peek b k \<noteq> None"
    by (simp add: s1 s2 peek_def view1_def view2_def b split: option.split)
  moreover have "(if (0 < s1 \<or> 0 < s2) \<and> onEv then
        (if n1 \<noteq> None \<and> nd_v (the n1) \<noteq> None then [(k, nd_v (the n1))]
         else if n2 \<noteq> None \<and> nd_v (the n2) \<noteq> None then [(k, nd_v (the n2))] else [])
      else []) = delete_event onEv k (view1 b k) (view2 b k)"
    using deleted_node [OF n1] deleted_node [OF n2]
    by (elim disjE exE conjE) (simp_all add: s1 s2 delete_event_def view1_def view2_def b split: option.split)
  ultimately have "delete_in onEv k b =
      Some ((c0', c1'), peek b k \<noteq> None, delete_event onEv k (view1 b k) (view2 b k))"
    using step by simp
  then show thesis
    by (rule that) (use D0 D1 in \<open>simp_all add: b bucket_defs\<close>)
qed

subsection \<open>Get\<close>

text \<open>What \<open>Get\<close> answers, from the views of the two levels and the two clock readings.\<close>

definition get_answer :: "('v option \<times> int) option \<Rightarrow> ('v option \<times> int) option \<Rightarrow> int \<Rightarrow> int \<Rightarrow>
    'v option \<times> bool" where
  "get_answer x1 x2 now now' =
     (case x1 of
        Some (v, e) \<Rightarrow> if e \<le> now then (None, False) else (v, True)
      | None \<Rightarrow>
          (case x2 of
             Some (v, e) \<Rightarrow> if e \<le> now' \<or> e \<le> now then (None, False) else (v, True)
           | None \<Rightarrow> (None, False)))"

text \<open>A live level-1 entry: expired, it is removed from both levels; else it moves to level 2.\<close>

lemma get_in_level1:
  assumes inv: "bucket_inv b" and x1: "view1 b k = Some (v, e)"
  obtains b' evs where "get_in onEv k now now' b = Some (b', get_answer (Some (v, e)) x2 now now', evs)"
    "bucket_inv b'" "bucket_caps b' = bucket_caps b" "bucket_keys b' \<subseteq> insert k (bucket_keys b)"
    "view1 b' = (view1 b)(k := None)"
    "if e \<le> now then view2 b' = (view2 b)(k := None) \<and> evs = delete_event onEv k None (view2 b k)
     else view2 b' k = Some (v, e) \<and>
       (\<forall>k'. k' \<noteq> k \<longrightarrow> view2 b' k' = view2 b k' \<or> view2 b' k' = None \<and>
         (\<forall>v' e'. view2 b k' = Some (v', e') \<longrightarrow> onEv \<longrightarrow> (k', v') \<in> set evs))"
proof -
  obtain c0 c1 where b: "b = (c0, c1)" by (cases b)
  have i: "cache_inv c0" "cache_inv c1" using inv by (simp_all add: bucket_inv_def b)
  have l0: "live (entries_of c0) k = Some (v, e)" and e: "0 < e"
    using x1 by (simp_all add: view1_def b live_Some)
  obtain c0' n1 s1 e1 where D0: "del c0 k = Some (c0', n1, s1, e1)" "cache_inv c0'" "capacity c0' = capacity c0"
    "live (entries_of c0') = (live (entries_of c0))(k := None)"
    "keys_of (entries_of c0') = keys_of (entries_of c0)"
    and n1: "map_option entry_of n1 = map_option (\<lambda>(v, e). (k, v, 0)) (live (entries_of c0) k)"
    and s1: "s1 = (if live (entries_of c0) k = None then 0 else 1)"
    and e1: "e1 = (case live (entries_of c0) k of Some (v, e) \<Rightarrow> e | None \<Rightarrow> 0)"
    by (rule level.del_view [OF i(1), of k])
  obtain nd where nd: "n1 = Some nd" "nd_v nd = v" using n1 l0 by (auto simp: entry_of_def)
  have D: "s1 = 1" "e1 = e" using s1 e1 l0 by simp_all
  show thesis
  proof (cases "e \<le> now")
    case True
    let ?b = "(c0', c1)"
    have bi: "bucket_inv ?b" using D0 i by (simp add: bucket_inv_def)
    obtain b' where B: "delete_in onEv k ?b =
        Some (b', peek ?b k \<noteq> None, delete_event onEv k (view1 ?b k) (view2 ?b k))"
      "bucket_inv b'" "bucket_caps b' = bucket_caps ?b" "bucket_keys b' = bucket_keys ?b"
      "view1 b' = (view1 ?b)(k := None)" "view2 b' = (view2 ?b)(k := None)"
      by (rule delete_in_spec [OF bi])
    have v: "view1 ?b = (view1 b)(k := None)" "view2 ?b = view2 b" "bucket_keys ?b = bucket_keys b"
      "bucket_caps ?b = bucket_caps b"
      using D0 by (simp_all add: bucket_defs b)
    have "get_in onEv k now now' b =
        Some (b', get_answer (Some (v, e)) x2 now now', delete_event onEv k None (view2 b k))"
      using True B(1) e v by (simp add: b get_in_def D0(1) D get_answer_def)
    then show thesis by (rule that) (use True B v in \<open>auto\<close>)
  next
    case False
    obtain c1' r evs where P: "put c1 k v e onEv = Some (c1', r, evs)" "cache_inv c1'" "capacity c1' = capacity c1"
      "live (entries_of c1') = (\<lambda>k'. if k' = k then (if 0 < e then Some (v, e) else None)
         else if (\<exists>x. displaced (capacity c1) (entries_of c1) k = Some (k', x)) then None
         else live (entries_of c1) k')"
      "keys_of (entries_of c1') \<subseteq> insert k (keys_of (entries_of c1))"
      "evs = (case displaced (capacity c1) (entries_of c1) k of
          Some (k', v', e') \<Rightarrow> if onEv \<and> 0 < e' then [(k', v')] else [] | None \<Rightarrow> [])"
      by (rule level.put_view [OF i(2), of k v e onEv])
    have v: "view1 (c0', c1') = (view1 b)(k := None)" "bucket_caps (c0', c1') = bucket_caps b"
      "bucket_keys (c0', c1') \<subseteq> insert k (bucket_keys b)" "bucket_inv (c0', c1')"
      using D0 P by (auto simp: bucket_defs b)
    have "get_in onEv k now now' b = Some ((c0', c1'), get_answer (Some (v, e)) x2 now now', evs)"
      using False P(1) nd by (simp add: b get_in_def D0(1) D get_answer_def)
    then show thesis
    proof (rule that [OF _ v(4,2,3,1)])
      show "if e \<le> now then view2 (c0', c1') = (view2 b)(k := None) \<and> evs = delete_event onEv k None (view2 b k)
        else view2 (c0', c1') k = Some (v, e) \<and>
          (\<forall>k'. k' \<noteq> k \<longrightarrow> view2 (c0', c1') k' = view2 b k' \<or> view2 (c0', c1') k' = None \<and>
            (\<forall>v' e'. view2 b k' = Some (v', e') \<longrightarrow> onEv \<longrightarrow> (k', v') \<in> set evs))"
        using False e put_loss [OF i(2) P(4,6)] P(4) by (simp add: view2_def b)
    qed
  qed
qed

text \<open>No live level-1 entry: level 2 answers. Its entry is deleted only when the first clock
  reading is past the expiry and the second one is not.\<close>

lemma get_in_level2:
  assumes inv: "bucket_inv b" and x1: "view1 b k = None"
  obtains b' evs where "get_in onEv k now now' b = Some (b', get_answer None (view2 b k) now now', evs)"
    "bucket_inv b'" "bucket_caps b' = bucket_caps b" "bucket_keys b' = bucket_keys b"
    "view1 b' = view1 b" "view2 b' = view2 b \<or>
      view2 b' = (view2 b)(k := None) \<and> (\<exists>v e. view2 b k = Some (v, e) \<and> now' < e \<and> e \<le> now)"
proof -
  obtain c0 c1 where b: "b = (c0, c1)" by (cases b)
  have i: "cache_inv c0" "cache_inv c1" using inv by (simp_all add: bucket_inv_def b)
  have l0: "live (entries_of c0) k = None" using x1 by (simp add: view1_def b)
  obtain c0' n1 s1 e1 where D0: "del c0 k = Some (c0', n1, s1, e1)" "cache_inv c0'" "capacity c0' = capacity c0"
    "live (entries_of c0') = (live (entries_of c0))(k := None)"
    "keys_of (entries_of c0') = keys_of (entries_of c0)"
    and n1: "map_option entry_of n1 = map_option (\<lambda>(v, e). (k, v, 0)) (live (entries_of c0) k)"
    and s1: "s1 = (if live (entries_of c0) k = None then 0 else 1)"
    and e1: "e1 = (case live (entries_of c0) k of Some (v, e) \<Rightarrow> e | None \<Rightarrow> 0)"
    by (rule level.del_view [OF i(1), of k])
  obtain c1' n2 s2 where G: "get c1 k = Some (c1', n2, s2)" "cache_inv c1'" "capacity c1' = capacity c1"
    "live (entries_of c1') = live (entries_of c1)" "keys_of (entries_of c1') = keys_of (entries_of c1)"
    and n2: "map_option entry_of n2 = map_option (\<lambda>(v, e). (k, v, e)) (map_of (entries_of c1) k)"
    and s2: "s2 = (if n2 = None then 0 else 1)"
    by (rule level.get_view [OF i(2), of k])
  let ?b = "(c0', c1')"
  have v: "view1 ?b = view1 b" "view2 ?b = view2 b" "bucket_keys ?b = bucket_keys b"
    "bucket_caps ?b = bucket_caps b" "bucket_inv ?b"
    using D0 G l0 by (auto simp: bucket_defs b)
  have s10: "s1 = 0" using s1 l0 by simp
  have live1: "view2 b k = (case n2 of Some nd \<Rightarrow>
      if 0 < nd_expireAt nd then Some (nd_v nd, nd_expireAt nd) else None | None \<Rightarrow> None)"
    using n2 by (cases n2; cases "map_of (entries_of c1) k") (auto simp: view2_def b live_def entry_of_def)
  have G2: "get_level2 k now' (c0', c1) = Some (?b, (case n2 of
      Some nd \<Rightarrow> if nd_expireAt nd \<le> 0 \<or> nd_expireAt nd \<le> now' then (None, 0) else (Some nd, 1)
    | None \<Rightarrow> (None, 0)))"
    using G(1) s2 by (simp add: get_level2_def split: option.split)
  show thesis
  proof (cases "\<exists>nd. n2 = Some nd \<and> now' < nd_expireAt nd \<and> 0 < nd_expireAt nd \<and> nd_expireAt nd \<le> now")
    case True
    then obtain nd where nd: "n2 = Some nd" "now' < nd_expireAt nd" "0 < nd_expireAt nd" "nd_expireAt nd \<le> now"
      by blast
    obtain b' where B: "delete_in onEv k ?b =
        Some (b', peek ?b k \<noteq> None, delete_event onEv k (view1 ?b k) (view2 ?b k))"
      "bucket_inv b'" "bucket_caps b' = bucket_caps ?b" "bucket_keys b' = bucket_keys ?b"
      "view1 b' = (view1 ?b)(k := None)" "view2 b' = (view2 ?b)(k := None)"
      by (rule delete_in_spec [OF v(5)])
    have "get_in onEv k now now' b = Some (b', get_answer None (view2 b k) now now',
        delete_event onEv k (view1 ?b k) (view2 ?b k))"
      using nd B(1) G2 D0(1) s10 live1 by (simp add: b get_in_def get_answer_def)
    then show thesis
      by (rule that) (use B v x1 live1 nd in \<open>auto\<close>)
  next
    case False
    have "get_in onEv k now now' b = Some (?b, get_answer None (view2 b k) now now', [])"
      using False G2 D0(1) s10 live1 by (auto simp: b get_in_def get_answer_def split: option.split)
    then show thesis by (rule that) (use v in auto)
  qed
qed

text \<open>\<open>kept_or_lost b b' evs onEv k\<close>: the view of \<open>k\<close> survives from \<open>b\<close> to \<open>b'\<close>, or it is lost and a
  callback that is set gets told.\<close>

definition kept_or_lost :: "'v bucket \<Rightarrow> 'v bucket \<Rightarrow> 'v callback list \<Rightarrow> bool \<Rightarrow> string \<Rightarrow> bool" where
  "kept_or_lost b b' evs onEv k \<longleftrightarrow>
     peek b' k = peek b k \<or>
     peek b' k = None \<and> (\<forall>v e. peek b k = Some (v, e) \<longrightarrow> onEv \<longrightarrow> (k, v) \<in> set evs)"

lemma kept_same: "peek b' k = peek b k \<Longrightarrow> kept_or_lost b b' evs onEv k"
  by (simp add: kept_or_lost_def)

lemma get_in_spec:
  assumes inv: "bucket_inv b"
  obtains b' evs where "get_in onEv k now now' b = Some (b', get_answer (view1 b k) (view2 b k) now now', evs)"
    "bucket_inv b'" "bucket_caps b' = bucket_caps b" "bucket_keys b' \<subseteq> insert k (bucket_keys b)"
    "peek b' k = peek b k \<or> peek b' k = None \<and> (\<exists>v e. peek b k = Some (v, e) \<and> e \<le> now)"
    "\<forall>k'. k' \<noteq> k \<longrightarrow> kept_or_lost b b' evs onEv k'"
proof (cases "view1 b k")
  case None
  obtain b' evs where B: "get_in onEv k now now' b = Some (b', get_answer None (view2 b k) now now', evs)"
    "bucket_inv b'" "bucket_caps b' = bucket_caps b" "bucket_keys b' = bucket_keys b"
    "view1 b' = view1 b" "view2 b' = view2 b \<or>
      view2 b' = (view2 b)(k := None) \<and> (\<exists>v e. view2 b k = Some (v, e) \<and> now' < e \<and> e \<le> now)"
    by (rule get_in_level2 [OF inv None])
  have "view2 b' k' = view2 b k'" if "k' \<noteq> k" for k' using B(6) that by auto
  then have "kept_or_lost b b' evs onEv k'" if "k' \<noteq> k" for k'
    using B(5) that by (intro kept_same peek_cong) simp_all
  moreover have "peek b' k = peek b k \<or> peek b' k = None \<and> (\<exists>v e. peek b k = Some (v, e) \<and> e \<le> now)"
    using None B(5,6) by (auto simp: peek_def)
  ultimately show thesis using that [of b' evs] None B(1-4) by (simp add: subset_insertI)
next
  case (Some x)
  obtain v e where x: "x = (v, e)" by (cases x)
  obtain b' evs where B: "get_in onEv k now now' b = Some (b', get_answer (Some (v, e)) (view2 b k) now now', evs)"
    "bucket_inv b'" "bucket_caps b' = bucket_caps b" "bucket_keys b' \<subseteq> insert k (bucket_keys b)"
    "view1 b' = (view1 b)(k := None)"
    "if e \<le> now then view2 b' = (view2 b)(k := None) \<and> evs = delete_event onEv k None (view2 b k)
     else view2 b' k = Some (v, e) \<and>
       (\<forall>k'. k' \<noteq> k \<longrightarrow> view2 b' k' = view2 b k' \<or> view2 b' k' = None \<and>
         (\<forall>v' e'. view2 b k' = Some (v', e') \<longrightarrow> onEv \<longrightarrow> (k', v') \<in> set evs))"
    by (rule get_in_level1 [OF inv, of k v e onEv now now' "view2 b k"]) (use Some x in auto)
  show thesis
  proof (cases "e \<le> now")
    case True
    then have "view2 b' = (view2 b)(k := None)" using B(6) by simp
    with B(5) Some x True have "peek b' k = None" "peek b k = Some (v, e)"
      "\<And>k'. k' \<noteq> k \<Longrightarrow> peek b' k' = peek b k'"
      by (simp_all add: peek_def split: option.split)
    then show thesis using that [of b' evs] Some x B True by (simp add: kept_same)
  next
    case False
    then have W: "view2 b' k = Some (v, e)"
      "\<And>k'. k' \<noteq> k \<Longrightarrow> view2 b' k' = view2 b k' \<or> view2 b' k' = None \<and>
         (\<forall>v' e'. view2 b k' = Some (v', e') \<longrightarrow> onEv \<longrightarrow> (k', v') \<in> set evs)"
      using B(6) by auto
    have "kept_or_lost b b' evs onEv k'" if "k' \<noteq> k" for k'
      using W(2) [OF that] B(5) that by (cases "view1 b k'") (auto simp: peek_def kept_or_lost_def)
    moreover have "peek b' k = peek b k" using Some x B(5) W(1) by (simp add: peek_def)
    ultimately show thesis using that [of b' evs] Some x B by simp
  qed
qed

subsection \<open>Set\<close>

lemma overwritten_spec:
  assumes "cache_inv c"
  obtains x where "overwritten c k = Some x"
    "map_option entry_of x = (case displaced (capacity c) (entries_of c) k of
       Some (k', v', e') \<Rightarrow> if 0 < e' then Some (k', v', e') else None | None \<Rightarrow> None)"
proof -
  define xs where "xs = order c"
  have rel: "cache_rel c xs" using assms by (simp add: xs_def cache_inv_def)
  have len: "length (entries_of c) = length xs" by (simp add: cache_rel_entries [OF rel])
  show thesis
  proof (cases "map_of (c_hmap c) k = None \<and> length xs = capacity c")
    case False
    then have "displaced (capacity c) (entries_of c) k = None"
      using hmap_None [OF rel, of k] len by (auto simp: displaced_def)
    then show thesis
      using that [of None] False by (auto simp: overwritten_def full_iff [OF rel] simp del: map_of_eq_None_iff)
  next
    case True
    have ne: "xs \<noteq> []" using True cache_relD(7) [OF rel] by (auto simp: capacity_def)
    then have ti: "lk (c_dlnk c) (0, Prev) = last xs"
      using seg_last [OF cache_relD(1) [OF rel]] by simp
    have i: "last xs \<in> set xs" using ne by simp
    have "displaced (capacity c) (entries_of c) k = Some (entry_of (node_at c (last xs)))"
      using True hmap_None [OF rel, of k] len ne
      by (auto simp: displaced_def cache_rel_entries [OF rel] last_map simp del: map_of_eq_None_iff)
    then show thesis
      using that [of "if 0 < nd_expireAt (node_at c (last xs)) then Some (node_at c (last xs)) else None"]
        True ti cache_rel_index(1,2) [OF rel i] cache_rel_links [OF rel, of 0]
      by (simp add: overwritten_def full_iff [OF rel] go_simps node_at_def [symmetric] entry_of_def
          word_neq_0_conv del: map_of_eq_None_iff)
  qed
qed

lemma set_in_spec:
  assumes inv: "bucket_inv b"
  obtains b' evs where "set_in onEv k v e b = Some (b', evs)"
    "bucket_inv b'" "bucket_caps b' = bucket_caps b" "bucket_keys b' \<subseteq> insert k (bucket_keys b)"
    "view1 b' k = (if 0 < e then Some (v, e) else None)"
    "view2 b' k = view2 b k \<or> view2 b' k = None"
    "\<forall>k'. k' \<noteq> k \<longrightarrow> kept_or_lost b b' evs onEv k'"
proof -
  obtain c0 c1 where b: "b = (c0, c1)" by (cases b)
  have i: "cache_inv c0" "cache_inv c1" using inv by (simp_all add: bucket_inv_def b)
  let ?d = "displaced (capacity c0) (entries_of c0) k"
  obtain x where x: "overwritten c0 k = Some x"
    "map_option entry_of x = (case ?d of
       Some (k', v', e') \<Rightarrow> if 0 < e' then Some (k', v', e') else None | None \<Rightarrow> None)"
    by (rule overwritten_spec [OF i(1), of k])
  obtain c0' r evs where P: "put c0 k v e False = Some (c0', r, evs)" "cache_inv c0'" "capacity c0' = capacity c0"
    "live (entries_of c0') = (\<lambda>k'. if k' = k then (if 0 < e then Some (v, e) else None)
       else if (\<exists>x. ?d = Some (k', x)) then None else live (entries_of c0) k')"
    "keys_of (entries_of c0') \<subseteq> insert k (keys_of (entries_of c0))"
    "evs = (case ?d of Some (k', v', e') \<Rightarrow> if False \<and> 0 < e' then [(k', v')] else [] | None \<Rightarrow> [])"
    by (rule level.put_view [OF i(1), of k v e False])
  show thesis
  proof (cases x)
    case None
    let ?b = "(c0', c1)"
    have v: "bucket_inv ?b" "bucket_caps ?b = bucket_caps b" "bucket_keys ?b \<subseteq> insert k (bucket_keys b)"
      "view1 ?b k = (if 0 < e then Some (v, e) else None)" "view2 ?b = view2 b"
      using P i by (auto simp: bucket_defs b)
    have "view1 ?b k' = view1 b k'" if "k' \<noteq> k" for k'
    proof (cases "\<exists>y. ?d = Some (k', y)")
      case True
      then obtain v' e' where d: "?d = Some (k', v', e')" by auto
      then have "\<not> 0 < e'" using x None by (auto split: if_splits)
      then have "live (entries_of c0) k' = None" using displaced_live [OF i(1) d] by (simp add: live_def)
      then show ?thesis using True that by (simp add: view1_def b P(4))
    qed (simp add: view1_def b P(4) that)
    then have "kept_or_lost b ?b [] onEv k'" if "k' \<noteq> k" for k'
      using v(5) that by (intro kept_same peek_cong) simp_all
    moreover have "set_in onEv k v e b = Some (?b, [])" using x(1) P(1) None by (simp add: b set_in_def)
    ultimately show thesis using that [of ?b "[]"] v by simp
  next
    case (Some nd)
    then obtain kd vd ed where d: "?d = Some (kd, vd, ed)" "0 < ed" "nd_k nd = kd" "nd_v nd = vd" "nd_expireAt nd = ed"
      using x(2) by (auto simp: entry_of_def split: option.splits if_splits)
    have kd: "kd \<noteq> k" "map_of (entries_of c0) kd = Some (vd, ed)"
      using d(1) displaced_live [OF i(1) d(1)] map_of_Some_key [of "entries_of c0" kd]
      by (auto simp: displaced_def split: if_splits)
    obtain c1' r' evs' where Q: "put c1 kd vd ed onEv = Some (c1', r', evs')" "cache_inv c1'" "capacity c1' = capacity c1"
      "live (entries_of c1') = (\<lambda>k'. if k' = kd then (if 0 < ed then Some (vd, ed) else None)
         else if (\<exists>x. displaced (capacity c1) (entries_of c1) kd = Some (k', x)) then None
         else live (entries_of c1) k')"
      "keys_of (entries_of c1') \<subseteq> insert kd (keys_of (entries_of c1))"
      "evs' = (case displaced (capacity c1) (entries_of c1) kd of
          Some (k', v', e') \<Rightarrow> if onEv \<and> 0 < e' then [(k', v')] else [] | None \<Rightarrow> [])"
      by (rule level.put_view [OF i(2), of kd vd ed onEv])
    let ?b = "(c0', c1')"
    have "kd \<in> keys_of (entries_of c0)" using kd(2) by (simp add: keys_of_def map_of_Some_key)
    then have v: "bucket_inv ?b" "bucket_caps ?b = bucket_caps b" "bucket_keys ?b \<subseteq> insert k (bucket_keys b)"
      "view1 ?b k = (if 0 < e then Some (v, e) else None)"
      using P Q by (auto simp: bucket_defs b)
    have loss: "view2 ?b k' = view2 b k' \<or> view2 ?b k' = None \<and>
        (\<forall>v' e'. view2 b k' = Some (v', e') \<longrightarrow> onEv \<longrightarrow> (k', v') \<in> set evs')" if "k' \<noteq> kd" for k'
      using put_loss [OF i(2) Q(4,6) that] by (simp add: view2_def b)
    have "kept_or_lost b ?b evs' onEv k'" if "k' \<noteq> k" for k'
    proof (cases "k' = kd")
      case True
      have "view1 b k' = Some (vd, ed)" "view1 ?b k' = None" "view2 ?b k' = Some (vd, ed)"
        using True kd d by (simp_all add: view1_def view2_def b P(4) Q(4) live_def)
      then show ?thesis by (intro kept_same) (simp add: peek_def)
    next
      case False
      then have "view1 ?b k' = view1 b k'" using d(1) that by (simp add: view1_def b P(4))
      then show ?thesis using loss [OF False]
        by (cases "view1 b k'") (auto simp: kept_or_lost_def peek_def)
    qed
    moreover have "set_in onEv k v e b = Some (?b, evs')"
      using x(1) P(1) Q(1) Some d(3-5) by (simp add: b set_in_def)
    moreover have "view2 ?b k = view2 b k \<or> view2 ?b k = None"
      using loss [OF kd(1) [symmetric]] by auto
    ultimately show thesis using that [of ?b evs'] v by blast
  qed
qed

subsection \<open>Deleting a list of keys, one tick of the cleanup\<close>

lemma delete_each_spec:
  assumes "bucket_inv b"
  obtains b' evs where "delete_each onEv ks b = Some (b', evs)"
    "bucket_inv b'" "bucket_caps b' = bucket_caps b" "bucket_keys b' = bucket_keys b"
    "view1 b' = (\<lambda>k. if k \<in> set ks then None else view1 b k)"
    "view2 b' = (\<lambda>k. if k \<in> set ks then None else view2 b k)"
  using assms
proof (induction ks arbitrary: b thesis)
  case Nil
  then show ?case by simp
next
  case (Cons k ks)
  obtain b1 where B: "delete_in onEv k b = Some (b1, peek b k \<noteq> None, delete_event onEv k (view1 b k) (view2 b k))"
    "bucket_inv b1" "bucket_caps b1 = bucket_caps b" "bucket_keys b1 = bucket_keys b"
    "view1 b1 = (view1 b)(k := None)" "view2 b1 = (view2 b)(k := None)"
    by (rule delete_in_spec [OF Cons.prems(2)])
  obtain b' evs where D: "delete_each onEv ks b1 = Some (b', evs)"
    "bucket_inv b'" "bucket_caps b' = bucket_caps b1" "bucket_keys b' = bucket_keys b1"
    "view1 b' = (\<lambda>k. if k \<in> set ks then None else view1 b1 k)"
    "view2 b' = (\<lambda>k. if k \<in> set ks then None else view2 b1 k)"
    by (rule Cons.IH [OF _ B(2)])
  have "view1 b' = (\<lambda>k'. if k' \<in> set (k # ks) then None else view1 b k')"
    and "view2 b' = (\<lambda>k'. if k' \<in> set (k # ks) then None else view2 b k')"
    by (rule ext, simp add: B(5,6) D(5,6))+
  then show ?case using Cons.prems(1) B(1) D by (simp add: B(3,4))
qed

lemma set_fold_collect:
  assumes "\<And>s k v e. set (fst (w s k v e)) = (if P e then insert k (set s) else set s)"
  shows "set (fold (\<lambda>(k, v, e) s. fst (w s k v e)) xs ks) = set ks \<union> {k. \<exists>v e. (k, v, e) \<in> set xs \<and> P e}"
proof (induction xs arbitrary: ks)
  case (Cons x xs)
  then show ?case by (cases x) (auto simp: assms split: if_splits)
qed simp

lemma walk_collect:
  assumes inv: "cache_inv c"
    and w: "\<And>s k v e. set (fst (w s k v e)) = (if P e then insert k (set s) else set s)"
    and go: "\<And>s k v e. snd (w s k v e)"
  obtains ks' where "walk c w ks = Some ks'"
    "set ks' = set ks \<union> {k. \<exists>v e. live (entries_of c) k = Some (v, e) \<and> P e}"
proof
  show "walk c w ks = Some (lru_walk (entries_of c) w ks)" by (rule walk_entries [OF inv])
  show "set (lru_walk (entries_of c) w ks) =
      set ks \<union> {k. \<exists>v e. live (entries_of c) k = Some (v, e) \<and> P e}"
    using set_fold_collect [of w P] w
    by (simp add: lru_walk_fold [of w, OF go] live_in_list [OF level.ent_distinct [OF inv]])
qed

definition expired :: "int \<Rightarrow> ('v option \<times> int) option \<Rightarrow> bool" where
  "expired now x = (case x of Some (v, e) \<Rightarrow> e \<le> now | None \<Rightarrow> False)"

lemma expired_iff: "expired now x \<longleftrightarrow> (\<exists>v e. x = Some (v, e) \<and> e \<le> now)"
  by (auto simp: expired_def split: option.split)

lemma live_pos_le: "(\<exists>v e. live xs k = Some (v, e) \<and> 0 < e \<and> e \<le> now) \<longleftrightarrow> expired now (live xs k)"
  by (auto simp: expired_iff live_Some)

text \<open>A tick removes from both levels every key that is expired in one of them.\<close>

lemma cleanup_in_spec:
  assumes inv: "bucket_inv b"
  obtains b' evs where "cleanup_in onEv now b = Some (b', evs)"
    "bucket_inv b'" "bucket_caps b' = bucket_caps b" "bucket_keys b' = bucket_keys b"
    "view1 b' = (\<lambda>k. if expired now (view1 b k) \<or> expired now (view2 b k) then None else view1 b k)"
    "view2 b' = (\<lambda>k. if expired now (view1 b k) \<or> expired now (view2 b k) then None else view2 b k)"
proof -
  obtain c0 c1 where b: "b = (c0, c1)" by (cases b)
  have i: "cache_inv c0" "cache_inv c1" using inv by (simp_all add: bucket_inv_def b)
  obtain ks where K: "walk c0 (expired_all now) [] = Some ks"
    "set ks = set [] \<union> {k. \<exists>v e. live (entries_of c0) k = Some (v, e) \<and> 0 < e \<and> e \<le> now}"
    by (rule walk_collect [OF i(1), of "expired_all now" "\<lambda>e. 0 < e \<and> e \<le> now" "[]"])
       (auto simp: expired_all_def)
  obtain ks' where K': "walk c1 (expired_new now) ks = Some ks'"
    "set ks' = set ks \<union> {k. \<exists>v e. live (entries_of c1) k = Some (v, e) \<and> 0 < e \<and> e \<le> now}"
    by (rule walk_collect [OF i(2), of "expired_new now" "\<lambda>e. 0 < e \<and> e \<le> now" ks])
       (auto simp: expired_new_def)
  have ks': "k \<in> set ks' \<longleftrightarrow> expired now (view1 b k) \<or> expired now (view2 b k)" for k
    using K K' by (simp add: view1_def view2_def b live_pos_le)
  obtain b' evs where D: "delete_each onEv ks' b = Some (b', evs)"
    "bucket_inv b'" "bucket_caps b' = bucket_caps b" "bucket_keys b' = bucket_keys b"
    "view1 b' = (\<lambda>k. if k \<in> set ks' then None else view1 b k)"
    "view2 b' = (\<lambda>k. if k \<in> set ks' then None else view2 b k)"
    by (rule delete_each_spec [OF inv])
  show thesis
    by (rule that [of b' evs]) (use D K(1) K'(1) ks' in \<open>simp_all add: cleanup_in_def b\<close>)
qed

end
