(* ===== verification/Lru2_Mask.thy ===== *)
theory Lru2_Mask
  imports Lru2_Store
begin

text \<open>
  The bucket mask: \<open>maskOfNextPowOf2\<close> returns the least \<open>2 ^ n - 1\<close> whose \<open>2 ^ n\<close> is at least
  its argument, and \<open>hashBKRD key & mask\<close> is a valid bucket number.
\<close>

lemma unat_mask_u16: "unat (mask n :: u16) = 2 ^ min 16 n - 1"
proof -
  have "unat (mask n :: u16) = mask (min 16 n)"
    by (rule bit_eqI) (auto simp: bit_unsigned_iff Bit_Operations.bit_mask_iff possible_bit_def
        mask_eq_exp_minus_1 [symmetric] Word.bit_mask_iff)
  then show ?thesis by (simp add: mask_eq_exp_minus_1)
qed

subsection \<open>The top bit\<close>

lemma top_bit:
  assumes "0 < (m :: nat)"
  obtains n where "2 ^ n \<le> m" "m < 2 ^ Suc n"
proof -
  have "(2 :: nat) \<le> 2" by simp
  from ex_power_ivl1 [OF this, of m] assms obtain n where "2 ^ n \<le> m" "m < 2 ^ (n + 1)" by auto
  then show thesis using that by simp
qed

lemma bit_above:
  assumes "unat (x :: u16) < 2 ^ Suc n" "n < j"
  shows "\<not> bit x j"
proof -
  have "(2 :: nat) ^ Suc n \<le> 2 ^ j" using assms(2) by (intro power_increasing) auto
  then have "unat x div 2 ^ j = 0" using assms(1) by simp
  then have "\<not> bit (unat x) j" by (simp add: bit_iff_odd)
  then show ?thesis by (simp add: bit_unsigned_iff possible_bit_def)
qed

lemma bit_top:
  assumes "2 ^ n \<le> unat (x :: u16)" "unat x < 2 ^ Suc n"
  shows "bit x n"
proof -
  have "unat x div 2 ^ n = 1" using assms by (intro div_nat_eqI) auto
  then have "bit (unat x) n" by (simp add: bit_iff_odd)
  then show ?thesis by (simp add: bit_unsigned_iff possible_bit_def)
qed

lemma exp_lt_16:
  assumes "2 ^ n \<le> unat (x :: u16)"
  shows "n < 16"
proof -
  have "(2 :: nat) ^ n < 2 ^ 16" using assms unat_u16_bound [of x] by simp
  then show ?thesis by (rule power_less_imp_less_exp [rotated]) simp
qed

subsection \<open>The two branches of maskOfNextPowOf2\<close>

lemma pow2_test:
  assumes "0 < (x :: u16)" "x AND (x - 1) = 0"
  obtains n where "n < 16" "unat x = 2 ^ n"
proof -
  have u: "0 < unat x" using assms(1) by (simp add: word_less_nat_alt)
  obtain n where n: "2 ^ n \<le> unat x" "unat x < 2 ^ Suc n" by (rule top_bit [OF u])
  have n16: "n < 16" using n(1) by (rule exp_lt_16)
  have "unat x = 2 ^ n"
  proof (rule ccontr)
    assume "unat x \<noteq> 2 ^ n"
    then have "2 ^ n \<le> unat (x - 1)" "unat (x - 1) < 2 ^ Suc n"
      using n u by (auto simp: unat_pred unat_gt_0)
    then have "bit (x - 1) n" by (rule bit_top)
    moreover have "bit x n" by (rule bit_top [OF n])
    ultimately have "bit (x AND (x - 1)) n" by (simp add: bit_and_iff)
    then show False using assms(2) by simp
  qed
  then show thesis using that n16 by blast
qed

definition smear :: "u16 \<Rightarrow> u16" where
  "smear cap =
     (let cap = cap OR drop_bit 1 cap;
          cap = cap OR drop_bit 2 cap;
          cap = cap OR drop_bit 4 cap
      in cap OR drop_bit 8 cap)"

lemma bit_smear: "bit (smear x) i \<longleftrightarrow> (\<exists>d<16. bit x (d + i))"
  by (simp add: smear_def Let_def bit_or_iff bit_drop_bit_eq numeral_eq_Suc Ex_less_Suc) blast

lemma smear_mask:
  assumes "2 ^ n \<le> unat x" "unat x < 2 ^ Suc n"
  shows "smear x = mask (Suc n)"
proof (rule bit_word_eqI)
  fix i :: nat
  assume i: "i < LENGTH(16)"
  show "bit (smear x) i \<longleftrightarrow> bit (mask (Suc n) :: u16) i"
  proof (cases "i \<le> n")
    case True
    have "bit x ((n - i) + i)" using True bit_top [OF assms] by simp
    moreover have "n < 16" using bit_top [OF assms] bit_imp_le_length by fastforce
    then have "n - i < 16" by simp
    ultimately have "bit (smear x) i" unfolding bit_smear by blast
    then show ?thesis using True i by (simp add: Word.bit_mask_iff)
  next
    case False
    then have "\<not> bit (smear x) i" using bit_above [OF assms(2)] by (auto simp: bit_smear)
    then show ?thesis using False by (simp add: Word.bit_mask_iff)
  qed
qed

lemma mask_smear: "maskOfNextPowOf2 x = (if 0 < x \<and> x AND (x - 1) = 0 then x - 1 else smear x)"
  by (simp add: maskOfNextPowOf2_def smear_def Let_def)

lemma mask_least:
  assumes "0 < x"
  obtains n where "n \<le> 16" "unat (maskOfNextPowOf2 x) = 2 ^ n - 1" "unat x \<le> 2 ^ n"
    "\<forall>j. unat x \<le> 2 ^ j \<longrightarrow> n \<le> j"
proof (cases "x AND (x - 1) = 0")
  case True
  obtain n where n: "n < 16" "unat x = 2 ^ n" by (rule pow2_test [OF assms True])
  have "unat (maskOfNextPowOf2 x) = 2 ^ n - 1"
    using True assms n(2) by (simp add: mask_smear unat_pred word_neq_0_conv)
  then show thesis
    by (rule that [rotated]) (use n power_le_imp_le_exp [of "2 :: nat" n] in auto)
next
  case False
  have u: "0 < unat x" using assms by (simp add: word_less_nat_alt)
  obtain n where n: "2 ^ n \<le> unat x" "unat x < 2 ^ Suc n" by (rule top_bit [OF u])
  have n16: "n < 16" using n(1) by (rule exp_lt_16)
  have ne: "unat x \<noteq> 2 ^ n"
  proof
    assume "unat x = 2 ^ n"
    then have "unat (x - 1) = 2 ^ n - 1" using assms by (simp add: unat_pred word_neq_0_conv)
    then have x1: "x - 1 = mask n"
      using n16 by (simp add: word_unat_eq_iff unat_mask_u16)
    have "\<not> bit (x AND (x - 1)) i" for i
    proof (cases "i < n")
      case True
      have "unat x div 2 ^ i = 2 ^ (n - i)" using \<open>unat x = 2 ^ n\<close> True by (simp add: power_diff)
      then have "\<not> bit (unat x) i" using True by (simp add: bit_iff_odd)
      then show ?thesis by (simp add: bit_and_iff bit_unsigned_iff possible_bit_def)
    next
      case False
      then show ?thesis by (simp add: x1 bit_and_iff Word.bit_mask_iff)
    qed
    then have "x AND (x - 1) = 0" by (intro bit_word_eqI) simp
    with False show False by blast
  qed
  have "unat (maskOfNextPowOf2 x) = 2 ^ Suc n - 1"
    using False n16 min_absorb2 [of "Suc n" 16] by (simp add: mask_smear smear_mask [OF n] unat_mask_u16)
  then show thesis
  proof (rule that [rotated])
    have "Suc n \<le> j" if "unat x \<le> 2 ^ j" for j
    proof -
      have "(2 :: nat) ^ n < 2 ^ j" using that n(1) ne by linarith
      then show ?thesis by (simp add: Suc_leI)
    qed
    then show "\<forall>j. unat x \<le> 2 ^ j \<longrightarrow> Suc n \<le> j" by blast
  qed (use n n16 in auto)
qed

subsection \<open>Bucket numbers\<close>

lemma sint_small: "uint (x :: i32) < 2 ^ 31 \<Longrightarrow> sint x = uint x"
  using order_trans [of "- (2 ^ 31)" 0 "uint x"] signed_take_bit_int_eq_self [of 31 "uint x"]
  by (simp add: sint_uint)

lemma bucket_index_bound:
  assumes "unat (st_mask s) < 65536"
  shows "unat (bucket_index s key) \<le> unat (st_mask s)"
    and "index_i32 (bucket_index s key) = Some (unat (bucket_index s key))"
proof -
  show le: "unat (bucket_index s key) \<le> unat (st_mask s)"
    using word_and_le1 [of "hashBKRD key" "st_mask s"]
    by (simp add: bucket_index_def word_le_nat_alt)
  have "unat (bucket_index s key) < 65536" using le assms by linarith
  then have "int (unat (bucket_index s key)) < int 65536" by (simp only: of_nat_less_iff)
  then have "sint (bucket_index s key) = int (unat (bucket_index s key))"
    by (simp add: sint_small)
  then show "index_i32 (bucket_index s key) = Some (unat (bucket_index s key))"
    by (simp add: index_i32_def)
qed

end
