(* ===== verification/Lru2_Correct.thy ===== *)
theory Lru2_Correct
  imports Lru2_Bucket Lru2_Mask
begin

text \<open>
  The store as a whole: its invariant, what a reader sees (\<open>sview\<close>), and the effect of every
  operation on that view, as \<open>obtains\<close> lemmas that also say that the operation does not panic.
\<close>

subsection \<open>Invariant and view\<close>

definition bidx :: "'v lru2 \<Rightarrow> string \<Rightarrow> nat" where
  "bidx s k = unat (bucket_index s k)"

definition store_inv :: "'v lru2 \<Rightarrow> bool" where
  "store_inv s \<longleftrightarrow> uint (st_mask s) < 65536 \<and> length (caches s) = Suc (unat (st_mask s)) \<and>
     (\<forall>i<length (caches s). bucket_inv (caches s ! i) \<and>
        (\<forall>k\<in>bucket_keys (caches s ! i). bidx s k = i))"

definition bucket_of :: "'v lru2 \<Rightarrow> string \<Rightarrow> 'v bucket" where
  "bucket_of s k = caches s ! bidx s k"

definition sview :: "'v lru2 \<Rightarrow> string \<Rightarrow> ('v option \<times> int) option" where
  "sview s k = peek (bucket_of s k) k"

definition store_caps :: "'v lru2 \<Rightarrow> (nat \<times> nat) list" where
  "store_caps s = map bucket_caps (caches s)"

lemma store_inv_index:
  assumes "store_inv s"
  shows "bidx s k < length (caches s)" "index_i32 (bucket_index s k) = Some (bidx s k)"
proof -
  have "int (unat (st_mask s)) < int 65536" using assms by (simp add: store_inv_def)
  then have "unat (st_mask s) < 65536" by (simp only: of_nat_less_iff)
  from bucket_index_bound [OF this, of k] assms
  show "bidx s k < length (caches s)" "index_i32 (bucket_index s k) = Some (bidx s k)"
    by (simp_all add: bidx_def store_inv_def)
qed

lemma store_inv_bucket: "store_inv s \<Longrightarrow> bucket_inv (bucket_of s k)"
  using store_inv_index(1) [of s k] by (simp add: store_inv_def bucket_of_def)

lemma peek_elsewhere:
  assumes "store_inv s" "i < length (caches s)" "bidx s k \<noteq> i"
  shows "view1 (caches s ! i) k = None" "view2 (caches s ! i) k = None" "peek (caches s ! i) k = None"
proof -
  have "k \<notin> bucket_keys (caches s ! i)" using assms by (auto simp: store_inv_def)
  then show "view1 (caches s ! i) k = None" "view2 (caches s ! i) k = None"
    by (simp_all add: bucket_keys_def view1_def view2_def live_notin)
  then show "peek (caches s ! i) k = None" by (simp add: peek_def)
qed

subsection \<open>Lifting a bucket operation\<close>

lemma bidx_caches [simp]: "bidx (s\<lparr>caches := bs\<rparr>) k = bidx s k"
  by (simp add: bidx_def bucket_index_def)

lemma store_update:
  assumes inv: "store_inv s" and i: "i < length (caches s)"
    and b': "bucket_inv b'" "\<forall>k\<in>bucket_keys b'. bidx s k = i" "bucket_caps b' = bucket_caps (caches s ! i)"
    and s': "s' = s\<lparr>caches := (caches s)[i := b']\<rparr>"
  shows "store_inv s'" "store_caps s' = store_caps s"
    "\<forall>k. bucket_of s' k = (if bidx s k = i then b' else bucket_of s k)"
proof -
  have all: "\<forall>j<length (caches s').
      bucket_inv (caches s' ! j) \<and> (\<forall>k'\<in>bucket_keys (caches s' ! j). bidx s' k' = j)"
    using inv i b' by (auto simp: s' nth_list_update store_inv_def)
  have "uint (st_mask s) < 65536 \<and> length (caches s) = Suc (unat (st_mask s))"
    using inv unfolding store_inv_def by blast
  then show "store_inv s'" unfolding store_inv_def by (intro conjI all) (simp_all add: s')
  have "map bucket_caps ((caches s)[i := b']) =
      (map bucket_caps (caches s))[i := map bucket_caps (caches s) ! i]"
    using b'(3) i by (simp add: map_update)
  then show "store_caps s' = store_caps s" by (simp add: store_caps_def s')
  show "\<forall>k. bucket_of s' k = (if bidx s k = i then b' else bucket_of s k)"
    using i by (simp add: s' bucket_of_def nth_list_update)
qed

lemma on_bucket_lift:
  assumes inv: "store_inv s" and f: "f (bucket_of s k) = Some (b', r)"
    and b': "bucket_inv b'" "bucket_keys b' \<subseteq> insert k (bucket_keys (bucket_of s k))"
      "bucket_caps b' = bucket_caps (bucket_of s k)"
  obtains s' where "on_bucket s (bucket_index s k) f = Some (s', r)" "store_inv s'"
    "store_caps s' = store_caps s" "onEvicted s' = onEvicted s"
    "\<forall>k'. bucket_of s' k' = (if bidx s k' = bidx s k then b' else bucket_of s k')"
proof -
  let ?s = "s\<lparr>caches := (caches s)[bidx s k := b']\<rparr>"
  note idx = store_inv_index [OF inv, of k]
  have keys: "\<forall>k'\<in>bucket_keys b'. bidx s k' = bidx s k"
    using b'(2) inv idx(1) by (auto simp: store_inv_def bucket_of_def)
  have "on_bucket s (bucket_index s k) f = Some (?s, r)"
    using idx f by (simp add: on_bucket_def go_simps bucket_of_def)
  then show thesis
    using store_update [OF inv idx(1) b'(1) keys b'(3) [unfolded bucket_of_def] refl] that by simp
qed

text \<open>\<open>stays_or_lost\<close> is \<open>kept_or_lost\<close> at store level.\<close>

definition stays_or_lost :: "'v lru2 \<Rightarrow> 'v lru2 \<Rightarrow> 'v callback list \<Rightarrow> string \<Rightarrow> bool" where
  "stays_or_lost s s' evs k \<longleftrightarrow>
     sview s' k = sview s k \<or>
     sview s' k = None \<and> (\<forall>v e. sview s k = Some (v, e) \<longrightarrow> onEvicted s \<longrightarrow> (k, v) \<in> set evs)"

lemma lift_stays:
  assumes "\<forall>k'. bucket_of s' k' = (if bidx s k' = bidx s k then b' else bucket_of s k')"
    and "\<forall>k'. k' \<noteq> k \<longrightarrow> kept_or_lost (bucket_of s k) b' evs (onEvicted s) k'"
  shows "\<forall>k'. k' \<noteq> k \<longrightarrow> stays_or_lost s s' evs k'"
proof (intro allI impI)
  fix k' assume "k' \<noteq> k"
  show "stays_or_lost s s' evs k'"
  proof (cases "bidx s k' = bidx s k")
    case True
    then have "bucket_of s k' = bucket_of s k" by (simp add: bucket_of_def)
    then show ?thesis using assms True \<open>k' \<noteq> k\<close>
      by (simp add: stays_or_lost_def kept_or_lost_def sview_def)
  qed (simp add: stays_or_lost_def sview_def assms(1))
qed

subsection \<open>Set, Get, Delete\<close>

lemma set_spec:
  assumes inv: "store_inv s"
  obtains s' evs where "SetWithExpiration s k v d now = Some (s', evs)" "store_inv s'"
    "store_caps s' = store_caps s" "onEvicted s' = onEvicted s"
    "0 < expiry now d \<Longrightarrow> sview s' k = Some (v, expiry now d)"
    "\<not> 0 < expiry now d \<Longrightarrow> sview s' k = view2 (bucket_of s k) k \<or> sview s' k = None"
    "\<forall>k'. k' \<noteq> k \<longrightarrow> stays_or_lost s s' evs k'"
proof -
  obtain b' evs where B: "set_in (onEvicted s) k v (expiry now d) (bucket_of s k) = Some (b', evs)"
    "bucket_inv b'" "bucket_caps b' = bucket_caps (bucket_of s k)"
    "bucket_keys b' \<subseteq> insert k (bucket_keys (bucket_of s k))"
    "view1 b' k = (if 0 < expiry now d then Some (v, expiry now d) else None)"
    "view2 b' k = view2 (bucket_of s k) k \<or> view2 b' k = None"
    "\<forall>k'. k' \<noteq> k \<longrightarrow> kept_or_lost (bucket_of s k) b' evs (onEvicted s) k'"
    by (rule set_in_spec [OF store_inv_bucket [OF inv, of k], of "onEvicted s" k v "expiry now d"])
  obtain s' where S: "on_bucket s (bucket_index s k) (set_in (onEvicted s) k v (expiry now d)) = Some (s', evs)"
    "store_inv s'" "store_caps s' = store_caps s" "onEvicted s' = onEvicted s"
    "\<forall>k'. bucket_of s' k' = (if bidx s k' = bidx s k then b' else bucket_of s k')"
    by (rule on_bucket_lift [where f = "set_in (onEvicted s) k v (expiry now d)", OF inv B(1,2,4,3)])
  show thesis
  proof (rule that)
    show "SetWithExpiration s k v d now = Some (s', evs)" using S(1) by (simp add: SetWithExpiration_def)
    show "0 < expiry now d \<Longrightarrow> sview s' k = Some (v, expiry now d)"
      using B(5) by (simp add: sview_def S(5) peek_def)
    show "\<not> 0 < expiry now d \<Longrightarrow> sview s' k = view2 (bucket_of s k) k \<or> sview s' k = None"
      using B(5,6) by (simp add: sview_def S(5) peek_def)
    show "\<forall>k'. k' \<noteq> k \<longrightarrow> stays_or_lost s s' evs k'" by (rule lift_stays [OF S(5) B(7)])
  qed (fact S)+
qed

lemma get_spec:
  assumes inv: "store_inv s"
  obtains s' evs where "Get s k now now' =
      Some (s', get_answer (view1 (bucket_of s k) k) (view2 (bucket_of s k) k) now now', evs)"
    "store_inv s'" "store_caps s' = store_caps s" "onEvicted s' = onEvicted s"
    "sview s' k = sview s k \<or> sview s' k = None \<and> (\<exists>v e. sview s k = Some (v, e) \<and> e \<le> now)"
    "\<forall>k'. k' \<noteq> k \<longrightarrow> stays_or_lost s s' evs k'"
proof -
  let ?ans = "get_answer (view1 (bucket_of s k) k) (view2 (bucket_of s k) k) now now'"
  obtain b' evs where B: "get_in (onEvicted s) k now now' (bucket_of s k) = Some (b', ?ans, evs)"
    "bucket_inv b'" "bucket_caps b' = bucket_caps (bucket_of s k)"
    "bucket_keys b' \<subseteq> insert k (bucket_keys (bucket_of s k))"
    "peek b' k = peek (bucket_of s k) k \<or>
       peek b' k = None \<and> (\<exists>v e. peek (bucket_of s k) k = Some (v, e) \<and> e \<le> now)"
    "\<forall>k'. k' \<noteq> k \<longrightarrow> kept_or_lost (bucket_of s k) b' evs (onEvicted s) k'"
    by (rule get_in_spec [OF store_inv_bucket [OF inv, of k], of "onEvicted s" k now now'])
  obtain s' where S: "on_bucket s (bucket_index s k) (get_in (onEvicted s) k now now') = Some (s', ?ans, evs)"
    "store_inv s'" "store_caps s' = store_caps s" "onEvicted s' = onEvicted s"
    "\<forall>k'. bucket_of s' k' = (if bidx s k' = bidx s k then b' else bucket_of s k')"
    by (rule on_bucket_lift [where f = "get_in (onEvicted s) k now now'", OF inv B(1,2,4,3)])
  show thesis
  proof (rule that)
    show "Get s k now now' = Some (s', ?ans, evs)" using S(1) by (simp add: Get_def)
    show "sview s' k = sview s k \<or> sview s' k = None \<and> (\<exists>v e. sview s k = Some (v, e) \<and> e \<le> now)"
      using B(5) by (simp add: sview_def S(5))
    show "\<forall>k'. k' \<noteq> k \<longrightarrow> stays_or_lost s s' evs k'" by (rule lift_stays [OF S(5) B(6)])
  qed (fact S)+
qed

lemma delete_spec:
  assumes inv: "store_inv s"
  obtains s' evs where "Delete s k = Some (s', sview s k \<noteq> None, evs)" "store_inv s'"
    "store_caps s' = store_caps s" "onEvicted s' = onEvicted s" "sview s' = (sview s)(k := None)"
    "evs = delete_event (onEvicted s) k (view1 (bucket_of s k) k) (view2 (bucket_of s k) k)"
proof -
  let ?b = "bucket_of s k"
  let ?evs = "delete_event (onEvicted s) k (view1 ?b k) (view2 ?b k)"
  obtain b' where B: "delete_in (onEvicted s) k ?b = Some (b', peek ?b k \<noteq> None, ?evs)"
    "bucket_inv b'" "bucket_caps b' = bucket_caps ?b" "bucket_keys b' = bucket_keys ?b"
    "view1 b' = (view1 ?b)(k := None)" "view2 b' = (view2 ?b)(k := None)"
    by (rule delete_in_spec [OF store_inv_bucket [OF inv, of k], of "onEvicted s" k])
  have sub: "bucket_keys b' \<subseteq> insert k (bucket_keys ?b)" using B(4) by auto
  obtain s' where S: "on_bucket s (bucket_index s k) (delete_in (onEvicted s) k) =
      Some (s', peek ?b k \<noteq> None, ?evs)"
    "store_inv s'" "store_caps s' = store_caps s" "onEvicted s' = onEvicted s"
    "\<forall>k'. bucket_of s' k' = (if bidx s k' = bidx s k then b' else bucket_of s k')"
    by (rule on_bucket_lift [where f = "delete_in (onEvicted s) k", OF inv B(1,2) sub B(3)])
  have "sview s' k' = ((sview s)(k := None)) k'" for k'
  proof (cases "k' = k")
    case True
    then show ?thesis using B(5,6) by (simp add: sview_def S(5) peek_def)
  next
    case False
    then have "peek b' k' = peek ?b k'" using B(5,6) by (intro peek_cong) simp_all
    moreover have "bidx s k' = bidx s k \<Longrightarrow> bucket_of s k' = ?b" by (simp add: bucket_of_def)
    ultimately show ?thesis using False by (simp add: sview_def S(5))
  qed
  then have "sview s' = (sview s)(k := None)" by blast
  then show thesis using that [of s' ?evs] S by (simp add: Delete_def sview_def)
qed

subsection \<open>The constructor\<close>

definition good_options :: "options \<Rightarrow> bool" where
  "good_options opts \<longleftrightarrow>
     uint (BucketCount opts) \<le> 32768 \<and> uint (CapPerBucket opts) < 65535 \<and> uint (Level2Cap opts) < 65535"

lemma u16_le: "uint (x :: u16) \<le> int n \<longleftrightarrow> unat x \<le> n" "uint x < int n \<longleftrightarrow> unat x < n"
  by (simp_all only: uint_nat of_nat_le_iff of_nat_less_iff)

lemma Create_inv:
  assumes "uint cap < 65535" "cap \<noteq> 0"
  shows "cache_inv (Create cap)" "entries_of (Create cap) = []"
proof -
  have "0 < unat cap" "unat cap < 65535"
    using assms u16_le(2) [of cap 65535] by (simp_all add: unat_gt_0)
  then show "cache_inv (Create cap)" "entries_of (Create cap) = []"
    using Create_rel cache_rel_inv by blast+
qed

lemma empty_bucket:
  assumes "uint cap1 < 65535" "cap1 \<noteq> 0" "uint cap2 < 65535" "cap2 \<noteq> 0" "b = (Create cap1, Create cap2)"
  shows "bucket_inv b" "bucket_keys b = {}" "view1 b = (\<lambda>_. None)" "view2 b = (\<lambda>_. None)"
  by (simp_all add: Create_inv [OF assms(1,2)] Create_inv [OF assms(3,4)] assms(5) bucket_defs fun_eq_iff)

lemma uniform_store:
  assumes "caches s = replicate (Suc (unat (st_mask s))) b" "uint (st_mask s) < 65536"
    and "bucket_inv b" "bucket_keys b = {}" "view1 b = (\<lambda>_. None)" "view2 b = (\<lambda>_. None)"
  shows "store_inv s" "sview s = (\<lambda>_. None)"
proof -
  show inv: "store_inv s"
    using assms by (simp add: store_inv_def nth_replicate del: replicate_Suc)
  have "sview s k = None" for k
    using store_inv_index(1) [OF inv, of k] assms
    by (simp add: sview_def bucket_of_def nth_replicate peek_def del: replicate_Suc)
  then show "sview s = (\<lambda>_. None)" by blast
qed

lemma newLRU2Cache_spec:
  fixes opts :: options
  assumes "good_options opts"
  shows "store_inv (newLRU2Cache opts)" "sview (newLRU2Cache opts) = (\<lambda>_. None)"
proof -
  let ?n = "if BucketCount opts = 0 then 16 else BucketCount opts"
  let ?m = "maskOfNextPowOf2 ?n"
  let ?c1 = "if CapPerBucket opts = 0 then 1024 else CapPerBucket opts"
  let ?c2 = "if Level2Cap opts = 0 then 1024 else Level2Cap opts"
  let ?b = "(Create ?c1, Create ?c2) :: 'v bucket"
  let ?s = "newLRU2Cache opts :: 'v lru2"
  have n: "0 < ?n" "unat ?n \<le> 2 ^ 15"
    using assms u16_le(1) [of "BucketCount opts" 32768]
    by (auto simp: good_options_def word_neq_0_conv)
  obtain j where j: "j \<le> 16" "unat ?m = 2 ^ j - 1" "unat ?n \<le> 2 ^ j" "\<forall>i. unat ?n \<le> 2 ^ i \<longrightarrow> j \<le> i"
    by (rule mask_least [OF n(1)])
  have "(2 :: nat) ^ j \<le> 2 ^ 15" using j(4) n(2) by (intro power_increasing) auto
  then have m: "unat ?m < 65535" using j(2) by simp
  have s: "?s = \<lparr>caches = replicate (Suc (unat ?m)) ?b, onEvicted = OnEvicted opts,
      st_mask = ucast ?m, ticking = True,
      tick_interval = (if CleanupInterval opts \<le> 0 then minute else CleanupInterval opts)\<rparr>"
    using unat_succ_u16 [OF m] by (simp add: newLRU2Cache_def Let_def)
  have um: "unat (ucast ?m :: i32) = unat ?m" 
    using m by (simp add: unsigned_ucast_eq take_bit_nat_eq_self)
  have c: "uint ?c1 < 65535" "?c1 \<noteq> 0" "uint ?c2 < 65535" "?c2 \<noteq> 0"
    using assms by (auto simp: good_options_def)
  have b: "bucket_inv ?b" "bucket_keys ?b = {}" "view1 ?b = (\<lambda>_. None)" "view2 ?b = (\<lambda>_. None)"
    by (rule empty_bucket [OF c refl])+
  have "int (unat (ucast ?m :: i32)) < int 65536"
    unfolding um using unat_u16_bound [of ?m] by (simp only: of_nat_less_iff)
  then have "uint (ucast ?m :: i32) < 65536" by (simp only: uint_nat of_nat_numeral)
  then have u: "uint (st_mask ?s) < 65536" by (simp add: s)
  have r: "caches ?s = replicate (Suc (unat (st_mask ?s))) ?b" by (simp only: s lru2.simps um)
  show "store_inv ?s" "sview ?s = (\<lambda>_. None)" by (rule uniform_store [OF r u b])+
qed

subsection \<open>One tick of the cleanup\<close>

definition purge :: "int \<Rightarrow> 'v bucket \<Rightarrow> string \<Rightarrow> bool" where
  "purge now b k \<longleftrightarrow> expired now (view1 b k) \<or> expired now (view2 b k)"

lemma cleanup_bucket_spec:
  assumes inv: "store_inv s" and i: "i < length (caches s)"
  obtains s' evs where "cleanup_bucket s now i = Some (s', evs)" "store_inv s'"
    "store_caps s' = store_caps s" "onEvicted s' = onEvicted s"
    "\<forall>k. bidx s' k = bidx s k" "\<forall>k. bidx s k \<noteq> i \<longrightarrow> bucket_of s' k = bucket_of s k"
    "\<forall>k. bidx s k = i \<longrightarrow> sview s' k = (if purge now (bucket_of s k) k then None else sview s k)"
proof -
  let ?b = "caches s ! i"
  have bi: "bucket_inv ?b" using inv i by (simp add: store_inv_def)
  obtain b' evs where B: "cleanup_in (onEvicted s) now ?b = Some (b', evs)"
    "bucket_inv b'" "bucket_caps b' = bucket_caps ?b" "bucket_keys b' = bucket_keys ?b"
    "view1 b' = (\<lambda>k. if expired now (view1 ?b k) \<or> expired now (view2 ?b k) then None else view1 ?b k)"
    "view2 b' = (\<lambda>k. if expired now (view1 ?b k) \<or> expired now (view2 ?b k) then None else view2 ?b k)"
    by (rule cleanup_in_spec [OF bi, of "onEvicted s" now])
  have keys: "\<forall>k\<in>bucket_keys b'. bidx s k = i" using B(4) inv i by (simp add: store_inv_def)
  let ?s = "s\<lparr>caches := (caches s)[i := b']\<rparr>"
  note U = store_update [OF inv i B(2) keys B(3) refl]
  have "peek b' k = (if purge now ?b k then None else peek ?b k)" for k
    by (simp add: peek_def purge_def B(5,6) split: option.split)
  then have "\<forall>k. bidx s k = i \<longrightarrow> sview ?s k = (if purge now (bucket_of s k) k then None else sview s k)"
    using U(3) by (auto simp: sview_def bucket_of_def [of s])
  then show thesis
    using that [of ?s evs] U B(1) i by (simp add: cleanup_bucket_def go_simps)
qed

lemma cleanup_each_spec:
  assumes "store_inv s" "\<forall>i\<in>set is. i < length (caches s)" "distinct is"
  obtains s' evs where "cleanup_each s now is = Some (s', evs)" "store_inv s'"
    "store_caps s' = store_caps s" "onEvicted s' = onEvicted s"
    "\<forall>k. sview s' k = (if bidx s k \<in> set is \<and> purge now (bucket_of s k) k then None else sview s k)"
  using assms
proof (induction "is" arbitrary: s thesis)
  case Nil
  then show ?case by simp
next
  case (Cons i js)
  obtain s1 evs where B: "cleanup_bucket s now i = Some (s1, evs)" "store_inv s1"
    "store_caps s1 = store_caps s" "onEvicted s1 = onEvicted s"
    "\<forall>k. bidx s1 k = bidx s k" "\<forall>k. bidx s k \<noteq> i \<longrightarrow> bucket_of s1 k = bucket_of s k"
    "\<forall>k. bidx s k = i \<longrightarrow> sview s1 k = (if purge now (bucket_of s k) k then None else sview s k)"
    by (rule cleanup_bucket_spec [OF Cons.prems(2), of i now]) (use Cons.prems(3) in auto)
  have "length (caches s1) = length (caches s)"
    using B(3) by (metis length_map store_caps_def)
  then have "\<forall>j\<in>set js. j < length (caches s1)" "distinct js" using Cons.prems(3,4) by auto
  then obtain s' evs' where C: "cleanup_each s1 now js = Some (s', evs')" "store_inv s'"
    "store_caps s' = store_caps s1" "onEvicted s' = onEvicted s1"
    "\<forall>k. sview s' k = (if bidx s1 k \<in> set js \<and> purge now (bucket_of s1 k) k then None else sview s1 k)"
    using Cons.IH [OF _ B(2)] by blast
  have "sview s' k = (if bidx s k \<in> set (i # js) \<and> purge now (bucket_of s k) k then None else sview s k)" for k
  proof (cases "bidx s k = i")
    case True
    then show ?thesis using B(5,7) C(5) Cons.prems(4) by simp
  next
    case False
    then have "bucket_of s1 k = bucket_of s k" "sview s1 k = sview s k" using B(6) by (simp_all add: sview_def)
    then show ?thesis using False B(5) C(5) by simp
  qed
  then show ?case using Cons.prems(1) B C by simp
qed

lemma cleanup_spec:
  assumes inv: "store_inv s"
  obtains s' evs where "cleanup_tick s now = Some (s', evs)" "store_inv s'"
    "store_caps s' = store_caps s" "onEvicted s' = onEvicted s"
    "\<forall>k. sview s' k = (if purge now (bucket_of s k) k then None else sview s k)"
proof -
  have "\<forall>i\<in>set [0..<length (caches s)]. i < length (caches s)" "distinct [0..<length (caches s)]" by auto
  then obtain s' evs where C: "cleanup_each s now [0..<length (caches s)] = Some (s', evs)" "store_inv s'"
    "store_caps s' = store_caps s" "onEvicted s' = onEvicted s"
    "\<forall>k. sview s' k = (if bidx s k \<in> set [0..<length (caches s)] \<and> purge now (bucket_of s k) k
       then None else sview s k)"
    by (rule cleanup_each_spec [OF inv])
  then show thesis
    using that [of s' evs] store_inv_index(1) [OF inv] by (simp add: cleanup_tick_def)
qed

subsection \<open>Len\<close>

definition bucket_len :: "'v bucket \<Rightarrow> nat" where
  "bucket_len b = length (live_list (entries_of (fst b))) + length (live_list (entries_of (snd b)))"

lemma walk_count: "cache_inv c \<Longrightarrow> walk c count_step n = Some (n + int (length (live_list (entries_of c))))"
proof -
  have "fold (\<lambda>(k, v, e) s. fst (count_step s k v e)) xs n = n + int (length xs)" for xs :: "'a entry list" and n
    by (induction xs arbitrary: n) (auto simp: count_step_def)
  then show "cache_inv c \<Longrightarrow> ?thesis"
    by (simp add: walk_entries lru_walk_fold count_step_def)
qed

lemma count_buckets_spec:
  "\<forall>b\<in>set bs. bucket_inv b \<Longrightarrow> count_buckets bs n = Some (n + int (sum_list (map bucket_len bs)))"
  by (induction bs arbitrary: n) (auto simp: bucket_inv_def walk_count bucket_len_def)

lemma store_inv_buckets: "store_inv s \<Longrightarrow> \<forall>b\<in>set (caches s). bucket_inv b"
  unfolding store_inv_def by (metis in_set_conv_nth)

lemma Len_spec: "store_inv s \<Longrightarrow> Len s = Some (int (sum_list (map bucket_len (caches s))))"
  by (simp add: Len_def count_buckets_spec [OF store_inv_buckets])

lemma bucket_len_bound: "bucket_inv b \<Longrightarrow> bucket_len b \<le> fst (bucket_caps b) + snd (bucket_caps b)"
  by (auto simp: bucket_len_def bucket_inv_def bucket_caps_def intro!: add_mono level.live_bound)

lemma Len_bound:
  "store_inv s \<Longrightarrow> \<exists>n. Len s = Some (int n) \<and> n \<le> sum_list (map (\<lambda>(c1, c2). c1 + c2) (store_caps s))"
  using store_inv_buckets [of s]
  by (auto simp: Len_spec store_caps_def comp_def case_prod_beta intro!: sum_list_mono bucket_len_bound)

lemma bucket_len_empty:
  assumes "bucket_inv b" "\<forall>k. peek b k = None"
  shows "bucket_len b = 0"
proof -
  have "cache_inv (fst b)" "cache_inv (snd b)" using assms(1) by (simp_all add: bucket_inv_def)
  then have "live_list (entries_of (fst b)) = []" "live_list (entries_of (snd b)) = []"
    using assms(2) by (auto intro!: live_list_Nil level.ent_distinct simp: peek_None view1_def view2_def)
  then show ?thesis by (simp add: bucket_len_def)
qed

lemma Len_empty:
  assumes inv: "store_inv s" and "\<forall>k. sview s k = None"
  shows "Len s = Some 0"
proof -
  have "peek (caches s ! i) k = None" if "i < length (caches s)" for i k
  proof (cases "bidx s k = i")
    case True
    then show ?thesis using assms(2) by (auto simp: sview_def bucket_of_def)
  next
    case False
    then show ?thesis by (rule peek_elsewhere [OF inv that])
  qed
  then have "\<forall>b\<in>set (caches s). bucket_len b = 0"
    using store_inv_buckets [OF inv] bucket_len_empty by (metis in_set_conv_nth)
  then show ?thesis by (simp add: Len_spec [OF inv] sum_list_0 cong: map_cong)
qed

subsection \<open>Clear\<close>

lemma clear_keys_spec:
  assumes "\<forall>b\<in>set bs. bucket_inv b"
  obtains ks' where "clear_keys bs ks = Some ks'"
    "set ks' = set ks \<union> {k. \<exists>b\<in>set bs. peek b k \<noteq> None}"
  using assms
proof (induction bs arbitrary: ks thesis)
  case Nil
  then show ?case by simp
next
  case (Cons b bs)
  obtain c0 c1 where b: "b = (c0, c1)" by (cases b)
  have i: "cache_inv c0" "cache_inv c1" using Cons.prems(2) by (simp_all add: bucket_inv_def b)
  obtain ks1 where K1: "walk c0 collect_all ks = Some ks1"
    "set ks1 = set ks \<union> {k. \<exists>v e. live (entries_of c0) k = Some (v, e) \<and> True}"
    by (rule walk_collect [OF i(1), of collect_all "\<lambda>e. True" ks]) (auto simp: collect_all_def)
  obtain ks2 where K2: "walk c1 collect_new ks1 = Some ks2"
    "set ks2 = set ks1 \<union> {k. \<exists>v e. live (entries_of c1) k = Some (v, e) \<and> True}"
    by (rule walk_collect [OF i(2), of collect_new "\<lambda>e. True" ks1]) (auto simp: collect_new_def)
  obtain ks' where K: "clear_keys bs ks2 = Some ks'"
    "set ks' = set ks2 \<union> {k. \<exists>b\<in>set bs. peek b k \<noteq> None}"
    using Cons.IH [of ks2] Cons.prems(2) by auto
  show ?case
  proof (rule Cons.prems(1))
    show "clear_keys (b # bs) ks = Some ks'" using K1 K2 K by (simp add: b)
    show "set ks' = set ks \<union> {k. \<exists>b\<in>set (b # bs). peek b k \<noteq> None}"
      using K1(2) K2(2) K(2) by (auto simp: b peek_def view1_def view2_def split: option.splits)
  qed
qed

lemma delete_keys_spec:
  assumes "store_inv s"
  obtains s' evs where "delete_keys s ks = Some (s', evs)" "store_inv s'"
    "store_caps s' = store_caps s" "onEvicted s' = onEvicted s"
    "\<forall>k. sview s' k = (if k \<in> set ks then None else sview s k)"
  using assms
proof (induction ks arbitrary: s thesis)
  case Nil
  then show ?case by simp
next
  case (Cons k ks)
  obtain s1 evs where D: "Delete s k = Some (s1, sview s k \<noteq> None, evs)" "store_inv s1"
    "store_caps s1 = store_caps s" "onEvicted s1 = onEvicted s" "sview s1 = (sview s)(k := None)"
    "evs = delete_event (onEvicted s) k (view1 (bucket_of s k) k) (view2 (bucket_of s k) k)"
    by (rule delete_spec [OF Cons.prems(2)])
  obtain s' evs' where E: "delete_keys s1 ks = Some (s', evs')" "store_inv s'"
    "store_caps s' = store_caps s1" "onEvicted s' = onEvicted s1"
    "\<forall>k. sview s' k = (if k \<in> set ks then None else sview s1 k)"
    by (rule Cons.IH [OF _ D(2)])
  have "\<forall>k'. sview s' k' = (if k' \<in> set (k # ks) then None else sview s k')"
    using D(5) by (simp add: E(5))
  then show ?case using Cons.prems(1) D(1) E by (simp add: D(3,4))
qed

lemma clear_spec:
  assumes inv: "store_inv s"
  obtains s' evs where "Clear s = Some (s', evs)" "store_inv s'"
    "store_caps s' = store_caps s" "onEvicted s' = onEvicted s" "\<forall>k. sview s' k = None"
proof -
  obtain ks where K: "clear_keys (caches s) [] = Some ks"
    "set ks = set [] \<union> {k. \<exists>b\<in>set (caches s). peek b k \<noteq> None}"
    by (rule clear_keys_spec [OF store_inv_buckets [OF inv], of "[]"])
  obtain s' evs where D: "delete_keys s ks = Some (s', evs)" "store_inv s'"
    "store_caps s' = store_caps s" "onEvicted s' = onEvicted s"
    "\<forall>k. sview s' k = (if k \<in> set ks then None else sview s k)"
    by (rule delete_keys_spec [OF inv, of ks])
  have "k \<in> set ks" if "sview s k \<noteq> None" for k
  proof -
    have "bucket_of s k \<in> set (caches s)"
      using store_inv_index(1) [OF inv, of k] by (simp add: bucket_of_def)
    then show ?thesis using that unfolding K(2) sview_def by blast
  qed
  then have "\<forall>k. sview s' k = None" using D(5) by metis
  then show thesis using that K(1) D by (simp add: Clear_def)
qed

end
