(* ===== verification/Store_Contract.thy ===== *)
theory Store_Contract
  imports Lru2_Spec
begin

text \<open>
  The contract of the Go interface \<open>Store\<close> (\<open>pkg/store/store.go\<close>) for a cache that may forget:
  a key reads as what was last written to it, or not at all. \<open>view s k\<close> is the value and the
  expiry a reader of \<open>s\<close> finds under \<open>k\<close>; \<open>deadline now d\<close> is the expiry of a value written at
  \<open>now\<close> with duration \<open>d\<close>.
\<close>

definition remembers :: "(string \<Rightarrow> ('v option \<times> int) option) \<Rightarrow> (string \<rightharpoonup> 'v option \<times> int) \<Rightarrow> bool" where
  "remembers w m \<longleftrightarrow> (\<forall>k. w k = m k \<or> w k = None)"

lemma remembers_empty: "remembers (\<lambda>_. None) m"
  by (simp add: remembers_def)

lemma remembers_mono:
  "remembers w m \<Longrightarrow> \<forall>k. w' k = w k \<or> w' k = None \<Longrightarrow> remembers w' m"
  unfolding remembers_def by metis

lemma remembersD: "remembers w m \<Longrightarrow> w k = Some x \<Longrightarrow> m k = Some x"
  unfolding remembers_def by (metis option.distinct(1))

locale lossy_store =
  fixes sinv :: "'s \<Rightarrow> bool"
    and view :: "'s \<Rightarrow> string \<Rightarrow> ('v option \<times> int) option"
    and deadline :: "int \<Rightarrow> int \<Rightarrow> int"
    and sset :: "'s \<Rightarrow> string \<Rightarrow> 'v option \<Rightarrow> int \<Rightarrow> int \<Rightarrow> ('s \<times> 'v callback list) option"
    and sget :: "'s \<Rightarrow> string \<Rightarrow> int \<Rightarrow> int \<Rightarrow> ('s \<times> ('v option \<times> bool) \<times> 'v callback list) option"
    and sdelete :: "'s \<Rightarrow> string \<Rightarrow> ('s \<times> bool \<times> 'v callback list) option"
  assumes set_law: "sinv s \<Longrightarrow> \<exists>s' evs. sset s k v d now = Some (s', evs) \<and> sinv s' \<and>
      (0 < deadline now d \<longrightarrow> view s' k = Some (v, deadline now d)) \<and>
      (\<forall>k'. k' \<noteq> k \<longrightarrow> view s' k' = view s k' \<or> view s' k' = None)"
    and get_law: "sinv s \<Longrightarrow> \<exists>s' v ok evs. sget s k now now' = Some (s', (v, ok), evs) \<and> sinv s' \<and>
      (\<forall>k'. view s' k' = view s k' \<or> view s' k' = None) \<and>
      (ok \<longrightarrow> (\<exists>e. view s k = Some (v, e) \<and> now < e)) \<and> (\<not> ok \<longrightarrow> v = None) \<and>
      (\<forall>w e. view s k = Some (w, e) \<longrightarrow> now < e \<longrightarrow> now' < e \<longrightarrow>
         ok \<and> v = w \<and> view s' k = view s k)"
    and delete_law: "sinv s \<Longrightarrow> \<exists>s' evs. sdelete s k = Some (s', view s k \<noteq> None, evs) \<and> sinv s' \<and>
      view s' k = None \<and> (\<forall>k'. k' \<noteq> k \<longrightarrow> view s' k' = view s k')"
begin

text \<open>A history map \<open>m\<close> (what was last written and not deleted) that bounds the view keeps
  bounding it; a hit answers what the history says.\<close>

lemma set_remembers:
  assumes "sinv s" "remembers (view s) m" "0 < deadline now d"
  obtains s' evs where "sset s k v d now = Some (s', evs)" "sinv s'"
    "remembers (view s') (m(k \<mapsto> (v, deadline now d)))"
proof -
  obtain s' evs where S: "sset s k v d now = Some (s', evs)" "sinv s'"
    "view s' k = Some (v, deadline now d)" "\<forall>k'. k' \<noteq> k \<longrightarrow> view s' k' = view s k' \<or> view s' k' = None"
    using set_law [OF assms(1)] assms(3) by metis
  have "remembers (view s') (m(k \<mapsto> (v, deadline now d)))"
    unfolding remembers_def
  proof
    fix k'
    show "view s' k' = (m(k \<mapsto> (v, deadline now d))) k' \<or> view s' k' = None"
      using S(3,4) assms(2) by (cases "k' = k") (simp, metis fun_upd_other remembers_def)
  qed
  with S that show thesis by blast
qed

lemma delete_remembers:
  assumes "sinv s" "remembers (view s) m"
  obtains s' evs where "sdelete s k = Some (s', view s k \<noteq> None, evs)" "sinv s'"
    "remembers (view s') (m(k := None))"
proof -
  obtain s' evs where S: "sdelete s k = Some (s', view s k \<noteq> None, evs)" "sinv s'"
    "view s' k = None" "\<forall>k'. k' \<noteq> k \<longrightarrow> view s' k' = view s k'"
    using delete_law [OF assms(1)] by metis
  have "remembers (view s') (m(k := None))"
    using S(3,4) assms(2) by (auto simp: remembers_def)
  with S that show thesis by blast
qed

lemma get_remembers:
  assumes "sinv s" "remembers (view s) m"
  obtains s' v ok evs where "sget s k now now' = Some (s', (v, ok), evs)" "sinv s'"
    "remembers (view s') m" "ok \<longrightarrow> (\<exists>e. m k = Some (v, e) \<and> now < e)" "\<not> ok \<longrightarrow> v = None"
proof -
  obtain s' v ok evs where S: "sget s k now now' = Some (s', (v, ok), evs)" "sinv s'"
    "\<forall>k'. view s' k' = view s k' \<or> view s' k' = None"
    "ok \<longrightarrow> (\<exists>e. view s k = Some (v, e) \<and> now < e)" "\<not> ok \<longrightarrow> v = None"
    using get_law [OF assms(1), of k now now'] by blast
  show thesis
    by (rule that [OF S(1,2) remembers_mono [OF assms(2) S(3)] _ S(5)])
       (use S(4) remembersD [OF assms(2)] in blast)
qed

text \<open>Reading back: a value just written is found as long as neither clock reading is past it.\<close>

lemma set_get:
  assumes "sinv s" "0 < deadline now d" "t < deadline now d" "t' < deadline now d"
  obtains s' evs s'' evs' where "sset s k v d now = Some (s', evs)" "sinv s'"
    "sget s' k t t' = Some (s'', (v, True), evs')" "sinv s''"
proof -
  obtain s' evs where S: "sset s k v d now = Some (s', evs)" "sinv s'"
    "view s' k = Some (v, deadline now d)"
    using set_law [OF assms(1)] assms(2) by metis
  obtain s'' w ok evs' where G: "sget s' k t t' = Some (s'', (w, ok), evs')" "sinv s''" "ok" "w = v"
    using get_law [OF S(2), of k t t'] S(3) assms(3,4) by blast
  show thesis by (rule that [OF S(1,2) _ G(2)]) (use G in simp)
qed

end

end
