(* ===== verification/Lru2_Run.thy ===== *)
theory Lru2_Run
  imports Lru2_Correct Store_Contract
begin

text \<open>
  The model as a \<open>lossy_store\<close>, and executions of it. Concurrent callers of the code interleave
  at the bucket locks: an execution is a list of critical sections, each a \<open>Get\<close>, a
  \<open>SetWithExpiration\<close>, a \<open>Delete\<close> or the cleanup of one bucket. The deletions of \<open>Clear\<close> and the
  buckets of a cleanup tick are executions too (\<open>delete_keys_run\<close>, \<open>cleanup_each_run\<close>), so their
  interleavings with other calls are covered.
\<close>

lemma get_answer_facts:
  assumes "get_answer (view1 b k) (view2 b k) now now' = (v, ok)"
  shows "ok \<longrightarrow> (\<exists>e. peek b k = Some (v, e) \<and> now < e)" "\<not> ok \<longrightarrow> v = None"
    "\<forall>w e. peek b k = Some (w, e) \<longrightarrow> now < e \<longrightarrow> now' < e \<longrightarrow> ok \<and> v = w"
  using assms by (auto simp: get_answer_def peek_def split: option.splits if_splits)

interpretation lru2_store: lossy_store store_inv sview expiry SetWithExpiration Get Delete
proof
  fix s :: "'a lru2" and k v d now now'
  assume inv: "store_inv s"
  show "\<exists>s' evs. SetWithExpiration s k v d now = Some (s', evs) \<and> store_inv s' \<and>
      (0 < expiry now d \<longrightarrow> sview s' k = Some (v, expiry now d)) \<and>
      (\<forall>k'. k' \<noteq> k \<longrightarrow> sview s' k' = sview s k' \<or> sview s' k' = None)"
    by (rule set_spec [OF inv, of k v d now]) (auto simp: stays_or_lost_def)
  show "\<exists>s' evs. Delete s k = Some (s', sview s k \<noteq> None, evs) \<and> store_inv s' \<and>
      sview s' k = None \<and> (\<forall>k'. k' \<noteq> k \<longrightarrow> sview s' k' = sview s k')"
    by (rule delete_spec [OF inv, of k]) auto
  obtain s' evs where G: "Get s k now now' =
      Some (s', get_answer (view1 (bucket_of s k) k) (view2 (bucket_of s k) k) now now', evs)"
    "store_inv s'" "store_caps s' = store_caps s" "onEvicted s' = onEvicted s"
    "sview s' k = sview s k \<or> sview s' k = None \<and> (\<exists>v e. sview s k = Some (v, e) \<and> e \<le> now)"
    "\<forall>k'. k' \<noteq> k \<longrightarrow> stays_or_lost s s' evs k'"
    by (rule get_spec [OF inv, of k now now'])
  obtain v ok where a: "get_answer (view1 (bucket_of s k) k) (view2 (bucket_of s k) k) now now' = (v, ok)"
    by fastforce
  note F = get_answer_facts [OF a, folded sview_def]
  have "\<forall>k'. sview s' k' = sview s k' \<or> sview s' k' = None"
    using G(5,6) by (metis stays_or_lost_def)
  moreover have "\<forall>w e. sview s k = Some (w, e) \<longrightarrow> now < e \<longrightarrow> now' < e \<longrightarrow>
      ok \<and> v = w \<and> sview s' k = sview s k"
    using F(3) G(5) by fastforce
  ultimately show "\<exists>s' v ok evs. Get s k now now' = Some (s', (v, ok), evs) \<and> store_inv s' \<and>
      (\<forall>k'. sview s' k' = sview s k' \<or> sview s' k' = None) \<and>
      (ok \<longrightarrow> (\<exists>e. sview s k = Some (v, e) \<and> now < e)) \<and> (\<not> ok \<longrightarrow> v = None) \<and>
      (\<forall>w e. sview s k = Some (w, e) \<longrightarrow> now < e \<longrightarrow> now' < e \<longrightarrow>
         ok \<and> v = w \<and> sview s' k = sview s k)"
    using G(1,2) F(1,2) a by metis
qed

subsection \<open>Executions\<close>

datatype 'v op =
    Op_Get string int int
  | Op_Set string "'v option" int int
  | Op_Delete string
  | Op_Cleanup int nat

fun step :: "'v lru2 \<Rightarrow> 'v op \<Rightarrow> ('v lru2 \<times> 'v callback list) option" where
  "step s (Op_Get k now now') = do { (s, r, evs) \<leftarrow> Get s k now now'; Some (s, evs) }"
| "step s (Op_Set k v d now) = SetWithExpiration s k v d now"
| "step s (Op_Delete k) = do { (s, r, evs) \<leftarrow> Delete s k; Some (s, evs) }"
| "step s (Op_Cleanup now i) = cleanup_bucket s now i"

fun run :: "'v lru2 \<Rightarrow> 'v op list \<Rightarrow> ('v lru2 \<times> 'v callback list) option" where
  "run s [] = Some (s, [])"
| "run s (x # xs) = do {
     (s, evs) \<leftarrow> step s x;
     (s, evs') \<leftarrow> run s xs;
     Some (s, evs @ evs') }"

text \<open>What the history says a key holds.\<close>

fun note_op :: "(string \<rightharpoonup> 'v option \<times> int) \<Rightarrow> 'v op \<Rightarrow> (string \<rightharpoonup> 'v option \<times> int)" where
  "note_op m (Op_Set k v d now) = m(k \<mapsto> (v, expiry now d))"
| "note_op m (Op_Delete k) = m(k := None)"
| "note_op m _ = m"

definition written :: "'v op list \<Rightarrow> (string \<rightharpoonup> 'v option \<times> int)" where
  "written ops = foldl note_op Map.empty ops"

text \<open>Operations the code can issue: cleanup visits existing buckets; \<open>lasting\<close> ones also write
  with a positive expiry only.\<close>

fun op_ok :: "nat \<Rightarrow> 'v op \<Rightarrow> bool" where
  "op_ok n (Op_Cleanup now i) = (i < n)"
| "op_ok n _ = True"

fun op_lasting :: "'v op \<Rightarrow> bool" where
  "op_lasting (Op_Set k v d now) = (0 < expiry now d)"
| "op_lasting _ = True"

lemma length_caps: "store_caps s' = store_caps s \<Longrightarrow> length (caches s') = length (caches s)"
  by (metis length_map store_caps_def)

lemma step_spec:
  assumes inv: "store_inv s" and ok: "op_ok (length (caches s)) x"
  obtains s' evs where "step s x = Some (s', evs)" "store_inv s'" "store_caps s' = store_caps s"
    "op_lasting x \<Longrightarrow> remembers (sview s) m \<Longrightarrow> remembers (sview s') (note_op m x)"
proof (cases x)
  case (Op_Get k now now')
  obtain s' evs where G: "Get s k now now' =
      Some (s', get_answer (view1 (bucket_of s k) k) (view2 (bucket_of s k) k) now now', evs)"
    "store_inv s'" "store_caps s' = store_caps s" "onEvicted s' = onEvicted s"
    "sview s' k = sview s k \<or> sview s' k = None \<and> (\<exists>v e. sview s k = Some (v, e) \<and> e \<le> now)"
    "\<forall>k'. k' \<noteq> k \<longrightarrow> stays_or_lost s s' evs k'"
    by (rule get_spec [OF inv, of k now now'])
  have "\<forall>k'. sview s' k' = sview s k' \<or> sview s' k' = None" using G(5,6) by (metis stays_or_lost_def)
  then show thesis using that [of s' evs] G(1-3) Op_Get by (simp add: remembers_mono)
next
  case (Op_Set k v d now)
  obtain s' evs where S: "SetWithExpiration s k v d now = Some (s', evs)" "store_inv s'"
    "store_caps s' = store_caps s" "onEvicted s' = onEvicted s"
    "0 < expiry now d \<Longrightarrow> sview s' k = Some (v, expiry now d)"
    "\<not> 0 < expiry now d \<Longrightarrow> sview s' k = view2 (bucket_of s k) k \<or> sview s' k = None"
    "\<forall>k'. k' \<noteq> k \<longrightarrow> stays_or_lost s s' evs k'"
    by (rule set_spec [OF inv, of k v d now]) blast
  have "remembers (sview s') (m(k \<mapsto> (v, expiry now d)))"
    if "0 < expiry now d" "remembers (sview s) m"
    using that lru2_store.set_remembers [OF inv that(2,1), of k v] S(1) by (metis Pair_inject option.inject)
  then show thesis using that [of s' evs] S(1-3) Op_Set by simp
next
  case (Op_Delete k)
  obtain s' evs where D: "Delete s k = Some (s', sview s k \<noteq> None, evs)" "store_inv s'"
    "store_caps s' = store_caps s" "onEvicted s' = onEvicted s" "sview s' = (sview s)(k := None)"
    "evs = delete_event (onEvicted s) k (view1 (bucket_of s k) k) (view2 (bucket_of s k) k)"
    by (rule delete_spec [OF inv, of k])
  have "remembers (sview s') (m(k := None))" if "remembers (sview s) m"
    using D(5) that by (simp add: remembers_def)
  then show thesis using that [of s' evs] D(1-3) Op_Delete by simp
next
  case (Op_Cleanup now i)
  then have i: "i < length (caches s)" using ok by simp
  obtain s' evs where B: "cleanup_bucket s now i = Some (s', evs)" "store_inv s'"
    "store_caps s' = store_caps s" "onEvicted s' = onEvicted s"
    "\<forall>k. bidx s' k = bidx s k" "\<forall>k. bidx s k \<noteq> i \<longrightarrow> bucket_of s' k = bucket_of s k"
    "\<forall>k. bidx s k = i \<longrightarrow> sview s' k = (if purge now (bucket_of s k) k then None else sview s k)"
    by (rule cleanup_bucket_spec [OF inv i])
  have "\<forall>k. sview s' k = sview s k \<or> sview s' k = None"
    using B(6,7) by (metis sview_def)
  then show thesis using that [of s' evs] B(1-3) Op_Cleanup by (simp add: remembers_mono)
qed

lemma run_spec:
  assumes "store_inv s" "\<forall>x\<in>set xs. op_ok (length (caches s)) x"
  obtains s' evs where "run s xs = Some (s', evs)" "store_inv s'" "store_caps s' = store_caps s"
    "(\<forall>x\<in>set xs. op_lasting x) \<longrightarrow> remembers (sview s) m \<longrightarrow> remembers (sview s') (foldl note_op m xs)"
  using assms
proof (induction xs arbitrary: s m thesis)
  case Nil
  then show ?case by simp
next
  case (Cons x xs)
  obtain s1 evs where S: "step s x = Some (s1, evs)" "store_inv s1" "store_caps s1 = store_caps s"
    "op_lasting x \<Longrightarrow> remembers (sview s) m \<Longrightarrow> remembers (sview s1) (note_op m x)"
    by (rule step_spec [OF Cons.prems(2), of x m]) (use Cons.prems(3) in auto)
  have "\<forall>x\<in>set xs. op_ok (length (caches s1)) x"
    using Cons.prems(3) length_caps [OF S(3)] by simp
  then obtain s' evs' where R: "run s1 xs = Some (s', evs')" "store_inv s'" "store_caps s' = store_caps s1"
    "(\<forall>x\<in>set xs. op_lasting x) \<longrightarrow> remembers (sview s1) (note_op m x) \<longrightarrow>
       remembers (sview s') (foldl note_op (note_op m x) xs)"
    using Cons.IH [OF _ S(2)] by metis
  show ?case using Cons.prems(1) [of s' "evs @ evs'"] S R by simp
qed

text \<open>For one key, only the writes of that key need a positive expiry.\<close>

fun lasting_for :: "string \<Rightarrow> 'v op \<Rightarrow> bool" where
  "lasting_for k (Op_Set k' v d now) = (k' = k \<longrightarrow> 0 < expiry now d)"
| "lasting_for k _ = True"

lemma step_key:
  assumes inv: "store_inv s" and ok: "op_ok (length (caches s)) x"
    and k: "lasting_for k x" "sview s k = m k \<or> sview s k = None"
  obtains s' evs where "step s x = Some (s', evs)" "store_inv s'" "store_caps s' = store_caps s"
    "sview s' k = note_op m x k \<or> sview s' k = None"
proof -
  define m' where "m' = (sview s)(k := m k)"
  have m': "remembers (sview s) m'" using k(2) by (simp add: m'_def remembers_def)
  have n: "note_op m' x k = note_op m x k" by (cases x) (simp_all add: m'_def)
  obtain s' evs where S: "step s x = Some (s', evs)" "store_inv s'" "store_caps s' = store_caps s"
    "op_lasting x \<longrightarrow> remembers (sview s') (note_op m' x)"
    by (rule step_spec [OF inv ok, where m = m']) (use m' that in blast)
  have "sview s' k = note_op m x k \<or> sview s' k = None"
  proof (cases "op_lasting x")
    case True
    then show ?thesis using S(4) n by (metis remembers_def)
  next
    case False
    then obtain k' v d now where x: "x = Op_Set k' v d now" "k' \<noteq> k" using k(1) by (cases x) auto
    then have "sview s' k = sview s k \<or> sview s' k = None"
      using lru2_store.set_law [OF inv, of k' v d now] S(1) by auto
    then show ?thesis using x k(2) by auto
  qed
  with S(1-3) that show thesis by blast
qed

lemma run_key:
  assumes "store_inv s" "\<forall>x\<in>set xs. op_ok (length (caches s)) x \<and> lasting_for k x"
    and "sview s k = m k \<or> sview s k = None"
  obtains s' evs where "run s xs = Some (s', evs)" "store_inv s'"
    "sview s' k = foldl note_op m xs k \<or> sview s' k = None"
  using assms
proof (induction xs arbitrary: s m thesis)
  case (Cons x xs)
  obtain s1 evs where S: "step s x = Some (s1, evs)" "store_inv s1" "store_caps s1 = store_caps s"
    "sview s1 k = note_op m x k \<or> sview s1 k = None"
    by (rule step_key [where k = k and m = m, OF Cons.prems(2)]) (use Cons.prems(3,4) in auto)
  have "\<forall>x\<in>set xs. op_ok (length (caches s1)) x \<and> lasting_for k x"
    using Cons.prems(3) length_caps [OF S(3)] by simp
  then obtain s' evs' where R: "run s1 xs = Some (s', evs')" "store_inv s'"
    "sview s' k = foldl note_op (note_op m x) xs k \<or> sview s' k = None"
    using Cons.IH [where s = s1 and m = "note_op m x"] S(2,4) by blast
  show ?case using Cons.prems(1) [of s' "evs @ evs'"] S R by simp
qed simp

text \<open>\<open>Clear\<close> is its key collection followed by the execution of one \<open>Delete\<close> per key; a cleanup
  tick is the execution of one bucket cleanup per bucket.\<close>

lemma delete_keys_run: "delete_keys s ks = run s (map Op_Delete ks)"
  by (induction ks arbitrary: s) (auto simp: case_prod_beta split: bind_splits)

lemma cleanup_each_run: "cleanup_each s now is = run s (map (Op_Cleanup now) is)"
  by (induction "is" arbitrary: s) auto

end
