(* ===== verification/Lru2_Properties.thy ===== *)
theory Lru2_Properties
  imports Lru2_Run
begin

text \<open>
  The properties of the two-level cache (\<open>pkg/store/lru2.go\<close>), from the ring of links up to
  executions of the whole store, each with an instance on a concrete cache or store.
\<close>

subsection \<open>Concrete instances\<close>

definition small_options :: options where
  "small_options = NewOptions\<lparr>BucketCount := 1, CapPerBucket := 2, Level2Cap := 2, OnEvicted := True\<rparr>"

definition small_ops :: "nat op list" where
  "small_ops = [Op_Set ''a'' (Some 1) 10 0, Op_Set ''b'' (Some 2) 20 0, Op_Set ''c'' (Some 3) 30 0]"

definition small_store :: "nat lru2" where
  "small_store = fst (the (run (newLRU2Cache small_options) small_ops))"

definition small_cache :: "nat cache" where
  "small_cache = fst (the (put (fst (the (put (Create 2) ''a'' (Some 1) 10 True))) ''b'' (Some 2) 20 True))"

lemma small_options_good: "good_options small_options"
  by code_simp

lemma small_run: "\<exists>evs. run (newLRU2Cache small_options) small_ops = Some (small_store, evs)"
  and small_store_inv: "store_inv small_store"
proof -
  have inv: "store_inv (newLRU2Cache small_options :: nat lru2)"
    by (rule newLRU2Cache_spec [OF small_options_good])
  obtain s evs where R: "run (newLRU2Cache small_options) small_ops = Some (s, evs)" "store_inv s"
    by (rule run_spec [OF inv, of small_ops]) (auto simp: small_ops_def)
  then show "\<exists>evs. run (newLRU2Cache small_options) small_ops = Some (small_store, evs)" "store_inv small_store"
    by (simp_all add: small_store_def)
qed

lemma small_cache_inv: "cache_inv small_cache"
proof -
  have inv: "cache_inv (Create 2 :: nat cache)" by (rule Create_inv) simp_all
  obtain c1 r1 evs1 where P: "put (Create 2) ''a'' (Some (1 :: nat)) 10 True = Some (c1, r1, evs1)" "cache_inv c1"
    using level.put_law [OF inv] by blast
  obtain c2 r2 evs2 where "put c1 ''b'' (Some (2 :: nat)) 20 True = Some (c2, r2, evs2)" "cache_inv c2"
    using level.put_law [OF P(2)] by blast
  then show ?thesis by (simp add: small_cache_def P(1) del: One_nat_def)
qed

lemma small_store_view:
  "sview small_store ''a'' = Some (Some 1, 10)" "sview small_store ''b'' = Some (Some 2, 20)"
  "sview small_store ''c'' = Some (Some 3, 30)" "onEvicted small_store"
  by code_simp+

subsection \<open>Executions\<close>

text \<open>
  C1. No stale reads. In every execution of a store built with options in range (at most 32768 buckets,
  capacities below 65535), whatever interleaving of \<open>Get\<close>, \<open>SetWithExpiration\<close>, \<open>Delete\<close> and bucket cleanups it
  is: if all writes of a key have a positive expiry (a positive duration whose sum with the clock
  fits int64), a following \<open>Get\<close> of the key that reports a hit returns the value last written to it
  (and not deleted since), and that write's expiry has not passed; a miss returns nil. Writes of
  other keys are unrestricted. Without the condition on the writes of the key an older value can
  come back, as \<open>SetWithExpiration_effect\<close> shows.
\<close>
theorem Get_returns_last_write:
  assumes "good_options opts" "\<forall>x\<in>set ops. op_ok (length (caches (newLRU2Cache opts :: 'v lru2))) x"
    and "\<forall>x\<in>set ops. lasting_for k x"
  shows "\<exists>s evs s' v ok evs'. run (newLRU2Cache opts :: 'v lru2) ops = Some (s, evs) \<and>
    Get s k now now' = Some (s', (v, ok), evs') \<and>
    (if ok then \<exists>e. written ops k = Some (v, e) \<and> now < e else v = None)"
proof -
  have r0: "sview (newLRU2Cache opts :: 'v lru2) k = Map.empty k \<or> sview (newLRU2Cache opts :: 'v lru2) k = None"
    by (simp add: newLRU2Cache_spec(2) [OF assms(1)])
  have ok: "\<forall>x\<in>set ops. op_ok (length (caches (newLRU2Cache opts :: 'v lru2))) x \<and> lasting_for k x"
    using assms(2,3) by blast
  obtain s evs where R: "run (newLRU2Cache opts :: 'v lru2) ops = Some (s, evs)" "store_inv s"
    "sview s k = written ops k \<or> sview s k = None"
    by (rule run_key [OF newLRU2Cache_spec(1) [OF assms(1)] ok r0]) (simp add: written_def)
  obtain s' v ok evs' where "Get s k now now' = Some (s', (v, ok), evs')"
    "ok \<longrightarrow> (\<exists>e. sview s k = Some (v, e) \<and> now < e)" "\<not> ok \<longrightarrow> v = None"
    using lru2_store.get_law [OF R(2), of k now now'] by blast
  then show ?thesis using R(1,3) by auto
qed

theorem Get_returns_last_write_witness:
  "\<exists>s evs s' v ok evs'. run (newLRU2Cache small_options :: nat lru2) small_ops = Some (s, evs) \<and>
    Get s ''a'' 5 5 = Some (s', (v, ok), evs') \<and>
    (if ok then \<exists>e. written small_ops ''a'' = Some (v, e) \<and> 5 < e else v = None)"
  by (rule Get_returns_last_write [OF small_options_good]) (code_simp, code_simp)

text \<open>
  C12. Executions never panic: from a well-formed store every sequence of \<open>Get\<close>,
  \<open>SetWithExpiration\<close>, \<open>Delete\<close> and bucket cleanups, whatever the keys, values, durations and
  clock readings, runs to the end, keeps the store invariant and never changes a capacity.
\<close>
theorem run_total:
  assumes "store_inv s" "\<forall>x\<in>set ops. op_ok (length (caches s)) x"
  shows "\<exists>s' evs. run s ops = Some (s', evs) \<and> store_inv s' \<and> store_caps s' = store_caps s"
  by (rule run_spec [OF assms, of Map.empty]) blast

theorem run_total_witness:
  "\<exists>s' evs. run small_store [Op_Get ''a'' 50 50, Op_Cleanup 15 0, Op_Delete ''b''] = Some (s', evs) \<and>
    store_inv s' \<and> store_caps s' = store_caps small_store"
  by (rule run_total [OF small_store_inv]) code_simp

text \<open>
  Read your writes: after \<open>SetWithExpiration\<close> with an expiry in the future, \<open>Get\<close> of that key
  hits and returns the written value as long as neither of its clock readings is past the expiry.
\<close>
lemma Set_then_Get:
  assumes "store_inv s" "0 < expiry now d" "t < expiry now d" "t' < expiry now d"
  shows "\<exists>s' evs s'' evs'. SetWithExpiration s k v d now = Some (s', evs) \<and>
    Get s' k t t' = Some (s'', (v, True), evs')"
  by (rule lru2_store.set_get [OF assms]) blast

lemma Set_then_Get_witness:
  "\<exists>s' evs s'' evs'. SetWithExpiration small_store ''d'' (Some 4) 40 0 = Some (s', evs) \<and>
    Get s' ''d'' 39 39 = Some (s'', (Some 4, True), evs')"
  by (rule Set_then_Get [OF small_store_inv]) (simp_all add: expiry_def int64_def)

text \<open>
  C18. Nothing is dropped silently: when a \<open>SetWithExpiration\<close> or a \<open>Get\<close> of one key costs another
  key its visible value (level 1 overflows into level 2, level 2 overflows), and \<open>OnEvicted\<close> is
  set, then the callback is called with exactly that key and value. In particular an operation
  that calls nothing back leaves every other key as it was.
\<close>
theorem lost_values_are_reported:
  assumes "store_inv s" "onEvicted s" "k' \<noteq> k" "sview s k' = Some (v', e')"
    and "SetWithExpiration s k v d now = Some (s', evs) \<or> Get s k now now' = Some (s', r, evs)"
  shows "sview s' k' = Some (v', e') \<or> sview s' k' = None \<and> (k', v') \<in> set evs"
proof -
  have "stays_or_lost s s' evs k'"
    using assms(5)
  proof
    assume "SetWithExpiration s k v d now = Some (s', evs)"
    then show ?thesis using assms(3) by (rule_tac set_spec [OF assms(1), of k v d now]) simp
  next
    assume "Get s k now now' = Some (s', r, evs)"
    then show ?thesis using assms(3) by (rule_tac get_spec [OF assms(1), of k now now']) simp
  qed
  then show ?thesis using assms(2,4) by (simp add: stays_or_lost_def)
qed

theorem lost_values_are_reported_witness:
  "\<exists>s' evs. SetWithExpiration small_store ''d'' (Some 4) 40 0 = Some (s', evs) \<and>
    (sview s' ''a'' = Some (Some 1, 10) \<or> sview s' ''a'' = None \<and> (''a'', Some 1) \<in> set evs)"
proof -
  obtain s' evs where S: "SetWithExpiration small_store ''d'' (Some 4) 40 0 = Some (s', evs)"
    by (rule set_spec [OF small_store_inv, of "''d''" "Some 4" 40 0])
  have ne: "''a'' \<noteq> ''d''" by simp
  have "SetWithExpiration small_store ''d'' (Some 4) 40 0 = Some (s', evs) \<or>
      Get small_store ''d'' 0 0 = Some (s', (None, False), evs)" using S ..
  from lost_values_are_reported [OF small_store_inv small_store_view(4) ne small_store_view(1) this] S
  show ?thesis by blast
qed

text \<open>
  C28. What \<open>SetWithExpiration\<close> does to its own key: it never panics and keeps the invariant; with
  a positive expiry the key then reads as the new value; with any other (a duration of 0 or less,
  or a sum that overflows \<open>int64\<close>) the write is not visible and the key reads as the older copy of
  level 2, if there was one, or not at all.
\<close>
theorem SetWithExpiration_effect:
  assumes "store_inv s"
  shows "\<exists>s' evs. SetWithExpiration s k v d now = Some (s', evs) \<and> store_inv s' \<and>
    (if 0 < expiry now d then sview s' k = Some (v, expiry now d)
     else sview s' k = view2 (bucket_of s k) k \<or> sview s' k = None)"
  by (rule set_spec [OF assms, of k v d now]) (simp del: not_less)

theorem SetWithExpiration_effect_witness:
  "\<exists>s' evs. SetWithExpiration small_store ''a'' (Some 9) 0 100 = Some (s', evs) \<and> store_inv s' \<and>
    (if 0 < expiry 100 0 then sview s' ''a'' = Some (Some 9, expiry 100 0)
     else sview s' ''a'' = view2 (bucket_of small_store ''a'') ''a'' \<or> sview s' ''a'' = None)"
  by (rule SetWithExpiration_effect [OF small_store_inv])

text \<open>
  C29. What \<open>Get\<close> answers: a live copy in level 1 decides (a miss when its expiry has passed at the
  first clock reading), otherwise a copy in level 2 that both readings find unexpired. The key's
  own visible value survives the call, moved from level 1 to level 2, unless it had expired.
\<close>
theorem Get_effect:
  assumes "store_inv s"
  shows "\<exists>s' evs. Get s k now now' = Some (s',
      (case view1 (bucket_of s k) k of
         Some (v, e) \<Rightarrow> if e \<le> now then (None, False) else (v, True)
       | None \<Rightarrow> (case view2 (bucket_of s k) k of
           Some (v, e) \<Rightarrow> if e \<le> now \<or> e \<le> now' then (None, False) else (v, True)
         | None \<Rightarrow> (None, False))), evs) \<and> store_inv s' \<and>
    (sview s' k = sview s k \<or> sview s' k = None \<and> (\<exists>v e. sview s k = Some (v, e) \<and> e \<le> now))"
proof -
  have "get_answer x1 x2 now now' =
      (case x1 of Some (v, e) \<Rightarrow> if e \<le> now then (None, False) else (v, True)
       | None \<Rightarrow> (case x2 of Some (v, e) \<Rightarrow> if e \<le> now \<or> e \<le> now' then (None, False) else (v, True)
         | None \<Rightarrow> (None, False)))" for x1 x2 :: "('a option \<times> int) option"
    by (auto simp: get_answer_def split: option.split)
  then show ?thesis by (rule_tac get_spec [OF assms, of k now now']) auto
qed

theorem Get_effect_witness:
  "\<exists>s' evs. Get small_store ''b'' 15 15 = Some (s', (Some 2, True), evs) \<and> store_inv s'"
proof -
  have "view1 (bucket_of small_store ''b'') ''b'' = Some (Some 2, 20)" by code_simp
  with Get_effect [OF small_store_inv, of "''b''" 15 15] show ?thesis by auto
qed

text \<open>
  \<open>Delete\<close> reports whether the key was visible, removes it from both levels and touches the
  visible value of no other key.
\<close>
lemma Delete_effect:
  assumes "store_inv s"
  shows "\<exists>s' evs. Delete s k = Some (s', sview s k \<noteq> None, evs) \<and> store_inv s' \<and>
    sview s' = (sview s)(k := None)"
  by (rule delete_spec [OF assms, of k]) blast

lemma Delete_effect_witness:
  "\<exists>s' evs. Delete small_store ''a'' = Some (s', sview small_store ''a'' \<noteq> None, evs) \<and> store_inv s' \<and>
    sview s' = (sview small_store)(''a'' := None)"
  by (rule Delete_effect [OF small_store_inv])

text \<open>
  \<open>Clear\<close> terminates without a panic, leaves no key visible, and \<open>Len\<close> is 0 afterwards.
\<close>
lemma Clear_empties:
  assumes "store_inv s"
  shows "\<exists>s' evs. Clear s = Some (s', evs) \<and> store_inv s' \<and> sview s' = (\<lambda>_. None) \<and> Len s' = Some 0"
proof -
  obtain s' evs where C: "Clear s = Some (s', evs)" "store_inv s'" "\<forall>k. sview s' k = None"
    by (rule clear_spec [OF assms])
  have "sview s' = (\<lambda>_. None)" using C(3) by blast
  with C Len_empty [OF C(2,3)] show ?thesis by blast
qed

lemma Clear_empties_witness:
  "\<exists>s' evs. Clear small_store = Some (s', evs) \<and> store_inv s' \<and> sview s' = (\<lambda>_. None) \<and> Len s' = Some 0"
  by (rule Clear_empties [OF small_store_inv])

text \<open>
  C30. One tick of \<open>cleanupLoop\<close> removes exactly the keys that have an expired copy in one of the
  two levels (a key with an expired copy in level 2 loses a fresh copy in level 1 too) and leaves
  the visible value of every other key; no panic, no bucket skipped.
\<close>
theorem cleanup_tick_effect:
  assumes "store_inv s"
  shows "\<exists>s' evs. cleanup_tick s now = Some (s', evs) \<and> store_inv s' \<and>
    (\<forall>k. sview s' k =
      (if expired now (view1 (bucket_of s k) k) \<or> expired now (view2 (bucket_of s k) k)
       then None else sview s k))"
  by (rule cleanup_spec [OF assms, of now]) (auto simp: purge_def)

theorem cleanup_tick_effect_witness:
  "\<exists>s' evs. cleanup_tick small_store 15 = Some (s', evs) \<and> store_inv s' \<and>
    sview s' ''a'' = None \<and> sview s' ''b'' = Some (Some 2, 20)"
proof -
  obtain s' evs where C: "cleanup_tick small_store 15 = Some (s', evs)" "store_inv s'"
    "\<forall>k. sview s' k = (if expired 15 (view1 (bucket_of small_store k) k) \<or>
       expired 15 (view2 (bucket_of small_store k) k) then None else sview small_store k)"
    using cleanup_tick_effect [OF small_store_inv, of 15] by blast
  moreover have "expired 15 (view2 (bucket_of small_store ''a'') ''a'')"
    "\<not> expired 15 (view1 (bucket_of small_store ''b'') ''b'')"
    "\<not> expired 15 (view2 (bucket_of small_store ''b'') ''b'')" by code_simp+
  ultimately show ?thesis using small_store_view(2) by auto
qed

text \<open>
  C31. \<open>Len\<close> counts the live entries of all levels and is bounded by the sum of the capacities, so
  the store never grows past the size it was built with.
\<close>
theorem Len_counts_and_is_bounded:
  assumes "store_inv s"
  shows "Len s = Some (int (\<Sum>(c0, c1)\<leftarrow>caches s.
      length (live_list (entries_of c0)) + length (live_list (entries_of c1)))) \<and>
    (\<Sum>(c0, c1)\<leftarrow>caches s. length (live_list (entries_of c0)) + length (live_list (entries_of c1)))
      \<le> (\<Sum>(c0, c1)\<leftarrow>caches s. capacity c0 + capacity c1)"
proof -
  have "bucket_len = (\<lambda>(c0, c1 :: 'a cache).
      length (live_list (entries_of c0)) + length (live_list (entries_of c1)))"
    by (simp add: fun_eq_iff bucket_len_def)
  moreover have "(\<lambda>(c1, c2). c1 + c2) \<circ> bucket_caps = (\<lambda>(c0, c1 :: 'a cache). capacity c0 + capacity c1)"
    by (simp add: fun_eq_iff bucket_caps_def)
  ultimately show ?thesis
    using Len_spec [OF assms] Len_bound [OF assms] by (simp add: store_caps_def del: sum_list_addf)
qed

theorem Len_counts_and_is_bounded_witness:
  "Len small_store = Some 3 \<and> (\<Sum>(c0, c1)\<leftarrow>caches small_store. capacity c0 + capacity c1) = 4"
proof -
  have "(\<Sum>(c0, c1)\<leftarrow>caches small_store.
      length (live_list (entries_of c0)) + length (live_list (entries_of c1))) = 3"
    "(\<Sum>(c0, c1)\<leftarrow>caches small_store. capacity c0 + capacity c1) = 4" by code_simp+
  with Len_counts_and_is_bounded [OF small_store_inv] show ?thesis by simp
qed

text \<open>
  \<open>newLRU2Cache\<close>: with at most 32768 buckets and level capacities below 65535 (0 meaning the
  default) the new store is well formed and empty, and it has the least power of two of buckets
  that is not below the configured count.
\<close>
lemma newLRU2Cache_well_formed:
  assumes "good_options opts"
  shows "store_inv (newLRU2Cache opts :: 'v lru2) \<and> sview (newLRU2Cache opts :: 'v lru2) = (\<lambda>_. None)"
  using newLRU2Cache_spec [OF assms] by blast

lemma newLRU2Cache_well_formed_witness:
  "store_inv (newLRU2Cache NewOptions :: nat lru2) \<and> sview (newLRU2Cache NewOptions :: nat lru2) = (\<lambda>_. None)"
  by (rule newLRU2Cache_well_formed) code_simp

text \<open>
  The bucket mask: for every positive \<open>uint16\<close>, \<open>maskOfNextPowOf2\<close> returns \<open>2 ^ n - 1\<close> where
  \<open>2 ^ n\<close> is the least power of two that is not below the argument.
\<close>
lemma maskOfNextPowOf2_least:
  assumes "0 < x"
  shows "\<exists>n\<le>16. unat (maskOfNextPowOf2 x) = 2 ^ n - 1 \<and> unat x \<le> 2 ^ n \<and> (\<forall>j<n. 2 ^ j < unat x)"
  by (rule mask_least [OF assms]) (metis not_le)

lemma maskOfNextPowOf2_least_witness:
  "\<exists>n\<le>16. unat (maskOfNextPowOf2 100) = 2 ^ n - 1 \<and> unat (100 :: u16) \<le> 2 ^ n \<and> (\<forall>j<n. 2 ^ j < unat (100 :: u16))"
  by (rule maskOfNextPowOf2_least) simp

text \<open>
  More than 32768 buckets: the mask is 65535, \<open>mask + 1\<close> wraps to 0 in \<open>uint16\<close>, the store
  has no bucket at all and every \<open>Get\<close>, \<open>SetWithExpiration\<close> and \<open>Delete\<close> panics.
\<close>
lemma too_many_buckets_panic:
  assumes "32768 < BucketCount opts"
  shows "caches (newLRU2Cache opts :: 'v lru2) = [] \<and> Get (newLRU2Cache opts :: 'v lru2) k now now' = None \<and>
    SetWithExpiration (newLRU2Cache opts) k (v :: 'v option) d now = None \<and>
    Delete (newLRU2Cache opts :: 'v lru2) k = None"
proof -
  have b: "BucketCount opts \<noteq> 0" "0 < BucketCount opts" using assms by (auto simp: word_less_nat_alt)
  have u: "32768 < unat (BucketCount opts)" using assms by (simp add: word_less_nat_alt)
  obtain n where n: "n \<le> 16" "unat (maskOfNextPowOf2 (BucketCount opts)) = 2 ^ n - 1"
    "unat (BucketCount opts) \<le> 2 ^ n" "\<forall>j. unat (BucketCount opts) \<le> 2 ^ j \<longrightarrow> n \<le> j"
    by (rule mask_least [OF b(2)])
  have "(2 :: nat) ^ 15 < 2 ^ n" using u n(3) by simp
  then have "15 < n" by (rule power_less_imp_less_exp [rotated]) simp
  with n(1) have "n = 16" by simp
  then have "maskOfNextPowOf2 (BucketCount opts) = 65535"
    using n(2) \<open>n = 16\<close> by (simp add: word_unat_eq_iff)
  then have "caches (newLRU2Cache opts :: 'v lru2) = []"
    using b by (simp add: newLRU2Cache_def Let_def)
  then show ?thesis
    by (simp add: Get_def SetWithExpiration_def Delete_def on_bucket_def slice_get_def index_i32_def)
qed

lemma too_many_buckets_panic_witness:
  "caches (newLRU2Cache (NewOptions\<lparr>BucketCount := 32769\<rparr>) :: nat lru2) = [] \<and>
   Get (newLRU2Cache (NewOptions\<lparr>BucketCount := 32769\<rparr>) :: nat lru2) ''a'' 0 0 = None \<and>
   SetWithExpiration (newLRU2Cache (NewOptions\<lparr>BucketCount := 32769\<rparr>)) ''a'' (Some (1 :: nat)) 1 0 = None \<and>
   Delete (newLRU2Cache (NewOptions\<lparr>BucketCount := 32769\<rparr>) :: nat lru2) ''a'' = None"
  by (rule too_many_buckets_panic) (simp add: NewOptions_def)

subsection \<open>One level\<close>

text \<open>
  C4. \<open>put\<close> on the array-linked level does what it does on the list of entries in recency order:
  a known key is overwritten and moved to the front; a new key goes to the front, and when the
  level is full the last entry is overwritten and, if it was live, reported to the callback.
  The invariant and the capacity are kept and nothing panics.
\<close>
theorem put_refines:
  assumes "cache_inv c"
  shows "\<exists>c' r evs. put c k v e cb = Some (c', r, evs) \<and> cache_inv c' \<and> capacity c' = capacity c \<and>
    (entries_of c', r, evs) = lru_put (capacity c) (entries_of c) k v e cb"
  by (rule level.put_law [OF assms])

theorem put_refines_witness:
  "\<exists>c' r evs. put small_cache ''c'' (Some 3) 30 True = Some (c', r, evs) \<and> cache_inv c' \<and>
    entries_of c' = [(''c'', Some 3, 30), (''b'', Some 2, 20)] \<and> evs = [(''a'', Some 1)]"
proof -
  have "lru_put (capacity small_cache) (entries_of small_cache) ''c'' (Some 3) 30 True =
      ([(''c'', Some 3, 30), (''b'', Some 2, 20)], 1, [(''a'', Some 1)])" by code_simp
  with put_refines [OF small_cache_inv, of "''c''" "Some 3" 30 True] show ?thesis by auto
qed

text \<open>
  \<open>get\<close> on a level finds an entry, live or not, and moves it to the front of the recency order.
\<close>
lemma get_refines:
  assumes "cache_inv c"
  shows "\<exists>c' nd st. get c k = Some (c', nd, st) \<and> cache_inv c' \<and> capacity c' = capacity c \<and>
    (entries_of c', map_option entry_of nd, st) = lru_get (entries_of c) k"
  by (rule level.get_law [OF assms])

lemma get_refines_witness:
  "\<exists>c' nd st. get small_cache ''a'' = Some (c', nd, st) \<and> cache_inv c' \<and>
    entries_of c' = [(''a'', Some 1, 10), (''b'', Some 2, 20)]"
proof -
  have "fst (lru_get (entries_of small_cache) ''a'') = [(''a'', Some 1, 10), (''b'', Some 2, 20)]" by code_simp
  with get_refines [OF small_cache_inv, of "''a''"] show ?thesis by (metis fst_conv)
qed

text \<open>
  \<open>del\<close> on a level is a lazy deletion: a live entry keeps its slot with expiry 0 and goes to the
  back of the recency order, to be overwritten next; anything else is left as it is.
\<close>
lemma del_refines:
  assumes "cache_inv c"
  shows "\<exists>c' nd st e. del c k = Some (c', nd, st, e) \<and> cache_inv c' \<and> capacity c' = capacity c \<and>
    (entries_of c', map_option entry_of nd, st, e) = lru_del (entries_of c) k"
  by (rule level.del_law [OF assms])

lemma del_refines_witness:
  "\<exists>c' nd st e. del small_cache ''b'' = Some (c', nd, st, e) \<and> cache_inv c' \<and>
    entries_of c' = [(''a'', Some 1, 10), (''b'', Some 2, 0)]"
proof -
  have "fst (lru_del (entries_of small_cache) ''b'') = [(''a'', Some 1, 10), (''b'', Some 2, 0)]" by code_simp
  with del_refines [OF small_cache_inv, of "''b''"] show ?thesis by (metis fst_conv)
qed

text \<open>
  C27. \<open>walk\<close> terminates and calls the walker on the live entries, from most to least recently used,
  until the walker says stop.
\<close>
theorem walk_refines:
  assumes "cache_inv c"
  shows "walk c w s = Some (lru_walk (entries_of c) w s)"
  by (rule walk_entries [OF assms])

theorem walk_refines_witness:
  "walk small_cache collect_all [] = Some [''b'', ''a'']"
proof -
  have "lru_walk (entries_of small_cache) collect_all [] = [''b'', ''a'']" by code_simp
  with walk_refines [OF small_cache_inv, of collect_all "[]"] show ?thesis by simp
qed

text \<open>
  \<open>adjust\<close> on a ring through the sentinel 0 moves a node to the front (\<open>adjust idx p n\<close>) or to
  the back (\<open>adjust idx n p\<close>), keeps the order of all the others, and stays inside the array.
\<close>
lemma adjust_moves:
  assumes "seg (lk d) Prev Next 0 xs 0" "distinct xs" "0 \<notin> set xs" "x \<in> set xs"
    and "\<forall>i\<in>insert 0 (set xs). unat i < length d"
  shows "(\<exists>d'. adjust d x Prev Next = Some d' \<and> length d' = length d \<and>
      seg (lk d') Prev Next 0 (x # remove1 x xs) 0) \<and>
    (\<exists>d'. adjust d x Next Prev = Some d' \<and> length d' = length d \<and>
      seg (lk d') Prev Next 0 (remove1 x xs @ [x]) 0)"
proof
  show "\<exists>d'. adjust d x Prev Next = Some d' \<and> length d' = length d \<and>
      seg (lk d') Prev Next 0 (x # remove1 x xs) 0"
    by (rule adjust_front [OF assms(1-4)]) (use assms(5) in blast)+
  show "\<exists>d'. adjust d x Next Prev = Some d' \<and> length d' = length d \<and>
      seg (lk d') Prev Next 0 (remove1 x xs @ [x]) 0"
    by (rule adjust_back [OF assms(1-4)]) (use assms(5) in blast)+
qed

lemma adjust_moves_witness:
  "\<exists>d'. adjust [(3, 1), (0, 2), (1, 3), (2, 0)] 2 Prev Next = Some d' \<and>
    seg (lk d') Prev Next 0 [2, 1, 3] 0"
proof -
  have "seg (lk [(3, 1), (0, 2), (1, 3), (2, 0)]) Prev Next 0 [1, 2, 3] 0"
    "distinct [1 :: u16, 2, 3]" "(0 :: u16) \<notin> set [1, 2, 3]" "(2 :: u16) \<in> set [1, 2, 3]"
    "\<forall>i\<in>insert 0 (set [1 :: u16, 2, 3]). unat i < length [(3, 1), (0, 2), (1, 3), (2 :: u16, 0 :: u16)]"
    "remove1 2 [1 :: u16, 2, 3] = [1, 3]"
    by (simp_all add: lk_def)
  from adjust_moves [OF this(1-5)] this(6) show ?thesis by auto
qed

text \<open>
  Capacities at the edge: a level built with capacity 65535 has no link at all, because
  \<open>cap + 1\<close> wraps to 0 in \<open>uint16\<close>, and a level of capacity 0 no node: on both, every \<open>put\<close>
  panics.
\<close>
lemma edge_capacities_panic:
  "put (Create 65535) k v e cb = None \<and> put (Create 0) k v e cb = None"
proof -
  let ?c = "Create 65535 :: 'a cache" and ?d = "Create 0 :: 'a cache"
  have "c_dlnk ?c = []" "c_m ?d = []" "c_last ?c = 0" "c_last ?d = 0"
    "c_hmap ?c = []" "c_hmap ?d = []" "length (c_m ?c) = 65535"
    by (simp_all add: Create_def)
  then show ?thesis by (simp add: put_def lread_def lwrite_def slice_get_def)
qed

end
