(* ===== verification/Lru2_Clock.thy ===== *)
theory Lru2_Clock
  imports Prelude
begin

text \<open>
  The internal clock of \<open>pkg/store/lru2.go\<close>: the package variable \<open>clock\<close>, \<open>Now\<close> and the
  goroutine that \<open>init\<close> starts. The wall clock is outside of the program: a step of the goroutine
  carries the reading it takes. Sleeping is where the goroutine gives up control, so its body is
  cut there: a calibration stores the wall clock, the nine sleeps that follow each end with an
  addition of 100ms, and a tenth ends the round.
\<close>

subsection \<open>State and steps\<close>

definition tick_ns :: int where
  "tick_ns = 100 * 1000000"

record clock_state =
  clock :: int
  clock_i :: nat

definition clock_start :: "int \<Rightarrow> clock_state" where
  "clock_start wall = \<lparr>clock = wall, clock_i = 9\<rparr>"

text \<open>\<open>Now\<close> is the atomic load.\<close>

definition Now :: "clock_state \<Rightarrow> int" where
  "Now c = clock c"

text \<open>One wake-up of the goroutine at wall time \<open>wall\<close>: in the inner loop it advances the clock,
  after the last iteration and its sleep it starts the next round with a calibration.\<close>

definition clock_step :: "int \<Rightarrow> clock_state \<Rightarrow> clock_state" where
  "clock_step wall c =
     (if clock_i c < 9 then \<lparr>clock = int64 (clock c + tick_ns), clock_i = clock_i c + 1\<rparr>
      else \<lparr>clock = wall, clock_i = 0\<rparr>)"

definition clock_run :: "int list \<Rightarrow> clock_state \<Rightarrow> clock_state" where
  "clock_run walls c = fold clock_step walls c"

subsection \<open>Drift\<close>

text \<open>The wake-ups of one goroutine: consecutive wall readings are at least a sleep apart and at most
  \<open>late\<close> longer.\<close>

fun wakeups :: "int \<Rightarrow> int \<Rightarrow> int list \<Rightarrow> bool" where
  "wakeups late t [] = True"
| "wakeups late t (u # us) \<longleftrightarrow> t + tick_ns \<le> u \<and> u \<le> t + tick_ns + late \<and> wakeups late u us"

lemma clock_run_simps [simp]:
  "clock_run [] c = c" "clock_run (w # ws) c = clock_run ws (clock_step w c)"
  by (simp_all add: clock_run_def)

text \<open>\<open>wall\<close> is the wall time of the last wake-up: right after it the clock lags it by the lateness
  accumulated since the calibration.\<close>

definition in_step :: "int \<Rightarrow> int \<Rightarrow> clock_state \<Rightarrow> bool" where
  "in_step late wall c \<longleftrightarrow> clock_i c \<le> 9 \<and> clock c \<le> wall \<and> wall \<le> clock c + int (clock_i c) * late"

lemma in_step_start: "in_step late wall \<lparr>clock = wall, clock_i = 0\<rparr>"
  by (simp add: in_step_def)

lemma in_step_clock_step:
  assumes "in_step late t c" "t + tick_ns \<le> u" "u \<le> t + tick_ns + late" "0 \<le> clock c" "u < 2 ^ 63"
  shows "in_step late u (clock_step u c)" "clock c \<le> clock (clock_step u c)"
proof -
  have "int64 (clock c + tick_ns) = clock c + tick_ns"
    using assms by (intro int64_id) (simp_all add: in_step_def tick_ns_def)
  then show "in_step late u (clock_step u c)" "clock c \<le> clock (clock_step u c)"
    using assms by (auto simp: in_step_def clock_step_def tick_ns_def algebra_simps)
qed

lemma wakeups_last: "wakeups late t us \<Longrightarrow> t \<le> last (t # us)"
  by (induction us arbitrary: t) (auto simp: tick_ns_def split: if_splits, fastforce)

lemma clock_run_in_step:
  assumes "in_step late t c" "wakeups late t us" "0 \<le> clock c" "last (t # us) < 2 ^ 63"
  shows "in_step late (last (t # us)) (clock_run us c) \<and> clock c \<le> clock (clock_run us c)"
  using assms
proof (induction us arbitrary: t c)
  case (Cons u us)
  have u: "u < 2 ^ 63" using Cons.prems(2,4) wakeups_last [of late u us] by simp
  have s: "in_step late u (clock_step u c)" "clock c \<le> clock (clock_step u c)"
    using in_step_clock_step [OF Cons.prems(1) _ _ Cons.prems(3) u] Cons.prems(2) by simp_all
  then show ?case using Cons.IH [OF s(1)] Cons.prems by fastforce
qed simp

text \<open>Between two wake-ups the variable stands still while the wall clock \<open>x\<close> runs on until the next
  one is due.\<close>

lemma in_step_between:
  assumes "in_step late wall c" "0 \<le> late" "wall \<le> x" "x \<le> wall + tick_ns + late"
  shows "clock c \<le> x \<and> x \<le> clock c + 10 * late + tick_ns"
proof -
  have "int (clock_i c) * late \<le> 9 * late" using assms(1,2) by (intro mult_right_mono) (simp_all add: in_step_def)
  then show ?thesis using assms unfolding in_step_def by linarith
qed

text \<open>
  C34. The cached clock stays close to the wall clock, at every moment: if the wall clock does not jump,
  times are nonnegative and below \<open>2 ^ 63\<close>, and the goroutine wakes up at least 100ms and at most
  100ms + \<open>late\<close> after the wake-up before (the first one being the first calibration), then at any
  moment \<open>x\<close> from the last wake-up until the next one is due \<open>Now\<close> is not ahead of the wall clock, at
  most 100ms and ten times \<open>late\<close> behind it, and not below the first calibration.
\<close>
theorem Now_drift:
  assumes "0 \<le> t" "0 \<le> late" "wakeups late t us" "last (t # us) < 2 ^ 63"
    and "last (t # us) \<le> x" "x \<le> last (t # us) + tick_ns + late"
  shows "Now (clock_run (t # us) (clock_start w)) \<le> x \<and>
    x \<le> Now (clock_run (t # us) (clock_start w)) + 10 * late + tick_ns \<and>
    t \<le> Now (clock_run (t # us) (clock_start w))"
proof -
  let ?c = "\<lparr>clock = t, clock_i = 0\<rparr>"
  have c: "clock_run (t # us) (clock_start w) = clock_run us ?c"
    by (simp add: clock_start_def clock_step_def)
  have r: "in_step late (last (t # us)) (clock_run us ?c)" "t \<le> clock (clock_run us ?c)"
    using clock_run_in_step [OF in_step_start assms(3) _ assms(4)] assms(1) by simp_all
  show ?thesis using in_step_between [OF r(1) assms(2,5,6)] r(2) unfolding c Now_def by blast
qed

theorem Now_drift_witness:
  "Now (clock_run [1000, 100001000, 200002000] (clock_start 0)) = 200001000 \<and>
   250000000 \<le> Now (clock_run [1000, 100001000, 200002000] (clock_start 0)) + 10 * 1000 + 100000000"
  using Now_drift [of 1000 1000 "[100001000, 200002000]" 250000000 0]
  by (simp add: tick_ns_def Now_def clock_start_def clock_step_def int64_def)

end
