(* ===== verification/Go_Std.thy ===== *)
theory Go_Std
  imports Prelude "HOL-Library.Signed_Division"
begin

text \<open>
  The functions of Go's standard library that the hash ring and its etcd synchronisation call, as
  their documentation defines them: \<open>sort.Search\<close> (with the loop of its implementation),
  \<open>strings.TrimPrefix\<close>, \<open>strconv.ParseInt\<close> in base 10, \<open>fmt.Sprintf\<close> of \<open>%d\<close>
  and \<open>crc32.ChecksumIEEE\<close>.
\<close>

subsection \<open>Binary search\<close>

function search_from :: "(nat \<Rightarrow> bool) \<Rightarrow> nat \<Rightarrow> nat \<Rightarrow> nat" where
  "search_from f i j =
     (if i < j then
        let h = (i + j) div 2
        in if \<not> f h then search_from f (h + 1) j else search_from f i h
      else i)"
  by pat_completeness auto
termination by (relation "measure (\<lambda>(f, i, j). j - i)") auto

declare search_from.simps [simp del]

definition sort_Search :: "nat \<Rightarrow> (nat \<Rightarrow> bool) \<Rightarrow> nat" where
  "sort_Search n f = search_from f 0 n"

text \<open>On a predicate that stays true once it is true, the search returns its first index, or \<open>n\<close>.\<close>

definition first_from :: "nat \<Rightarrow> (nat \<Rightarrow> bool) \<Rightarrow> nat \<Rightarrow> bool" where
  "first_from n f r \<longleftrightarrow> r \<le> n \<and> (\<forall>a<r. \<not> f a) \<and> (\<forall>a. r \<le> a \<longrightarrow> a < n \<longrightarrow> f a)"

lemma search_from_first:
  assumes "\<forall>a b. a \<le> b \<longrightarrow> b < n \<longrightarrow> f a \<longrightarrow> f b" "i \<le> j" "j \<le> n" "\<forall>a<i. \<not> f a"
    and "\<forall>a. j \<le> a \<longrightarrow> a < n \<longrightarrow> f a"
  shows "first_from n f (search_from f i j)"
  using assms
proof (induction f i j rule: search_from.induct)
  case (1 f i j)
  show ?case
  proof (cases "i < j")
    case False
    then have "search_from f i j = i" "i = j" using "1.prems"(2) by (simp_all add: search_from.simps)
    then show ?thesis using "1.prems" by (simp add: first_from_def)
  next
    case True
    let ?h = "(i + j) div 2"
    have h: "i \<le> ?h" "?h < j" using True by auto
    show ?thesis
    proof (cases "f ?h")
      case f: True
      have "\<forall>a. ?h \<le> a \<longrightarrow> a < n \<longrightarrow> f a" using "1.prems"(1) f by blast
      then have "first_from n f (search_from f i ?h)"
        using "1.IH"(2) [OF True refl] f h "1.prems" by simp
      then show ?thesis using True f by (simp add: search_from.simps [of f i j])
    next
      case f: False
      have "\<not> f a" if "a < ?h + 1" for a
        using f "1.prems"(1,3) h that by (metis Suc_eq_plus1 less_Suc_eq_le less_le_trans)
      then have "first_from n f (search_from f (?h + 1) j)"
        using "1.IH"(1) [OF True refl f] h "1.prems" by simp
      then show ?thesis using True f by (simp add: search_from.simps [of f i j])
    qed
  qed
qed

lemma sort_Search_first:
  "\<forall>a b. a \<le> b \<longrightarrow> b < n \<longrightarrow> f a \<longrightarrow> f b \<Longrightarrow> first_from n f (sort_Search n f)"
  unfolding sort_Search_def by (rule search_from_first) auto

text \<open>In a sorted list the search for the first element that is at least \<open>x\<close> splits it in two.\<close>

definition below :: "int \<Rightarrow> int list \<Rightarrow> int list" where
  "below x xs = takeWhile (\<lambda>y. y < x) xs"

lemma sorted_Search:
  assumes "sorted xs"
  shows "sort_Search (length xs) (\<lambda>i. xs ! i \<ge> x) = length (below x xs)"
proof -
  let ?r = "sort_Search (length xs) (\<lambda>i. xs ! i \<ge> x)"
  have "\<forall>a b. a \<le> b \<longrightarrow> b < length xs \<longrightarrow> xs ! a \<ge> x \<longrightarrow> xs ! b \<ge> x"
    using assms by (meson order_trans sorted_nth_mono)
  then have r: "first_from (length xs) (\<lambda>i. xs ! i \<ge> x) ?r" by (rule sort_Search_first)
  have nth: "xs ! i < x" if "i < length (below x xs)" for i
    using that nth_mem [OF that] takeWhile_nth [of i "\<lambda>y. y < x" xs] set_takeWhileD [of "xs ! i" "\<lambda>y. y < x" xs]
    by (simp add: below_def)
  have stop: "length (below x xs) < length xs \<Longrightarrow> x \<le> xs ! length (below x xs)"
    using nth_length_takeWhile [of "\<lambda>y. y < x" xs] by (simp add: below_def)
  have "length (below x xs) \<le> length xs" by (simp add: below_def length_takeWhile_le)
  then have "\<not> ?r < length (below x xs)" using r nth unfolding first_from_def
    by (metis le_refl less_le_trans not_le)
  moreover have "\<not> length (below x xs) < ?r"
    using r stop unfolding first_from_def by (meson less_le_trans)
  ultimately show ?thesis by linarith
qed

subsection \<open>Strings\<close>

definition trim_prefix :: "string \<Rightarrow> string \<Rightarrow> string" where
  "trim_prefix s p = (if take (length p) s = p then drop (length p) s else s)"

text \<open>Decimal digits, most significant first; \<open>%d\<close> of a number that is not negative.\<close>

definition digit :: "nat \<Rightarrow> char" where
  "digit d = char_of (48 + d)"

fun dec :: "nat \<Rightarrow> string" where
  "dec n = (if n < 10 then [digit n] else dec (n div 10) @ [digit (n mod 10)])"

declare dec.simps [simp del]

text \<open>\<open>strconv.ParseInt (s, 10, 64)\<close>: an optional sign, then at least one digit and nothing else;
  a value outside of \<open>int64\<close> is an error as well.\<close>

definition digit_value :: "char \<Rightarrow> nat option" where
  "digit_value c = (let n = of_char c in if 48 \<le> n \<and> n \<le> 57 then Some (n - 48) else None)"

fun parse_digits :: "nat \<Rightarrow> string \<Rightarrow> nat option" where
  "parse_digits acc [] = Some acc"
| "parse_digits acc (c # cs) = (case digit_value c of Some d \<Rightarrow> parse_digits (10 * acc + d) cs | None \<Rightarrow> None)"

definition ParseInt :: "string \<Rightarrow> int option" where
  "ParseInt s =
     (let (neg, ds) = (case s of c # cs \<Rightarrow>
              if c = CHR ''-'' then (True, cs) else if c = CHR ''+'' then (False, cs) else (False, s)
            | [] \<Rightarrow> (False, s))
      in if ds = [] then None
         else case parse_digits 0 ds of
             None \<Rightarrow> None
           | Some n \<Rightarrow>
               if neg then (if int n \<le> 2 ^ 63 then Some (- int n) else None)
               else (if int n < 2 ^ 63 then Some (int n) else None))"

lemma digit_digit_value: "d < 10 \<Longrightarrow> digit_value (digit d) = Some d"
  by (simp add: digit_value_def digit_def Let_def)

lemma parse_digits_append:
  "parse_digits acc (xs @ ys) = (case parse_digits acc xs of Some n \<Rightarrow> parse_digits n ys | None \<Rightarrow> None)"
  by (induction acc xs rule: parse_digits.induct) (auto split: option.split)

lemma dec_small: "n < 10 \<Longrightarrow> dec n = [digit n]"
  and dec_large: "\<not> n < 10 \<Longrightarrow> dec n = dec (n div 10) @ [digit (n mod 10)]"
  by (simp_all add: dec.simps [of n])

lemma parse_dec: "parse_digits 0 (dec n) = Some n"
proof (induction n rule: dec.induct)
  case (1 n)
  then show ?case
    by (cases "n < 10") (simp_all add: dec_small dec_large parse_digits_append digit_digit_value)
qed

lemma dec_inj: "dec m = dec n \<longleftrightarrow> m = n"
  by (metis option.inject parse_dec)

lemma digit_sign: "d < 10 \<Longrightarrow> digit d \<noteq> CHR ''-'' \<and> digit d \<noteq> CHR ''+''"
proof -
  assume "d < 10"
  then have "digit_value (digit d) = Some d" by (rule digit_digit_value)
  moreover have "digit_value CHR ''-'' = None" "digit_value CHR ''+'' = None" by code_simp+
  ultimately show ?thesis by force
qed

lemma dec_first: "\<exists>d cs. dec n = digit d # cs \<and> d < 10"
proof (induction n rule: dec.induct)
  case (1 n)
  then show ?case by (cases "n < 10") (auto simp: dec_small dec_large)
qed

lemma dec_no_dash: "CHR ''-'' \<notin> set (dec n)"
proof (induction n rule: dec.induct)
  case (1 n)
  then show ?case using digit_sign [of n] digit_sign [of "n mod 10"]
    by (cases "n < 10") (auto simp: dec_small dec_large)
qed

text \<open>Parsing what \<open>%d\<close> prints gives the number back.\<close>

definition show_int :: "int \<Rightarrow> string" where
  "show_int i = (if i < 0 then CHR ''-'' # dec (nat (- i)) else dec (nat i))"

lemma ParseInt_show:
  assumes "- (2 ^ 63) \<le> i" "i < 2 ^ 63"
  shows "ParseInt (show_int i) = Some i"
proof -
  obtain d cs where d: "dec (nat i) = digit d # cs" "d < 10" using dec_first by blast
  have ne: "dec m \<noteq> []" for m using dec_first [of m] by auto
  show ?thesis
    using assms d digit_sign [OF d(2)] parse_dec [of "nat i"] parse_dec [of "nat (- i)"] ne
    by (auto simp: ParseInt_def show_int_def)
qed

subsection \<open>CRC-32\<close>

definition crc32_bit :: "32 word \<Rightarrow> 32 word" where
  "crc32_bit c = (if bit c 0 then drop_bit 1 c XOR 0xEDB88320 else drop_bit 1 c)"

definition crc32_byte :: "32 word \<Rightarrow> char \<Rightarrow> 32 word" where
  "crc32_byte c b = (crc32_bit ^^ 8) (c XOR of_char b)"

definition ChecksumIEEE :: "string \<Rightarrow> 32 word" where
  "ChecksumIEEE s = NOT (foldl crc32_byte (NOT 0) s)"

end
