(* ===== verification/Go_Float.thy ===== *)
theory Go_Float
  imports Main "HOL-Library.Log_Nat"
begin

text \<open>
  Go's float64 arithmetic. A finite float64 is the rational number it stands for. An operation
  rounds the exact result to 53 significant bits, ties to even; the exponent range is not modelled,
  so this is the operation for results that are 0 or of a magnitude between \<open>2 ^ - 1022\<close> and
  \<open>2 ^ 1023\<close>, which holds for every quotient of two \<open>int64\<close>. The lemmas say that rounding is
  monotone on positive numbers and exact on integers below \<open>2 ^ 53\<close>.
\<close>

definition round_half_even :: "rat \<Rightarrow> int" where
  "round_half_even x =
     (let f = \<lfloor>x\<rfloor>; d = x - of_int f
      in if d < 1 / 2 then f else if 1 / 2 < d then f + 1 else if even f then f else f + 1)"

text \<open>\<open>ilog2 x\<close> is the exponent of the binade of a positive \<open>x\<close>.\<close>

definition ilog2 :: "rat \<Rightarrow> int" where
  "ilog2 x =
     (let (a, b) = quotient_of x; e = bitlen a - bitlen b
      in if x < 2 powi e then e - 1 else e)"

definition f64 :: "rat \<Rightarrow> rat" where
  "f64 x = (if x = 0 then 0
            else let u = 2 powi (ilog2 \<bar>x\<bar> - 52) in of_int (round_half_even (x / u)) * u)"

definition f64_of_int :: "int \<Rightarrow> rat" where
  "f64_of_int i = f64 (of_int i)"

definition f64_div :: "rat \<Rightarrow> rat \<Rightarrow> rat" where
  "f64_div x y = f64 (x / y)"

subsection \<open>Rounding to an integer\<close>

lemma round_half_even_near: "\<lfloor>x\<rfloor> \<le> round_half_even x" "round_half_even x \<le> \<lfloor>x\<rfloor> + 1"
  by (simp_all add: round_half_even_def Let_def)

lemma round_half_even_mono:
  assumes "x \<le> y"
  shows "round_half_even x \<le> round_half_even y"
proof (cases "\<lfloor>x\<rfloor> = \<lfloor>y\<rfloor>")
  case True
  then show ?thesis using assms by (auto simp: round_half_even_def Let_def)
next
  case False
  then have "\<lfloor>x\<rfloor> + 1 \<le> \<lfloor>y\<rfloor>" using floor_mono [OF assms] by linarith
  then show ?thesis using round_half_even_near [of x] round_half_even_near [of y] by linarith
qed

lemma round_half_even_int [simp]: "round_half_even (of_int n) = n"
  by (simp add: round_half_even_def)

subsection \<open>The binade of a positive number\<close>

lemma p2_add: "(2 :: rat) powi (m + n) = 2 powi m * 2 powi n"
  by (rule power_int_add) simp

lemma p2_diff: "(2 :: rat) powi (m - n) = 2 powi m / 2 powi n"
  by (rule power_int_diff) simp

lemma p2_less_iff: "(2 :: rat) powi m < 2 powi n \<longleftrightarrow> m < n"
proof
  show "m < n \<Longrightarrow> (2 :: rat) powi m < 2 powi n" by (rule power_int_strict_increasing) simp_all
  show "(2 :: rat) powi m < 2 powi n \<Longrightarrow> m < n"
    using power_int_increasing [of n m "2 :: rat"] by (meson not_le one_le_numeral)
qed

lemma bitlen_powi:
  assumes "0 < a"
  shows "2 powi (bitlen a - 1) \<le> (of_int a :: rat)" "(of_int a :: rat) < 2 powi bitlen a"
proof -
  have p: "0 < bitlen a" using assms by (metis bitlen_nonneg bitlen_eq_zero_iff less_le not_le)
  have b: "2 ^ nat (bitlen a - 1) \<le> a" "a < 2 ^ nat (bitlen a)" using bitlen_bounds [OF assms] by simp_all
  have "(2 :: rat) powi (bitlen a - 1) = of_int (2 ^ nat (bitlen a - 1))" using p by (simp add: power_int_def)
  then show "2 powi (bitlen a - 1) \<le> (of_int a :: rat)" using b(1) by (simp only: of_int_le_iff)
  have "(2 :: rat) powi bitlen a = of_int (2 ^ nat (bitlen a))" using p by (simp add: power_int_def)
  then show "(of_int a :: rat) < 2 powi bitlen a" using b(2) by (simp only: of_int_less_iff)
qed

lemma ilog2_bounds:
  assumes "0 < x"
  shows "2 powi ilog2 x \<le> x" "x < 2 powi (ilog2 x + 1)"
proof -
  obtain a b where q: "quotient_of x = (a, b)" by fastforce
  have b: "0 < b" using quotient_of_denom_pos [OF q] .
  have x: "x = of_int a / of_int b" using quotient_of_div [OF q] .
  have a: "0 < a" using assms b by (simp add: x zero_less_divide_iff)
  let ?e = "bitlen a - bitlen b"
  note A = bitlen_powi [OF a] and B = bitlen_powi [OF b]
  have "x < 2 powi bitlen a / 2 powi (bitlen b - 1)"
    unfolding x using A(2) B(1) b by (intro frac_less) (simp_all add: a less_imp_le)
  also have "\<dots> = 2 powi (bitlen a - (bitlen b - 1))" by (simp only: p2_diff)
  also have "bitlen a - (bitlen b - 1) = ?e + 1" by simp
  finally have u: "x < 2 powi (?e + 1)" .
  have "?e - 1 = bitlen a - 1 - bitlen b" by simp
  then have "2 powi (?e - 1) = (2 :: rat) powi (bitlen a - 1) / 2 powi bitlen b"
    by (simp only: p2_diff)
  also have "\<dots> \<le> x"
    unfolding x using A(1) B(2) b by (intro frac_le) (simp_all add: a less_imp_le)
  finally have l: "2 powi (?e - 1) \<le> x" .
  show "2 powi ilog2 x \<le> x" "x < 2 powi (ilog2 x + 1)"
    using u l by (simp_all add: ilog2_def q Let_def)
qed

subsection \<open>Rounding to 53 bits\<close>

definition ulp :: "rat \<Rightarrow> rat" where
  "ulp x = 2 powi (ilog2 x - 52)"

lemma ulp_pos [simp]: "0 < ulp x"
  by (simp add: ulp_def)

lemma f64_pos: "0 < x \<Longrightarrow> f64 x = of_int (round_half_even (x / ulp x)) * ulp x"
  by (simp add: f64_def ulp_def Let_def)

lemma binade_ulp: "2 powi ilog2 x = of_int (2 ^ 52) * ulp x" "2 powi (ilog2 x + 1) = of_int (2 ^ 53) * ulp x"
  by (simp_all add: ulp_def p2_diff p2_add)

lemma f64_in_binade:
  assumes "0 < x"
  shows "2 powi ilog2 x \<le> f64 x" "f64 x \<le> 2 powi (ilog2 x + 1)"
proof -
  have "of_int (2 ^ 52) \<le> x / ulp x" "x / ulp x \<le> of_int (2 ^ 53)"
    using ilog2_bounds [OF assms] unfolding binade_ulp by (simp_all add: field_simps)
  then have "2 ^ 52 \<le> round_half_even (x / ulp x)" "round_half_even (x / ulp x) \<le> 2 ^ 53"
    using round_half_even_mono by (metis round_half_even_int)+
  then have "of_int (2 ^ 52) \<le> (of_int (round_half_even (x / ulp x)) :: rat)"
    "(of_int (round_half_even (x / ulp x)) :: rat) \<le> of_int (2 ^ 53)" by (simp_all only: of_int_le_iff)
  then show "2 powi ilog2 x \<le> f64 x" "f64 x \<le> 2 powi (ilog2 x + 1)"
    unfolding f64_pos [OF assms] binade_ulp by (simp_all add: mult_right_mono)
qed

lemma ilog2_mono:
  assumes "0 < x" "x \<le> y"
  shows "ilog2 x \<le> ilog2 y"
proof -
  have "0 < y" using assms by simp
  have "(2 :: rat) powi ilog2 x < 2 powi (ilog2 y + 1)"
    using ilog2_bounds(1) [OF assms(1)] ilog2_bounds(2) [OF \<open>0 < y\<close>] assms(2) by linarith
  then have "ilog2 x < ilog2 y + 1" by (simp only: p2_less_iff)
  then show ?thesis by simp
qed

lemma f64_mono:
  assumes "0 < x" "x \<le> y"
  shows "f64 x \<le> f64 y"
proof (cases "ilog2 x = ilog2 y")
  case True
  have y: "0 < y" using assms by simp
  have u: "ulp y = ulp x" by (simp add: ulp_def True)
  have "x / ulp x \<le> y / ulp x" using assms(2) by (simp add: divide_right_mono less_imp_le)
  then have "(of_int (round_half_even (x / ulp x)) :: rat) \<le> of_int (round_half_even (y / ulp x))"
    using round_half_even_mono by simp
  then show ?thesis unfolding f64_pos [OF assms(1)] f64_pos [OF y] u by (rule mult_right_mono) (simp add: less_imp_le)
next
  case False
  have y: "0 < y" using assms by simp
  have "ilog2 x + 1 \<le> ilog2 y" using False ilog2_mono [OF assms] by simp
  then have "(2 :: rat) powi (ilog2 x + 1) \<le> 2 powi ilog2 y" by (simp add: power_int_increasing)
  then show ?thesis using f64_in_binade(2) [OF assms(1)] f64_in_binade(1) [OF y] by linarith
qed

lemma f64_of_int_exact:
  assumes "0 \<le> i" "i < 2 ^ 53"
  shows "f64_of_int i = of_int i"
proof (cases "i = 0")
  case False
  then have x: "0 < (of_int i :: rat)" using assms by simp
  have "(2 :: rat) powi ilog2 (of_int i) \<le> of_int i" by (rule ilog2_bounds(1) [OF x])
  also have "(of_int i :: rat) < of_int (2 ^ 53)" using assms(2) by (simp only: of_int_less_iff)
  also have "\<dots> = 2 powi 53" by simp
  finally have "ilog2 (of_int i) < 53" by (simp only: p2_less_iff)
  then have e: "0 \<le> 52 - ilog2 (of_int i)" by simp
  have "of_int i / ulp (of_int i) = of_int i * 2 powi (52 - ilog2 (of_int i))"
    by (simp add: ulp_def p2_diff)
  also have "\<dots> = of_int (i * 2 ^ nat (52 - ilog2 (of_int i)))"
    using e by (simp add: power_int_def)
  finally have q: "of_int i / ulp (of_int i) = of_int (i * 2 ^ nat (52 - ilog2 (of_int i)))" .
  have "f64 (of_int i) = of_int i / ulp (of_int i) * ulp (of_int i)"
    unfolding f64_pos [OF x] q by (simp only: round_half_even_int)
  also have "\<dots> = of_int i" using less_imp_neq [OF ulp_pos [of "of_int i"]] by simp
  finally show ?thesis by (simp add: f64_of_int_def)
qed (simp add: f64_of_int_def f64_def)

text \<open>Comparing a rounded quotient with a float64 is right as long as it is strict.\<close>

lemma f64_div_less:
  assumes "0 \<le> x" "0 < y" "f64 t = t"
  shows "0 < t \<Longrightarrow> f64_div x y > t \<Longrightarrow> x / y > t" "0 < t \<Longrightarrow> f64_div x y < t \<Longrightarrow> x / y < t"
proof -
  have n: "0 \<le> x / y" using assms by simp
  have z: "f64_div x y = 0" if "x / y = 0" using that by (simp add: f64_div_def f64_def)
  show "0 < t \<Longrightarrow> f64_div x y > t \<Longrightarrow> x / y > t"
    using f64_mono [of "x / y" t] assms(3) n z by (cases "x / y = 0") (fastforce simp: f64_div_def)+
  show "0 < t \<Longrightarrow> f64_div x y < t \<Longrightarrow> x / y < t"
    using f64_mono [of t "x / y"] assms(3) by (fastforce simp: f64_div_def not_less)
qed

end
