(* ===== verification/Con_Hash.thy ===== *)
theory Con_Hash
  imports Go_Std Go_Float "HOL-Library.AList"
begin

text \<open>
  The consistent hash ring of \<open>internal/consistenthash\<close>: \<open>Config\<close>, the fields of \<open>Map\<close> that hold
  the ring and the load counts, and the operations on them, translated statement by statement.

  Mutex, etcd client and context of \<open>Map\<close> are not part of the state: an operation is the body of
  one critical section. The error results of \<open>Add\<close>, \<open>addNode\<close>, \<open>Remove\<close>, \<open>removeNoLock\<close> and
  \<open>rebalanceReplicas\<close> are nil on every path and left out. \<open>nodeCounts\<close> is an association list,
  since its length and its iteration matter; a Go \<open>range\<close> over it visits the keys in an order
  the language leaves open, which is a parameter.
\<close>

subsection \<open>Configuration\<close>

record config =
  DefaultReplicas :: int
  MinReplicas :: int
  MaxReplicas :: int
  HashFunc :: "string \<Rightarrow> 32 word"
  MaxLoadBalanceThreshold :: rat
  MinLoadBalanceThreshold :: rat

definition DefaultConfig :: config where
  "DefaultConfig =
     \<lparr>DefaultReplicas = 50, MinReplicas = 10, MaxReplicas = 200, HashFunc = ChecksumIEEE,
      MaxLoadBalanceThreshold = f64 (11 / 10), MinLoadBalanceThreshold = f64 (9 / 10)\<rparr>"

subsection \<open>State\<close>

record con_hash =
  config :: config
  keys :: "int list"
  hashMap :: "int \<rightharpoonup> string"
  nodeReplicas :: "string \<rightharpoonup> int"
  selfLoad :: int
  nodeCounts :: "(string \<times> int) list"
  selfAddr :: string

text \<open>Reading a missing key of a map gives the zero value.\<close>

definition replicas_of :: "con_hash \<Rightarrow> string \<Rightarrow> int" where
  "replicas_of m addr = (case nodeReplicas m addr of Some r \<Rightarrow> r | None \<Rightarrow> 0)"

definition owner_of :: "con_hash \<Rightarrow> int \<Rightarrow> string" where
  "owner_of m h = (case hashMap m h of Some a \<Rightarrow> a | None \<Rightarrow> [])"

definition NewConsistentHash :: "string \<Rightarrow> (con_hash \<Rightarrow> con_hash) list \<Rightarrow> con_hash" where
  "NewConsistentHash addr opts =
     foldl (\<lambda>m opt. opt m)
       \<lparr>config = DefaultConfig, keys = [], hashMap = Map.empty, nodeReplicas = Map.empty,
        selfLoad = 0, nodeCounts = [], selfAddr = addr\<rparr> opts"

subsection \<open>Adding a node\<close>

text \<open>\<open>Sprintf ("%s-%d", addr, i)\<close> and its place on the ring.\<close>

definition vnode :: "string \<Rightarrow> nat \<Rightarrow> string" where
  "vnode addr i = addr @ CHR ''-'' # show_int (int i)"

definition vhash :: "config \<Rightarrow> string \<Rightarrow> nat \<Rightarrow> int" where
  "vhash cfg addr i = uint (HashFunc cfg (vnode addr i))"

definition add_vnode :: "string \<Rightarrow> nat \<Rightarrow> con_hash \<Rightarrow> con_hash" where
  "add_vnode addr i m =
     (let hash = vhash (config m) addr i
      in m\<lparr>keys := keys m @ [hash],
           hashMap := (hashMap m)(hash \<mapsto> addr),
           nodeCounts := AList.update addr 0 (nodeCounts m)\<rparr>)"

definition addNode :: "string \<Rightarrow> int \<Rightarrow> con_hash \<Rightarrow> con_hash" where
  "addNode addr replicas m =
     (let m = fold (add_vnode addr) [0..<nat replicas] m;
          m = m\<lparr>nodeReplicas := (nodeReplicas m)(addr \<mapsto> replicas)\<rparr>
      in m\<lparr>keys := sort (keys m)\<rparr>)"

definition Map_Add :: "string \<Rightarrow> con_hash \<Rightarrow> con_hash" where
  "Map_Add addr m =
     (if nodeReplicas m addr \<noteq> None then m
      else let replicas = DefaultReplicas (config m) in addNode addr replicas m)"

subsection \<open>Removing a node\<close>

definition slice_remove :: "int list \<Rightarrow> int \<Rightarrow> int list" where
  "slice_remove xs value =
     (let index = sort_Search (length xs) (\<lambda>i. xs ! i \<ge> value)
      in if index < length xs \<and> xs ! index = value
         then take index xs @ drop (index + 1) xs else xs)"

definition remove_vnode :: "string \<Rightarrow> nat \<Rightarrow> con_hash \<Rightarrow> con_hash" where
  "remove_vnode addr i m =
     (let hash = vhash (config m) addr i
      in m\<lparr>hashMap := (hashMap m)(hash := None), keys := slice_remove (keys m) hash\<rparr>)"

definition removeNoLock :: "string \<Rightarrow> con_hash \<Rightarrow> con_hash" where
  "removeNoLock addr m =
     (let replicas = replicas_of m addr;
          m = fold (remove_vnode addr) [0..<nat replicas] m
      in m\<lparr>nodeReplicas := (nodeReplicas m)(addr := None),
           nodeCounts := AList.delete addr (nodeCounts m)\<rparr>)"

definition Map_Remove :: "string \<Rightarrow> con_hash \<Rightarrow> con_hash" where
  "Map_Remove addr m = (if nodeReplicas m addr = None then m else removeNoLock addr m)"

subsection \<open>Routing a key\<close>

definition Map_Get :: "string \<Rightarrow> con_hash \<Rightarrow> con_hash \<times> string" where
  "Map_Get key m =
     (if length (keys m) = 0 then (m, [])
      else
        let hash = uint (HashFunc (config m) key);
            index = sort_Search (length (keys m)) (\<lambda>i. keys m ! i \<ge> hash);
            index = (if index = length (keys m) then 0 else index);
            m' = (if owner_of m (keys m ! index) = selfAddr m
                  then m\<lparr>selfLoad := int64 (selfLoad m + 1)\<rparr> else m)
        in (m', owner_of m (keys m ! index)))"

subsection \<open>Rebalancing\<close>

definition rebalanceReplicas :: "string \<Rightarrow> int \<Rightarrow> con_hash \<Rightarrow> con_hash" where
  "rebalanceReplicas addr newReplicas m = addNode addr newReplicas (removeNoLock addr m)"

text \<open>The body of the second loop of \<open>checkAndRebalance\<close>, for the entry \<open>(addr, val)\<close>.\<close>

definition new_replicas :: "con_hash \<Rightarrow> int \<Rightarrow> string \<Rightarrow> int \<Rightarrow> int \<times> bool" where
  "new_replicas m avg addr val =
     (let ratio = f64_div (f64_of_int val) (f64_of_int avg);
          (r, flag) =
            (if ratio > MaxLoadBalanceThreshold (config m) then (int64 (replicas_of m addr - 10), True)
             else if ratio < MinLoadBalanceThreshold (config m) then (int64 (replicas_of m addr + 10), True)
             else (replicas_of m addr, False));
          r = (if r > MaxReplicas (config m) then MaxReplicas (config m) else r);
          r = (if r < MinReplicas (config m) then MinReplicas (config m) else r)
      in (r, flag))"

definition check_node :: "int \<Rightarrow> string \<Rightarrow> int \<Rightarrow> con_hash \<Rightarrow> con_hash \<times> bool" where
  "check_node avg addr val m =
     (let (r, flag) = new_replicas m avg addr val
      in if flag then (rebalanceReplicas addr r m, True) else (m, False))"

text \<open>The \<open>range\<close> over \<open>nodeCounts\<close> while the body deletes and re-creates entries: \<open>visits\<close> are the
  keys it produces. It produces every entry that is still there; whether it produces again an entry
  that the body re-created is up to the map implementation, so \<open>visits\<close> may repeat a key.\<close>

fun check_nodes :: "int \<Rightarrow> string list \<Rightarrow> con_hash \<Rightarrow> con_hash \<times> bool" where
  "check_nodes avg [] m = (m, False)"
| "check_nodes avg (addr # visits) m =
     (case map_of (nodeCounts m) addr of
        None \<Rightarrow> check_nodes avg visits m
      | Some val \<Rightarrow>
          let (m, b) = check_node avg addr val m;
              (m, b') = check_nodes avg visits m
          in (m, b \<or> b'))"

definition total_count :: "con_hash \<Rightarrow> int" where
  "total_count m = foldl (\<lambda>total (addr, val). int64 (total + val)) 0 (nodeCounts m)"

text \<open>\<^term>\<open>None\<close> is the panic of a division by zero.\<close>

definition checkAndRebalance :: "string list \<Rightarrow> con_hash \<Rightarrow> (con_hash \<times> bool) option" where
  "checkAndRebalance visits m =
     (let total = total_count m
      in if length (nodeCounts m) = 0 then None
         else let avg = total sdiv int (length (nodeCounts m))
              in if avg = 0 then Some (m, False) else Some (check_nodes avg visits m))"

subsection \<open>Load counts from etcd\<close>

definition count_prefix :: string where
  "count_prefix = ''/conhashNodeCount/''"

text \<open>The pair that \<open>PutEtcdConHashNodeCount\<close> of \<open>internal/registry\<close> writes.\<close>

definition PutEtcdConHashNodeCount :: "string \<Rightarrow> int \<Rightarrow> string \<times> string" where
  "PutEtcdConHashNodeCount addr count = (count_prefix @ addr, show_int count)"

text \<open>One tick of the reporting goroutine: \<open>SwapInt64\<close> takes the load and resets it. It returns the
  pair it writes to etcd.\<close>

definition report_tick :: "con_hash \<Rightarrow> con_hash \<times> string \<times> string" where
  "report_tick m = (m\<lparr>selfLoad := 0\<rparr>, PutEtcdConHashNodeCount (selfAddr m) (selfLoad m))"

text \<open>The reporting goroutine of \<open>NewConsistentHash\<close>, one event per round: a tick, and whether the Put
  succeeds (a failure is only logged), or the end of the context. It returns what reaches etcd; the
  flag says that the goroutine has returned.\<close>

definition report_round :: "bool \<Rightarrow> con_hash \<Rightarrow> con_hash \<times> (string \<times> string) list" where
  "report_round put_ok m = (let (m, kv) = report_tick m in (m, if put_ok then [kv] else []))"

datatype report_event = Report_tick bool | Report_done

fun report_loop :: "report_event list \<Rightarrow> con_hash \<Rightarrow> (con_hash \<times> (string \<times> string) list) \<times> bool" where
  "report_loop [] m = ((m, []), False)"
| "report_loop (Report_tick put_ok # evs) m =
     (let (m, out) = report_round put_ok m; ((m, outs), fin) = report_loop evs m in ((m, out @ outs), fin))"
| "report_loop (Report_done # evs) m = ((m, []), True)"

text \<open>A response is a list of keys and values. \<open>store_counts\<close> is the loop both \<open>fetchAllNodeCount\<close>
  and the inner loop of \<open>watchNodeCount\<close> run; the flag says that it ended without a parse error.\<close>

fun store_counts :: "(string \<times> string) list \<Rightarrow> con_hash \<Rightarrow> con_hash \<times> bool" where
  "store_counts [] m = (m, True)"
| "store_counts ((k, v) # kvs) m =
     (let addr = trim_prefix k count_prefix
      in case ParseInt v of
           None \<Rightarrow> (m, False)
         | Some count \<Rightarrow> store_counts kvs (m\<lparr>nodeCounts := AList.update addr count (nodeCounts m)\<rparr>))"

text \<open>The request to etcd fails (\<^term>\<open>None\<close>) or answers.\<close>

definition fetchAllNodeCount :: "(string \<times> string) list option \<Rightarrow> con_hash \<Rightarrow> con_hash \<times> bool" where
  "fetchAllNodeCount resp m =
     (case resp of None \<Rightarrow> (m, False) | Some kvs \<Rightarrow> store_counts kvs m)"

text \<open>The watch channel delivers batches of events until it is closed.\<close>

fun watchNodeCount :: "(string \<times> string) list list \<Rightarrow> con_hash \<Rightarrow> con_hash \<times> bool" where
  "watchNodeCount [] m = (m, True)"
| "watchNodeCount (events # resps) m =
     (let (m, ok) = store_counts events m
      in if ok then watchNodeCount resps m else (m, False))"

text \<open>The task of a leader: what the request answered, then what the watch delivers. The error of the
  request is ignored; the watch runs in a goroutine of its own.\<close>

definition updateNodeCount ::
  "(string \<times> string) list option \<Rightarrow> (string \<times> string) list list \<Rightarrow> con_hash \<Rightarrow> con_hash"
where
  "updateNodeCount resp resps m =
     (let (m, ignored) = fetchAllNodeCount resp m in fst (watchNodeCount resps m))"

end
