(* ===== verification/Con_Hash_Ring.thy ===== *)
theory Con_Hash_Ring
  imports Con_Hash "HOL-Library.Multiset"
begin

text \<open>
  Lemmas about the ring: removal from the sorted slice, what \<open>addNode\<close> and \<open>removeNoLock\<close> do to
  each field, the invariant \<open>ring_inv\<close> (the slice holds exactly the virtual nodes of the registered
  nodes) with the stronger \<open>ring_exact\<close> (no collision so far), and the clockwise successor \<open>is_next\<close>
  that routing computes.
\<close>

subsection \<open>The sorted slice\<close>

lemma slice_remove_sorted:
  assumes "sorted xs"
  shows "slice_remove xs v = remove1 v xs"
proof -
  let ?b = "below v xs" and ?r = "dropWhile (\<lambda>y. y < v) xs"
  have xs: "xs = ?b @ ?r" by (simp add: below_def)
  have idx: "sort_Search (length xs) (\<lambda>i. xs ! i \<ge> v) = length ?b" by (rule sorted_Search [OF assms])
  have vb: "v \<notin> set ?b" by (auto simp: below_def dest: set_takeWhileD)
  show ?thesis
  proof (cases ?r)
    case Nil
    then have "v \<notin> set xs" by auto
    moreover have "length ?b = length xs" using xs Nil by (metis append_Nil2)
    ultimately show ?thesis by (simp add: slice_remove_def idx remove1_idem)
  next
    case (Cons y ys)
    have y: "v \<le> y" using hd_dropWhile [of "\<lambda>y. y < v" xs] Cons by auto
    have nth: "xs ! length ?b = y" "length ?b < length xs"
      using xs Cons by (metis nth_append_length, metis length_append length_greater_0_conv less_add_same_cancel1 list.discI)
    have sr: "sorted (y # ys)" using assms xs Cons by (metis sorted_append)
    show ?thesis
    proof (cases "y = v")
      case True
      have "take (length ?b) xs = ?b" "drop (length ?b + 1) xs = ys"
        using xs Cons by (metis append_eq_conv_conj, metis append_eq_conv_conj drop_Suc_Cons drop_drop drop0 Suc_eq_plus1 plus_1_eq_Suc)
      moreover have "remove1 v xs = ?b @ ys"
        by (subst xs, subst Cons) (simp add: remove1_append vb True)
      ultimately show ?thesis using nth True by (simp add: slice_remove_def idx)
    next
      case False
      then have "v \<notin> set (y # ys)" using sr y by auto
      then have "v \<notin> set xs" using xs Cons vb by (metis Un_iff set_append)
      then show ?thesis using nth False by (simp add: slice_remove_def idx remove1_idem)
    qed
  qed
qed

lemma sorted_remove1_int: "sorted (xs :: int list) \<Longrightarrow> sorted (remove1 v xs)"
  by (rule sorted_remove1)

subsection \<open>Adding and removing virtual nodes, field by field\<close>

definition vhashes :: "config \<Rightarrow> string \<Rightarrow> int \<Rightarrow> int list" where
  "vhashes cfg addr r = map (vhash cfg addr) [0..<nat r]"

lemma add_vnodes:
  "keys (fold (add_vnode addr) is m) = keys m @ map (vhash (config m) addr) is"
  "hashMap (fold (add_vnode addr) is m) h =
     (if h \<in> vhash (config m) addr ` set is then Some addr else hashMap m h)"
  "config (fold (add_vnode addr) is m) = config m"
  "nodeReplicas (fold (add_vnode addr) is m) = nodeReplicas m"
  "map_of (nodeCounts (fold (add_vnode addr) is m)) =
     (if is = [] then map_of (nodeCounts m) else (map_of (nodeCounts m))(addr \<mapsto> 0))"
  "selfAddr (fold (add_vnode addr) is m) = selfAddr m"
  "selfLoad (fold (add_vnode addr) is m) = selfLoad m"
  by (induction "is" arbitrary: m) (auto simp: add_vnode_def Let_def update_conv')

lemma addNode_simps [simp]:
  "keys (addNode addr r m) = sort (keys m @ vhashes (config m) addr r)"
  "hashMap (addNode addr r m) =
     (\<lambda>h. if h \<in> set (vhashes (config m) addr r) then Some addr else hashMap m h)"
  "config (addNode addr r m) = config m"
  "nodeReplicas (addNode addr r m) = (nodeReplicas m)(addr \<mapsto> r)"
  "map_of (nodeCounts (addNode addr r m)) =
     (if r \<le> 0 then map_of (nodeCounts m) else (map_of (nodeCounts m))(addr \<mapsto> 0))"
  "selfAddr (addNode addr r m) = selfAddr m" "selfLoad (addNode addr r m) = selfLoad m"
  by (simp_all add: addNode_def Let_def add_vnodes vhashes_def fun_eq_iff)

lemma remove_vnodes:
  assumes "sorted (keys m)"
  shows "sorted (keys (fold (remove_vnode addr) is m))"
    "mset (keys (fold (remove_vnode addr) is m)) = mset (keys m) - mset (map (vhash (config m) addr) is)"
    "hashMap (fold (remove_vnode addr) is m) h =
       (if h \<in> vhash (config m) addr ` set is then None else hashMap m h)"
    "config (fold (remove_vnode addr) is m) = config m"
    "nodeReplicas (fold (remove_vnode addr) is m) = nodeReplicas m"
    "nodeCounts (fold (remove_vnode addr) is m) = nodeCounts m"
    "selfAddr (fold (remove_vnode addr) is m) = selfAddr m"
    "selfLoad (fold (remove_vnode addr) is m) = selfLoad m"
  using assms
  by (induction "is" arbitrary: m)
     (auto simp: remove_vnode_def Let_def slice_remove_sorted sorted_remove1_int)

lemma removeNoLock_simps:
  assumes "sorted (keys m)"
  shows "sorted (keys (removeNoLock addr m))"
    "mset (keys (removeNoLock addr m)) = mset (keys m) - mset (vhashes (config m) addr (replicas_of m addr))"
    "hashMap (removeNoLock addr m) = 
       (\<lambda>h. if h \<in> set (vhashes (config m) addr (replicas_of m addr)) then None else hashMap m h)"
    "config (removeNoLock addr m) = config m"
    "nodeReplicas (removeNoLock addr m) = (nodeReplicas m)(addr := None)"
    "map_of (nodeCounts (removeNoLock addr m)) = (map_of (nodeCounts m))(addr := None)"
    "selfAddr (removeNoLock addr m) = selfAddr m"
  by (simp_all add: removeNoLock_def Let_def remove_vnodes [OF assms] vhashes_def fun_eq_iff delete_conv')

subsection \<open>The invariant\<close>

definition node_hashes :: "con_hash \<Rightarrow> string \<Rightarrow> int list" where
  "node_hashes m a = vhashes (config m) a (replicas_of m a)"

definition members :: "con_hash \<Rightarrow> string set" where
  "members m = dom (nodeReplicas m)"

definition ring_inv :: "con_hash \<Rightarrow> bool" where
  "ring_inv m \<longleftrightarrow> sorted (keys m) \<and> finite (members m) \<and>
     mset (keys m) = (\<Sum>a\<in>members m. mset (node_hashes m a)) \<and>
     (\<forall>h a. hashMap m h = Some a \<longrightarrow> a \<in> members m \<and> h \<in> set (node_hashes m a))"

text \<open>\<open>ring_exact\<close> also says that every virtual node is found under its own node: no hash of one
  node has been overwritten by another one.\<close>

definition ring_exact :: "con_hash \<Rightarrow> bool" where
  "ring_exact m \<longleftrightarrow> ring_inv m \<and> (\<forall>a\<in>members m. \<forall>h\<in>set (node_hashes m a). hashMap m h = Some a)"

lemma ring_invD:
  assumes "ring_inv m"
  shows "sorted (keys m)" "finite (members m)"
    "mset (keys m) = (\<Sum>a\<in>members m. mset (node_hashes m a))"
    "hashMap m h = Some a \<Longrightarrow> a \<in> members m \<and> h \<in> set (node_hashes m a)"
  using assms unfolding ring_inv_def by blast+

lemma ring_exactD:
  assumes "ring_exact m"
  shows "ring_inv m" "a \<in> members m \<Longrightarrow> h \<in> set (node_hashes m a) \<Longrightarrow> hashMap m h = Some a"
  using assms unfolding ring_exact_def by blast+

lemma set_keys: "ring_inv m \<Longrightarrow> set (keys m) = (\<Union>a\<in>members m. set (node_hashes m a))"
proof -
  assume inv: "ring_inv m"
  have "set (keys m) = set_mset (\<Sum>a\<in>members m. mset (node_hashes m a))"
    using ring_invD(3) [OF inv] by (metis set_mset_mset)
  then show ?thesis using ring_invD(2) [OF inv] by (simp add: set_mset_sum)
qed

lemma replicas_of_upd [simp]:
  "replicas_of (addNode addr r m) a = (if a = addr then r else replicas_of m a)"
  by (simp add: replicas_of_def)

lemma node_hashes_add [simp]:
  "node_hashes (addNode addr r m) a = (if a = addr then vhashes (config m) addr r else node_hashes m a)"
  by (simp add: node_hashes_def)

lemma members_add [simp]: "members (addNode addr r m) = insert addr (members m)"
  by (simp add: members_def)

lemma ring_inv_add:
  assumes "ring_inv m" "addr \<notin> members m"
  shows "ring_inv (addNode addr r m)"
proof -
  note D = ring_invD [OF assms(1)]
  have "(\<Sum>a\<in>insert addr (members m). mset (node_hashes (addNode addr r m) a)) =
      mset (vhashes (config m) addr r) + (\<Sum>a\<in>members m. mset (node_hashes m a))"
    using D(2) assms(2) by (auto intro!: arg_cong2 [where f = "(+)"] sum.cong)
  then have "mset (keys (addNode addr r m)) =
      (\<Sum>a\<in>members (addNode addr r m). mset (node_hashes (addNode addr r m) a))"
    using D(3) by simp
  moreover have "hashMap (addNode addr r m) h = Some a \<Longrightarrow>
      a \<in> members (addNode addr r m) \<and> h \<in> set (node_hashes (addNode addr r m) a)" for h a
    using D(4) [of h a] assms(2) by (auto split: if_splits)
  ultimately show ?thesis using D(1,2) unfolding ring_inv_def by simp
qed

lemma ring_exact_add:
  assumes "ring_exact m" "addr \<notin> members m" "set (vhashes (config m) addr r) \<inter> set (keys m) = {}"
  shows "ring_exact (addNode addr r m)"
  unfolding ring_exact_def
proof (intro conjI ballI)
  show "ring_inv (addNode addr r m)" by (rule ring_inv_add [OF ring_exactD(1) [OF assms(1)] assms(2)])
  fix a h
  assume a: "a \<in> members (addNode addr r m)" and h: "h \<in> set (node_hashes (addNode addr r m) a)"
  show "hashMap (addNode addr r m) h = Some a"
  proof (cases "a = addr")
    case True
    then show ?thesis using h by simp
  next
    case False
    then have m: "a \<in> members m" "h \<in> set (node_hashes m a)" using a h by auto
    then have "h \<in> set (keys m)" using set_keys [OF ring_exactD(1) [OF assms(1)]] by blast
    then have "h \<notin> set (vhashes (config m) addr r)" using assms(3) by blast
    then show ?thesis using ring_exactD(2) [OF assms(1) m] by simp
  qed
qed

lemma remove_fields:
  assumes "sorted (keys m)"
  shows "replicas_of (removeNoLock addr m) a = (if a = addr then 0 else replicas_of m a)"
    "a \<noteq> addr \<Longrightarrow> node_hashes (removeNoLock addr m) a = node_hashes m a"
    "members (removeNoLock addr m) = members m - {addr}"
proof -
  show r: "replicas_of (removeNoLock addr m) a = (if a = addr then 0 else replicas_of m a)" for a
    by (simp add: replicas_of_def removeNoLock_simps [OF assms])
  show "a \<noteq> addr \<Longrightarrow> node_hashes (removeNoLock addr m) a = node_hashes m a"
    by (simp add: node_hashes_def r removeNoLock_simps [OF assms])
  show "members (removeNoLock addr m) = members m - {addr}"
    by (auto simp: members_def removeNoLock_simps [OF assms])
qed

lemma node_hashes_member: "h \<in> set (node_hashes m a) \<Longrightarrow> a \<in> members m"
  by (cases "nodeReplicas m a") (auto simp: node_hashes_def vhashes_def replicas_of_def members_def)

lemma exact_disjoint:
  assumes "ring_exact m" "h \<in> set (node_hashes m a)" "h \<in> set (node_hashes m b)"
  shows "a = b"
  using ring_exactD(2) [OF assms(1) node_hashes_member [OF assms(2)] assms(2)]
    ring_exactD(2) [OF assms(1) node_hashes_member [OF assms(3)] assms(3)] by simp

lemma ring_inv_remove:
  assumes "ring_inv m"
  shows "ring_inv (removeNoLock addr m)"
proof -
  note D = ring_invD [OF assms]
  note R = removeNoLock_simps [OF D(1), of addr]
  note F = remove_fields [OF D(1), where addr = addr]
  have "mset (keys (removeNoLock addr m)) =
      (\<Sum>a\<in>members m - {addr}. mset (node_hashes m a))"
  proof (cases "addr \<in> members m")
    case True
    then show ?thesis using D(2,3) by (simp add: R(2) sum.remove node_hashes_def)
  next
    case False
    then have "vhashes (config m) addr (replicas_of m addr) = []"
      by (simp add: vhashes_def replicas_of_def members_def domIff)
    then show ?thesis using False D(3) by (simp add: R(2))
  qed
  then have "mset (keys (removeNoLock addr m)) =
      (\<Sum>a\<in>members (removeNoLock addr m). mset (node_hashes (removeNoLock addr m) a))"
    by (auto simp: F intro!: sum.cong)
  moreover have "hashMap (removeNoLock addr m) h = Some a \<Longrightarrow>
      a \<in> members (removeNoLock addr m) \<and> h \<in> set (node_hashes (removeNoLock addr m) a)" for h a
    using D(4) [of h a] F by (cases "a = addr") (auto simp: R(3) node_hashes_def split: if_splits)
  ultimately show ?thesis using D(2) R(1) unfolding ring_inv_def by (simp add: F(3))
qed

lemma ring_exact_remove:
  assumes "ring_exact m"
  shows "ring_exact (removeNoLock addr m)"
  unfolding ring_exact_def
proof (intro conjI ballI)
  have inv: "ring_inv m" by (rule ring_exactD(1) [OF assms])
  note s = ring_invD(1) [OF inv]
  show "ring_inv (removeNoLock addr m)" by (rule ring_inv_remove [OF inv])
  fix a h
  assume "a \<in> members (removeNoLock addr m)" "h \<in> set (node_hashes (removeNoLock addr m) a)"
  then have a: "a \<noteq> addr" "a \<in> members m" "h \<in> set (node_hashes m a)"
    by (auto simp: remove_fields [OF s])
  have "h \<notin> set (node_hashes m addr)" using exact_disjoint [OF assms a(3)] a(1) by blast
  then show "hashMap (removeNoLock addr m) h = Some a"
    using ring_exactD(2) [OF assms a(2,3)] by (simp add: removeNoLock_simps [OF s] node_hashes_def)
qed

text \<open>What is left of the ring after a removal.\<close>

lemma keys_remove:
  assumes "ring_exact m"
  shows "set (keys (removeNoLock addr m)) = set (keys m) - set (node_hashes m addr)"
proof -
  have inv: "ring_inv m" by (rule ring_exactD(1) [OF assms])
  note s = ring_invD(1) [OF inv]
  have disj: "set (node_hashes m a) \<inter> set (node_hashes m addr) = {}" if "a \<in> members m" "a \<noteq> addr" for a using exact_disjoint [OF assms] that by blast
  have "set (keys (removeNoLock addr m)) = (\<Union>a\<in>members m - {addr}. set (node_hashes m a))"
    using set_keys [OF ring_inv_remove [OF inv, of addr]] by (simp add: remove_fields [OF s])
  also have "\<dots> = (\<Union>a\<in>members m. set (node_hashes m a)) - set (node_hashes m addr)"
    using disj by blast
  finally show ?thesis by (simp add: set_keys [OF inv])
qed

subsection \<open>The clockwise successor\<close>

definition is_next :: "int set \<Rightarrow> int \<Rightarrow> int \<Rightarrow> bool" where
  "is_next K h x \<longleftrightarrow> x \<in> K \<and>
     (if \<exists>k\<in>K. h \<le> k then h \<le> x \<and> (\<forall>k\<in>K. h \<le> k \<longrightarrow> x \<le> k) else \<forall>k\<in>K. x \<le> k)"

lemma is_next_unique: "is_next K h x \<Longrightarrow> is_next K h y \<Longrightarrow> x = y"
  unfolding is_next_def by (meson antisym)

lemma is_next_add: "is_next K h x \<Longrightarrow> is_next (K \<union> N) h y \<Longrightarrow> y \<in> N \<or> y = x"
  unfolding is_next_def by (smt (verit) Un_iff)

lemma is_next_diff: "is_next K h x \<Longrightarrow> x \<notin> N \<Longrightarrow> is_next (K - N) h x"
  unfolding is_next_def by (smt (verit) Diff_iff)

definition ring_index :: "int list \<Rightarrow> int \<Rightarrow> nat" where
  "ring_index ks h =
     (let index = sort_Search (length ks) (\<lambda>i. ks ! i \<ge> h)
      in if index = length ks then 0 else index)"

lemma ring_index_next:
  assumes "sorted ks" "ks \<noteq> []"
  shows "is_next (set ks) h (ks ! ring_index ks h)"
proof -
  let ?b = "below h ks"
  have s: "sort_Search (length ks) (\<lambda>i. ks ! i \<ge> h) = length ?b" by (rule sorted_Search [OF assms(1)])
  have lt: "\<forall>y\<in>set ?b. y < h" by (auto simp: below_def dest: set_takeWhileD)
  show ?thesis
  proof (cases "length ?b = length ks")
    case True
    then have "?b = ks" by (metis below_def takeWhile_eq_take take_all_iff order_refl)
    then have "\<forall>y\<in>set ks. y < h" using lt by simp
    moreover have "ks ! 0 \<in> set ks" "\<forall>k\<in>set ks. ks ! 0 \<le> k"
      using assms by (auto simp: in_set_conv_nth intro: sorted_nth_mono)
    ultimately show ?thesis using True by (auto simp: ring_index_def s is_next_def)
  next
    case False
    then have l: "length ?b < length ks" by (simp add: below_def length_takeWhile_le order_less_le)
    then have ge: "h \<le> ks ! length ?b" using nth_length_takeWhile [of "\<lambda>y. y < h" ks] by (simp add: below_def)
    have "ks ! length ?b \<le> k" if "k \<in> set ks" "h \<le> k" for k
    proof -
      obtain i where i: "i < length ks" "ks ! i = k" using \<open>k \<in> set ks\<close> by (auto simp: in_set_conv_nth)
      have "\<not> i < length ?b"
      proof
        assume "i < length ?b"
        then have "ks ! i \<in> set ?b" by (metis below_def nth_mem takeWhile_nth)
        then show False using lt i that by fastforce
      qed
      then show ?thesis using assms(1) i by (metis not_le sorted_nth_mono)
    qed
    moreover have "ks ! length ?b \<in> set ks" using l by simp
    ultimately show ?thesis using ge False by (auto simp: ring_index_def s is_next_def)
  qed
qed

end
