(* ===== verification/Con_Hash_Route.thy ===== *)
theory Con_Hash_Route
  imports Con_Hash_Ring
begin

text \<open>
  Routing on the ring. The locale \<open>router\<close> is what the rest of the program expects of a consistent
  hash: a node that joins only takes keys over; \<open>exact_router\<close> adds what holds as long as no two
  nodes share a virtual node: a node that leaves only gives keys away, and a key is always routed
  to a registered node. Both are interpreted on the model of \<open>Map\<close>.
\<close>

subsection \<open>The contract of a consistent hash\<close>

locale router =
  fixes rinv :: "'s \<Rightarrow> bool"
    and mem :: "'s \<Rightarrow> string set"
    and route :: "'s \<Rightarrow> string \<Rightarrow> string"
    and add :: "string \<Rightarrow> 's \<Rightarrow> 's"
    and remove :: "string \<Rightarrow> 's \<Rightarrow> 's"
  assumes add_law: "rinv m \<Longrightarrow> rinv (add a m) \<and> mem (add a m) = insert a (mem m) \<and>
      (route (add a m) k = route m k \<or> route (add a m) k = a)"
    and remove_law: "rinv m \<Longrightarrow> rinv (remove a m) \<and> mem (remove a m) = mem m - {a}"
begin

lemma joins:
  "rinv m \<Longrightarrow> rinv (fold add as m) \<and> mem (fold add as m) = mem m \<union> set as \<and>
    route (fold add as m) k \<in> insert (route m k) (set as)"
proof (induction "as" arbitrary: m)
  case (Cons a as)
  note A = add_law [OF Cons.prems, of a k]
  then show ?case using Cons.IH [of "add a m"] by auto
qed simp

end

locale exact_router = router rinv mem route add remove
  for rinv :: "'s \<Rightarrow> bool" and mem :: "'s \<Rightarrow> string set" and route :: "'s \<Rightarrow> string \<Rightarrow> string"
    and add :: "string \<Rightarrow> 's \<Rightarrow> 's" and remove :: "string \<Rightarrow> 's \<Rightarrow> 's" +
  fixes exact :: "'s \<Rightarrow> bool"
    and apart :: "'s \<Rightarrow> string \<Rightarrow> bool"
  assumes exact_rinv: "exact m \<Longrightarrow> rinv m"
    and exact_add: "exact m \<Longrightarrow> apart m a \<Longrightarrow> exact (add a m)"
    and exact_remove: "exact m \<Longrightarrow> exact (remove a m)"
    and remove_route: "exact m \<Longrightarrow> route m k \<noteq> a \<Longrightarrow> route (remove a m) k = route m k"
begin

lemma leaves:
  "exact m \<Longrightarrow> route m k \<notin> set as \<Longrightarrow>
    exact (fold remove as m) \<and> route (fold remove as m) k = route m k"
proof (induction "as" arbitrary: m)
  case (Cons a as)
  have "route (remove a m) k = route m k" using remove_route [OF Cons.prems(1), of k a] Cons.prems(2) by simp
  then show ?case using Cons.IH [of "remove a m"] exact_remove [OF Cons.prems(1)] Cons.prems(2) by simp
qed simp

text \<open>A node taking the place of another: every other node keeps its keys, or loses some to the
  new one.\<close>

lemma replace:
  assumes "exact m" "apart m b" "route m k \<noteq> a"
  shows "route (remove a (add b m)) k = route m k \<or> route (remove a (add b m)) k = b \<or> b = a"
  using add_law [OF exact_rinv [OF assms(1)], of b k] assms(3)
    remove_route [OF exact_add [OF assms(1,2)], of k a] by metis

end

subsection \<open>The route of a key\<close>

definition route :: "con_hash \<Rightarrow> string \<Rightarrow> string" where
  "route m key = snd (Map_Get key m)"

definition key_hash :: "con_hash \<Rightarrow> string \<Rightarrow> int" where
  "key_hash m key = uint (HashFunc (config m) key)"

lemma route_empty: "keys m = [] \<Longrightarrow> route m k = []"
  by (simp add: route_def Map_Get_def)

lemma route_next:
  assumes "sorted (keys m)" "keys m \<noteq> []"
  obtains x where "is_next (set (keys m)) (key_hash m k) x" "route m k = owner_of m x"
proof
  show "is_next (set (keys m)) (key_hash m k) (keys m ! ring_index (keys m) (key_hash m k))"
    by (rule ring_index_next [OF assms])
  show "route m k = owner_of m (keys m ! ring_index (keys m) (key_hash m k))"
    using assms(2) by (simp add: route_def Map_Get_def Let_def ring_index_def key_hash_def)
qed

text \<open>A subset that keeps the successor of a position has the same one.\<close>

lemma is_next_subset: "is_next K h x \<Longrightarrow> x \<in> K' \<Longrightarrow> K' \<subseteq> K \<Longrightarrow> is_next K' h x"
  using is_next_diff [of K h x "K - K'"] by (simp add: double_diff)

lemma route_is_owner:
  assumes "sorted (keys m)" "is_next (set (keys m)) (key_hash m k) x"
  shows "route m k = owner_of m x"
proof -
  have "keys m \<noteq> []" using assms(2) by (auto simp: is_next_def)
  then obtain y where "is_next (set (keys m)) (key_hash m k) y" "route m k = owner_of m y"
    by (rule route_next [OF assms(1)])
  then show ?thesis using is_next_unique [OF assms(2)] by metis
qed

lemma route_cong:
  assumes "sorted (keys m)" "sorted (keys m')" "set (keys m') = set (keys m)" "hashMap m' = hashMap m"
    "config m' = config m"
  shows "route m' k = route m k"
proof (cases "keys m = []")
  case True
  then show ?thesis using assms(3) by (simp add: route_empty)
next
  case False
  then have ne: "keys m' \<noteq> []" using assms(3) by force
  obtain x where x: "is_next (set (keys m)) (key_hash m k) x" "route m k = owner_of m x"
    by (rule route_next [OF assms(1) False])
  obtain y where y: "is_next (set (keys m')) (key_hash m' k) y" "route m' k = owner_of m' y"
    by (rule route_next [OF assms(2) ne])
  have "x = y" using x(1) y(1) is_next_unique assms(3,5) by (simp add: key_hash_def)
  then show ?thesis using x(2) y(2) assms(4) by (simp add: owner_of_def)
qed

lemma route_addNode:
  assumes "sorted (keys m)"
  shows "route (addNode addr r m) k = route m k \<or> route (addNode addr r m) k = addr"
proof (cases "keys m = []")
  case True
  show ?thesis
  proof (cases "keys (addNode addr r m) = []")
    case True
    then show ?thesis using \<open>keys m = []\<close> by (simp add: route_empty)
  next
    case False
    obtain x where x: "is_next (set (keys (addNode addr r m))) (key_hash (addNode addr r m) k) x"
      "route (addNode addr r m) k = owner_of (addNode addr r m) x"
      by (rule route_next [OF _ False]) simp
    then have "x \<in> set (vhashes (config m) addr r)" using True by (simp add: is_next_def)
    then show ?thesis using x(2) by (simp add: owner_of_def)
  qed
next
  case False
  then have ne: "keys (addNode addr r m) \<noteq> []" by (metis addNode_simps(1) append_is_Nil_conv length_0_conv length_sort)
  obtain x where x: "is_next (set (keys m)) (key_hash m k) x" "route m k = owner_of m x"
    by (rule route_next [OF assms False])
  obtain y where y: "is_next (set (keys m) \<union> set (vhashes (config m) addr r)) (key_hash m k) y"
    "route (addNode addr r m) k = owner_of (addNode addr r m) y"
    by (rule route_next [OF _ ne, of k]) (simp_all add: key_hash_def)
  from is_next_add [OF x(1) y(1)] show ?thesis
    using x(2) y(2) by (auto simp: owner_of_def)
qed

lemma route_removeNoLock:
  assumes ex: "ring_exact m" and r: "route m k \<noteq> addr"
  shows "route (removeNoLock addr m) k = route m k"
proof -
  have inv: "ring_inv m" by (rule ring_exactD(1) [OF ex])
  note s = ring_invD(1) [OF inv]
  note R = removeNoLock_simps [OF s, of addr]
  show ?thesis
  proof (cases "keys m = []")
    case True
    then have "keys (removeNoLock addr m) = []" using R(2) by simp
    then show ?thesis using True by (simp add: route_empty)
  next
    case False
    obtain x where x: "is_next (set (keys m)) (key_hash m k) x" "route m k = owner_of m x"
      by (rule route_next [OF s False])
    have nx: "x \<notin> set (node_hashes m addr)"
    proof
      assume h: "x \<in> set (node_hashes m addr)"
      then have "hashMap m x = Some addr" using ring_exactD(2) [OF ex node_hashes_member [OF h] h] by simp
      then show False using x(2) r by (simp add: owner_of_def)
    qed
    have y: "is_next (set (keys (removeNoLock addr m))) (key_hash m k) x"
      unfolding keys_remove [OF ex] by (rule is_next_diff [OF x(1) nx])
    then have ne: "keys (removeNoLock addr m) \<noteq> []" by (auto simp: is_next_def)
    obtain z where z: "is_next (set (keys (removeNoLock addr m))) (key_hash (removeNoLock addr m) k) z"
      "route (removeNoLock addr m) k = owner_of (removeNoLock addr m) z"
      by (rule route_next [OF R(1) ne])
    have "z = x" using z(1) y is_next_unique R(4) by (simp add: key_hash_def)
    then show ?thesis using z(2) x(2) nx by (simp add: owner_of_def R(3) node_hashes_def)
  qed
qed

lemma route_member:
  assumes "ring_exact m" "keys m \<noteq> []"
  shows "route m k \<in> members m"
proof -
  have inv: "ring_inv m" by (rule ring_exactD(1) [OF assms(1)])
  obtain x where x: "is_next (set (keys m)) (key_hash m k) x" "route m k = owner_of m x"
    by (rule route_next [OF ring_invD(1) [OF inv] assms(2)])
  then obtain a where "a \<in> members m" "x \<in> set (node_hashes m a)"
    unfolding is_next_def set_keys [OF inv] by blast
  then show ?thesis using ring_exactD(2) [OF assms(1)] x(2) by (simp add: owner_of_def)
qed

subsection \<open>The ring is a router\<close>

definition apart :: "con_hash \<Rightarrow> string \<Rightarrow> bool" where
  "apart m addr \<longleftrightarrow>
     set (vhashes (config m) addr (DefaultReplicas (config m))) \<inter> set (keys m) = {}"

lemma Map_Add_cases:
  "Map_Add addr m = (if addr \<in> members m then m else addNode addr (DefaultReplicas (config m)) m)"
  by (auto simp: Map_Add_def members_def)

lemma Map_Remove_cases:
  "Map_Remove addr m = (if addr \<in> members m then removeNoLock addr m else m)"
  by (auto simp: Map_Remove_def members_def)

interpretation ring: exact_router ring_inv members route Map_Add Map_Remove ring_exact apart
proof
  fix m a k
  assume inv: "ring_inv m"
  note s = ring_invD(1) [OF inv]
  show "ring_inv (Map_Add a m) \<and> members (Map_Add a m) = insert a (members m) \<and>
      (route (Map_Add a m) k = route m k \<or> route (Map_Add a m) k = a)"
    using ring_inv_add [OF inv, of a] route_addNode [OF s, of a _ k] inv
    by (simp add: Map_Add_cases insert_absorb)
  show "ring_inv (Map_Remove a m) \<and> members (Map_Remove a m) = members m - {a}"
    using ring_inv_remove [OF inv, of a] remove_fields(3) [OF s, of a] inv by (simp add: Map_Remove_cases)
next
  fix m a k
  assume ex: "ring_exact m"
  show "ring_inv m" by (rule ring_exactD(1) [OF ex])
  show "apart m a \<Longrightarrow> ring_exact (Map_Add a m)"
    using ring_exact_add [OF ex, of a] ex by (simp add: Map_Add_cases apart_def)
  show "ring_exact (Map_Remove a m)" using ring_exact_remove [OF ex, of a] ex by (simp add: Map_Remove_cases)
  show "route m k \<noteq> a \<Longrightarrow> route (Map_Remove a m) k = route m k"
    using route_removeNoLock [OF ex, of k a] by (simp add: Map_Remove_cases)
qed

end
