(* ===== verification/Con_Hash_Rebalance.thy ===== *)
theory Con_Hash_Rebalance
  imports Con_Hash_Route
begin

text \<open>
  Rebalancing: what one decision does to one node, what the loop over \<open>nodeCounts\<close> does to all
  of them, in whatever order the map is visited, and the bounds on the replica counts.
\<close>

subsection \<open>One node\<close>

lemma new_replicas_bounds:
  assumes "MinReplicas (config m) \<le> MaxReplicas (config m)" "new_replicas m avg a val = (r, flag)"
  shows "MinReplicas (config m) \<le> r" "r \<le> MaxReplicas (config m)"
  using assms by (auto simp: new_replicas_def Let_def split: if_splits)

lemma new_replicas_cong:
  "config m' = config m \<Longrightarrow> nodeReplicas m' a = nodeReplicas m a \<Longrightarrow>
    new_replicas m' avg a val = new_replicas m avg a val"
  unfolding new_replicas_def replicas_of_def by (simp only:)

text \<open>The fields that a rebalance of one node touches; a sorted slice is enough.\<close>

lemma rebalance_simps:
  assumes "sorted (keys m)"
  shows "sorted (keys (rebalanceReplicas a r m))"
    "nodeReplicas (rebalanceReplicas a r m) = (nodeReplicas m)(a \<mapsto> r)"
    "map_of (nodeCounts (rebalanceReplicas a r m)) = (map_of (nodeCounts m))(a := if r \<le> 0 then None else Some 0)"
    "config (rebalanceReplicas a r m) = config m"
  by (simp_all add: rebalanceReplicas_def removeNoLock_simps [OF assms] fun_eq_iff)

lemma rebalance_inv:
  assumes "ring_inv m"
  shows "ring_inv (rebalanceReplicas a r m)"
  unfolding rebalanceReplicas_def
  by (rule ring_inv_add [OF ring_inv_remove [OF assms]]) (simp add: remove_fields [OF ring_invD(1) [OF assms]])

subsection \<open>All nodes\<close>

lemma check_nodes_None: "map_of (nodeCounts m) a = None \<Longrightarrow> check_nodes avg (a # as) m = check_nodes avg as m"
  by simp

lemma check_nodes_Some:
  "map_of (nodeCounts m) a = Some val \<Longrightarrow> check_nodes avg (a # as) m =
    (fst (check_nodes avg as (fst (check_node avg a val m))),
     snd (check_node avg a val m) \<or> snd (check_nodes avg as (fst (check_node avg a val m))))"
  by (simp add: case_prod_beta)

declare check_nodes.simps(2) [simp del]

text \<open>The loop is a sequence of rebalances of single nodes: what each of them keeps, the loop keeps,
  whatever keys the iteration produces.\<close>

lemma check_nodes_keeps:
  assumes "P m" "\<And>m a val r. P m \<Longrightarrow> new_replicas m avg a val = (r, True) \<Longrightarrow> P (rebalanceReplicas a r m)"
  shows "P (fst (check_nodes avg visits m))"
  using assms(1)
proof (induction visits arbitrary: m)
  case (Cons a as)
  show ?case
  proof (cases "map_of (nodeCounts m) a")
    case None
    then show ?thesis using Cons by (simp add: check_nodes_None del: map_of_eq_None_iff)
  next
    case (Some val)
    obtain r flag where n: "new_replicas m avg a val = (r, flag)" by fastforce
    then have "P (fst (check_node avg a val m))" using Cons.prems assms(2) by (cases flag) (simp_all add: check_node_def)
    then show ?thesis using Cons.IH by (simp add: check_nodes_Some [OF Some])
  qed
qed simp

lemma check_nodes_inv:
  assumes "ring_inv m"
  shows "ring_inv (fst (check_nodes avg visits m)) \<and> config (fst (check_nodes avg visits m)) = config m"
  by (rule check_nodes_keeps [where P = "\<lambda>m'. ring_inv m' \<and> config m' = config m"])
     (use assms in \<open>auto simp: rebalance_inv rebalance_simps ring_invD(1)\<close>)

text \<open>A slice that is sorted and replica counts in their bounds: what holds on every node, also one
  that has installed a snapshot.\<close>

definition replicas_bounded :: "con_hash \<Rightarrow> bool" where
  "replicas_bounded m \<longleftrightarrow>
     (\<forall>a r. nodeReplicas m a = Some r \<longrightarrow> MinReplicas (config m) \<le> r \<and> r \<le> MaxReplicas (config m))"

definition tidy :: "con_hash \<Rightarrow> bool" where
  "tidy m \<longleftrightarrow> sorted (keys m) \<and> replicas_bounded m \<and> MinReplicas (config m) \<le> MaxReplicas (config m)"

lemma tidy_rebalance:
  assumes "tidy m" "MinReplicas (config m) \<le> r" "r \<le> MaxReplicas (config m)"
  shows "tidy (rebalanceReplicas a r m) \<and> config (rebalanceReplicas a r m) = config m"
  using assms by (simp add: tidy_def replicas_bounded_def rebalance_simps)

lemma tidy_check_nodes:
  assumes "tidy m"
  shows "tidy (fst (check_nodes avg visits m)) \<and> config (fst (check_nodes avg visits m)) = config m"
proof (rule check_nodes_keeps [where P = "\<lambda>m'. tidy m' \<and> config m' = config m"])
  fix m' a val r
  assume P: "tidy m' \<and> config m' = config m" and n: "new_replicas m' avg a val = (r, True)"
  have "MinReplicas (config m') \<le> MaxReplicas (config m')" using P unfolding tidy_def by blast
  from new_replicas_bounds [OF this n] show "tidy (rebalanceReplicas a r m') \<and> config (rebalanceReplicas a r m') = config m"
    using tidy_rebalance [of m' r a] P by simp
qed (use assms in simp)

subsection \<open>The judgement of one node\<close>

text \<open>What the loop knows of a node: its replicas and its load count.\<close>

type_synonym node_load = "int option \<times> int option"

definition load_state :: "con_hash \<Rightarrow> string \<Rightarrow> node_load" where
  "load_state m a = (nodeReplicas m a, map_of (nodeCounts m) a)"

definition above_limit :: "config \<Rightarrow> int \<Rightarrow> int \<Rightarrow> bool" where
  "above_limit cfg avg val \<longleftrightarrow> f64_div (f64_of_int val) (f64_of_int avg) > MaxLoadBalanceThreshold cfg"

definition below_limit :: "config \<Rightarrow> int \<Rightarrow> int \<Rightarrow> bool" where
  "below_limit cfg avg val \<longleftrightarrow> f64_div (f64_of_int val) (f64_of_int avg) < MinLoadBalanceThreshold cfg"

definition clamp :: "config \<Rightarrow> int \<Rightarrow> int" where
  "clamp cfg r = max (MinReplicas cfg) (min (MaxReplicas cfg) (int64 r))"

definition resized :: "int \<Rightarrow> node_load" where
  "resized r = (Some r, if 0 < r then Some 0 else None)"

definition old_replicas :: "int option \<Rightarrow> int" where
  "old_replicas rep = (case rep of Some r \<Rightarrow> r | None \<Rightarrow> 0)"

fun judge :: "config \<Rightarrow> int \<Rightarrow> node_load \<Rightarrow> node_load" where
  "judge cfg avg (rep, None) = (rep, None)"
| "judge cfg avg (rep, Some val) =
     (if above_limit cfg avg val then resized (clamp cfg (old_replicas rep - 10))
      else if below_limit cfg avg val then resized (clamp cfg (old_replicas rep + 10))
      else (rep, Some val))"

fun judged :: "config \<Rightarrow> int \<Rightarrow> node_load \<Rightarrow> bool" where
  "judged cfg avg (rep, None) = False"
| "judged cfg avg (rep, Some val) = (above_limit cfg avg val \<or> below_limit cfg avg val)"

lemma judge_idle: "\<not> judged cfg avg s \<Longrightarrow> judge cfg avg s = s"
  by (cases "(cfg, avg, s)" rule: judge.cases) simp_all

lemma new_replicas_judge:
  assumes "new_replicas m avg a val = (r, flag)"
  shows "flag = judged (config m) avg (nodeReplicas m a, Some val)"
    "flag \<Longrightarrow> judge (config m) avg (nodeReplicas m a, Some val) = resized r"
  using assms
  by (auto simp: new_replicas_def Let_def above_limit_def below_limit_def clamp_def old_replicas_def replicas_of_def
      split: if_splits)

text \<open>One visit changes the node that is visited and no other.\<close>

lemma check_nodes_visit:
  assumes "sorted (keys m)"
  obtains m1 where "check_nodes avg (b # bs) m =
      (fst (check_nodes avg bs m1), judged (config m) avg (load_state m b) \<or> snd (check_nodes avg bs m1))"
    "sorted (keys m1)" "config m1 = config m"
    "\<forall>a. load_state m1 a = (if a = b then judge (config m) avg (load_state m a) else load_state m a)"
proof (cases "map_of (nodeCounts m) b")
  case None
  then show thesis using that [of m] assms by (simp add: check_nodes_None load_state_def del: map_of_eq_None_iff)
next
  case (Some val)
  obtain r flag where n: "new_replicas m avg b val = (r, flag)" by fastforce
  let ?m = "fst (check_node avg b val m)"
  note J = new_replicas_judge [OF n]
  have t: "sorted (keys ?m)" "config ?m = config m" using assms by (simp_all add: check_node_def n rebalance_simps)
  have "\<forall>a. load_state ?m a = (if a = b then judge (config m) avg (load_state m a) else load_state m a)"
  proof (cases flag)
    case True
    then show ?thesis using J by (simp add: check_node_def n load_state_def rebalance_simps [OF assms] Some resized_def)
  next
    case False
    then show ?thesis using J(1) judge_idle by (simp add: check_node_def n load_state_def Some)
  qed
  moreover have "snd (check_node avg b val m) = judged (config m) avg (load_state m b)"
    using J(1) by (simp add: check_node_def n load_state_def Some)
  ultimately show thesis using that [of ?m] t by (simp add: check_nodes_Some [OF Some])
qed

lemma check_nodes_judge:
  assumes "sorted (keys m)"
  shows "load_state (fst (check_nodes avg visits m)) a = (judge (config m) avg ^^ count_list visits a) (load_state m a) \<and>
    (snd (check_nodes avg visits m) \<longleftrightarrow> (\<exists>b\<in>set visits. judged (config m) avg (load_state m b)))"
  using assms
proof (induction visits arbitrary: m)
  case (Cons b bs)
  obtain m1 where M: "check_nodes avg (b # bs) m =
      (fst (check_nodes avg bs m1), judged (config m) avg (load_state m b) \<or> snd (check_nodes avg bs m1))"
    "sorted (keys m1)" "config m1 = config m"
    "\<forall>a. load_state m1 a = (if a = b then judge (config m) avg (load_state m a) else load_state m a)"
    by (rule check_nodes_visit [OF Cons.prems])
  note IH = Cons.IH [OF M(2), unfolded M(3)]
  have "load_state m1 = load_state m" if "\<not> judged (config m) avg (load_state m b)"
    using M(4) judge_idle [OF that] by (simp add: fun_eq_iff)
  moreover have "load_state (fst (check_nodes avg (b # bs) m)) a =
      (judge (config m) avg ^^ count_list (b # bs) a) (load_state m a)"
    using IH M(4) by (simp add: M(1) funpow_swap1)
  ultimately show ?case using IH by (auto simp: M(1))
qed simp

subsection \<open>The average\<close>

lemma total_count_sum:
  assumes "\<forall>(a, v)\<in>set cs. 0 \<le> v" "0 \<le> t" "t + sum_list (map snd cs) < 2 ^ 63"
  shows "foldl (\<lambda>total (addr, val). int64 (total + val)) t cs = t + sum_list (map snd cs)"
  using assms
proof (induction cs arbitrary: t)
  case (Cons c cs)
  obtain a v where c: "c = (a, v)" by (cases c)
  have "0 \<le> sum_list (map snd cs)" using Cons.prems(1) by (intro sum_list_nonneg) auto
  then have "int64 (t + v) = t + v" using Cons.prems by (intro int64_id) (auto simp: c)
  then show ?case using Cons by (simp add: c algebra_simps)
qed simp

definition average :: "con_hash \<Rightarrow> int" where
  "average m = total_count m sdiv int (length (nodeCounts m))"

lemma average_div:
  assumes "\<forall>(a, v)\<in>set (nodeCounts m). 0 \<le> v" "sum_list (map snd (nodeCounts m)) < 2 ^ 63"
  shows "average m = sum_list (map snd (nodeCounts m)) div int (length (nodeCounts m))"
proof -
  have t: "total_count m = sum_list (map snd (nodeCounts m))"
    using total_count_sum [OF assms(1), of 0] assms(2) by (simp add: total_count_def)
  have "0 \<le> sum_list (map snd (nodeCounts m))" using assms(1) by (intro sum_list_nonneg) auto
  then show ?thesis by (auto simp: average_def t signed_divide_int_def sgn_if)
qed

lemma checkAndRebalance_cases:
  "checkAndRebalance visits m =
    (if nodeCounts m = [] then None else if average m = 0 then Some (m, False)
     else Some (check_nodes (average m) visits m))"
  by (simp add: checkAndRebalance_def average_def Let_def)

text \<open>What a rebalance of one node means for the routes of the others.\<close>

lemma route_rebalance:
  assumes "ring_exact m" "route m k \<noteq> a"
  shows "route (rebalanceReplicas a r m) k = route m k \<or> route (rebalanceReplicas a r m) k = a"
proof -
  have s: "sorted (keys (removeNoLock a m))"
    using removeNoLock_simps(1) ring_invD(1) ring_exactD(1) [OF assms(1)] by blast
  show ?thesis using route_addNode [OF s, of a r k] route_removeNoLock [OF assms] by (simp add: rebalanceReplicas_def)
qed

end
