(* ===== verification/Go_Utf8.thy ===== *)
theory Go_Utf8
  imports Prelude
begin

text \<open>
  UTF-8 as \<open>unicode/utf8\<close> of Go's standard library defines it, on byte strings: the length of the
  first well-formed sequence of a string (\<open>DecodeRune\<close> with its table of accepted second bytes), and
  the encoding of a code point (\<open>EncodeRune\<close>), with \<open>utf16.DecodeRune\<close> for surrogate pairs.
\<close>

definition byte :: "char \<Rightarrow> nat" where
  "byte c = of_char c"

definition chr :: "nat \<Rightarrow> char" where
  "chr n = char_of n"

lemma byte_chr [simp]: "n < 256 \<Longrightarrow> byte (chr n) = n"
  by (simp add: byte_def chr_def)

lemma chr_byte [simp]: "chr (byte c) = c"
  by (simp add: byte_def chr_def)

lemma byte_inject [simp]: "byte c = byte d \<longleftrightarrow> c = d"
  by (metis chr_byte)

subsection \<open>Decoding\<close>

fun conts :: "(nat \<times> nat) list \<Rightarrow> string \<Rightarrow> bool" where
  "conts [] s = True"
| "conts ((lo, hi) # rs) (c # s) = (lo \<le> byte c \<and> byte c \<le> hi \<and> conts rs s)"
| "conts (_ # _) [] = False"

text \<open>The ranges of the bytes that may follow a first byte; \<open>None\<close> for a byte that starts nothing.\<close>

definition tail_ranges :: "nat \<Rightarrow> (nat \<times> nat) list option" where
  "tail_ranges b =
     (if b < 128 then Some []
      else if b < 194 then None
      else if b < 224 then Some [(128, 191)]
      else if b < 240 then
        Some [(if b = 224 then 160 else 128, if b = 237 then 159 else 191), (128, 191)]
      else if b < 245 then
        Some [(if b = 240 then 144 else 128, if b = 244 then 143 else 191), (128, 191), (128, 191)]
      else None)"

text \<open>The length of the first sequence; 0 stands for \<open>RuneError\<close> of width 1 (or of no byte at all).\<close>

definition utf8_len :: "string \<Rightarrow> nat" where
  "utf8_len s =
     (case s of
        [] \<Rightarrow> 0
      | c # cs \<Rightarrow>
          (case tail_ranges (byte c) of
             None \<Rightarrow> 0
           | Some rs \<Rightarrow> if conts rs cs then Suc (length rs) else 0))"

lemma conts_length: "conts rs s \<Longrightarrow> length rs \<le> length s"
  by (induction rs s rule: conts.induct) auto

lemma conts_take: "conts rs s \<Longrightarrow> conts rs (take (length rs) s @ t)"
  by (induction rs s rule: conts.induct) auto

lemma conts_bytes:
  "conts rs s \<Longrightarrow> \<forall>(lo, hi)\<in>set rs. 128 \<le> lo \<Longrightarrow> c \<in> set (take (length rs) s) \<Longrightarrow> 128 \<le> byte c"
  by (induction rs s rule: conts.induct) auto

lemma tail_ranges_high: "tail_ranges b = Some rs \<Longrightarrow> \<forall>(lo, hi)\<in>set rs. 128 \<le> lo"
  by (auto simp: tail_ranges_def split: if_splits)

lemma utf8_len_le: "utf8_len s \<le> length s"
  using conts_length by (fastforce simp: utf8_len_def split: list.split option.split)

lemma utf8_len_take: "0 < utf8_len s \<Longrightarrow> utf8_len (take (utf8_len s) s @ t) = utf8_len s"
  using conts_take [of _ _ t] by (fastforce simp: utf8_len_def split: list.splits option.splits if_splits)

lemma utf8_len_ascii: "byte c < 128 \<Longrightarrow> utf8_len (c # cs) = 1"
  by (simp add: utf8_len_def tail_ranges_def)

lemma utf8_len_bytes:
  "128 \<le> byte c \<Longrightarrow> d \<in> set (take (utf8_len (c # cs)) (c # cs)) \<Longrightarrow> 128 \<le> byte d"
  using conts_bytes tail_ranges_high
  by (fastforce simp: utf8_len_def split: option.splits if_splits)

subsection \<open>Well-formed strings\<close>

function valid_utf8 :: "string \<Rightarrow> bool" where
  "valid_utf8 s =
     (if s = [] then True else if utf8_len s = 0 then False else valid_utf8 (drop (utf8_len s) s))"
  by pat_completeness auto
termination
  by (relation "measure length") auto

declare valid_utf8.simps [simp del]

lemma valid_utf8_Nil [simp]: "valid_utf8 []"
  by (simp add: valid_utf8.simps)

lemma valid_utf8_seq:
  assumes "0 < utf8_len s" "valid_utf8 t"
  shows "valid_utf8 (take (utf8_len s) s @ t)"
proof -
  have "length (take (utf8_len s) s) = utf8_len s" using utf8_len_le by simp
  then show ?thesis
    using assms utf8_len_take [OF assms(1), of t]
    by (subst valid_utf8.simps) simp
qed

lemma valid_utf8_append: "valid_utf8 s \<Longrightarrow> valid_utf8 t \<Longrightarrow> valid_utf8 (s @ t)"
proof (induction s rule: valid_utf8.induct)
  case (1 s)
  show ?case
  proof (cases "s = []")
    case False
    then have "0 < utf8_len s" "valid_utf8 (drop (utf8_len s) s)"
      using "1.prems"(1) by (simp_all add: valid_utf8.simps [of s] split: if_splits)
    then have "valid_utf8 (take (utf8_len s) s @ drop (utf8_len s) s @ t)"
      using "1.IH" False "1.prems"(2) by (intro valid_utf8_seq) simp_all
    then show ?thesis by (metis append.assoc append_take_drop_id)
  qed (use "1.prems" in simp)
qed

lemma valid_utf8_ascii: "\<forall>c\<in>set s. byte c < 128 \<Longrightarrow> valid_utf8 s"
proof (induction s)
  case (Cons c s)
  then show ?case using valid_utf8_seq [of "c # s" s] utf8_len_ascii [of c s] by simp
qed simp

subsection \<open>Encoding\<close>

definition replacement :: string where
  "replacement = [chr 239, chr 191, chr 189]"

definition is_surrogate :: "nat \<Rightarrow> bool" where
  "is_surrogate r \<longleftrightarrow> 55296 \<le> r \<and> r < 57344"

definition EncodeRune :: "nat \<Rightarrow> string" where
  "EncodeRune r =
     (if r < 128 then [chr r]
      else if r < 2048 then [chr (192 + r div 64), chr (128 + r mod 64)]
      else if is_surrogate r then replacement
      else if r < 65536 then [chr (224 + r div 4096), chr (128 + r div 64 mod 64), chr (128 + r mod 64)]
      else if r < 1114112 then
        [chr (240 + r div 262144), chr (128 + r div 4096 mod 64), chr (128 + r div 64 mod 64),
         chr (128 + r mod 64)]
      else replacement)"

definition utf16_decode :: "nat \<Rightarrow> nat \<Rightarrow> nat option" where
  "utf16_decode r1 r2 =
     (if 55296 \<le> r1 \<and> r1 < 56320 \<and> 56320 \<le> r2 \<and> r2 < 57344
      then Some ((r1 - 55296) * 1024 + (r2 - 56320) + 65536) else None)"

lemma valid_utf8_one: "utf8_len s = length s \<Longrightarrow> valid_utf8 s"
  using valid_utf8_seq [of s "[]"] by (cases "s = []") auto

lemma valid_replacement: "valid_utf8 replacement"
  by (rule valid_utf8_one) (simp add: replacement_def utf8_len_def tail_ranges_def)

lemma valid_EncodeRune: "valid_utf8 (EncodeRune r)"
proof -
  consider "r < 128" | "128 \<le> r" "r < 2048" | "2048 \<le> r" "r < 65536" "\<not> is_surrogate r"
    | "65536 \<le> r" "r < 1114112" | "is_surrogate r" | "1114112 \<le> r"
    by linarith
  then show ?thesis
  proof cases
    case 1
    then show ?thesis by (auto simp: EncodeRune_def intro!: valid_utf8_ascii)
  next
    case 2
    then have "2 \<le> r div 64" "r div 64 < 32" "r mod 64 < 64" by auto
    then show ?thesis using 2
      by (intro valid_utf8_one) (simp add: EncodeRune_def utf8_len_def tail_ranges_def)
  next
    case 3
    define q where "q = r div 64"
    have q: "32 \<le> q" "q < 1024" "q < 864 \<or> 896 \<le> q" "r div 4096 = q div 64"
      using 3 div_mult2_eq [of r 64 64] by (auto simp: q_def is_surrogate_def)
    have "q div 64 < 16" using q(2) by simp
    moreover have "32 \<le> q mod 64" if "q div 64 = 0" using that q(1) by (simp add: div_eq_0_iff)
    moreover have "q mod 64 < 32" if "q div 64 = 13"
      using that q(3) div_mult_mod_eq [of q 64] by linarith
    ultimately have "r div 4096 < 16" "r div 64 mod 64 < 64" "r mod 64 < 64"
      "r div 4096 = 0 \<Longrightarrow> 32 \<le> r div 64 mod 64" "r div 4096 = 13 \<Longrightarrow> r div 64 mod 64 < 32"
      unfolding q(4) q_def [symmetric] by simp_all
    then show ?thesis using 3
      by (intro valid_utf8_one) (auto simp: EncodeRune_def utf8_len_def tail_ranges_def)
  next
    case 4
    define p where "p = r div 4096"
    have p: "16 \<le> p" "p < 272" "r div 262144 = p div 64"
      using 4 div_mult2_eq [of r 4096 64] by (auto simp: p_def)
    have "p div 64 < 5" using p(2) by simp
    moreover have "16 \<le> p mod 64" if "p div 64 = 0" using that p(1) by (simp add: div_eq_0_iff)
    moreover have "p mod 64 < 16" if "p div 64 = 4"
      using that p(2) div_mult_mod_eq [of p 64] by linarith
    ultimately have "r div 262144 < 5" "r div 4096 mod 64 < 64" "r div 64 mod 64 < 64" "r mod 64 < 64"
      "r div 262144 = 0 \<Longrightarrow> 16 \<le> r div 4096 mod 64" "r div 262144 = 4 \<Longrightarrow> r div 4096 mod 64 < 16"
      unfolding p(3) p_def [symmetric] by simp_all
    then show ?thesis using 4
      by (intro valid_utf8_one) (auto simp: EncodeRune_def utf8_len_def tail_ranges_def is_surrogate_def)
  next
    case 5
    then show ?thesis using valid_replacement by (simp add: EncodeRune_def is_surrogate_def)
  next
    case 6
    then show ?thesis using valid_replacement by (simp add: EncodeRune_def)
  qed
qed

end
