(* ===== verification/Go_Json.thy ===== *)
theory Go_Json
  imports Go_Utf8 Go_Std
begin

text \<open>
  The part of \<open>encoding/json\<close> of Go's standard library that the ring snapshots use: reading a text
  into a JSON value (the grammar its scanner accepts, with the nesting limit and the treatment of
  escapes and ill-formed UTF-8), and writing strings.

  A text is cut into tokens, then a parser with an explicit stack reads the tokens, one at a time, as
  the scanner of the library does. \<^term>\<open>None\<close> is a syntax error.
\<close>

subsection \<open>Writing strings\<close>

definition hex_digit :: "nat \<Rightarrow> char" where
  "hex_digit d = chr (if d < 10 then 48 + d else 87 + d)"

definition backslash :: char where "backslash = CHR 0x5C"
definition dquote :: char where "dquote = CHR 0x22"

text \<open>An ASCII byte inside of a string; \<open>Marshal\<close> also escapes the characters of HTML.\<close>

definition quote_ascii :: "char \<Rightarrow> string" where
  "quote_ascii c =
     (let n = byte c
      in if n = 34 \<or> n = 92 then [backslash, c]
         else if n = 8 then backslash # ''b''
         else if n = 12 then backslash # ''f''
         else if n = 10 then backslash # ''n''
         else if n = 13 then backslash # ''r''
         else if n = 9 then backslash # ''t''
         else if n < 32 \<or> n = 60 \<or> n = 62 \<or> n = 38
           then backslash # ''u00'' @ [hex_digit (n div 16), hex_digit (n mod 16)]
         else [c])"

text \<open>A well-formed sequence is copied, except for the two line separators of JavaScript.\<close>

definition quote_seq :: "string \<Rightarrow> string" where
  "quote_seq u =
     (if u = [chr 226, chr 128, chr 168] then backslash # ''u2028''
      else if u = [chr 226, chr 128, chr 169] then backslash # ''u2029''
      else u)"

function quote_body :: "string \<Rightarrow> string" where
  "quote_body [] = []"
| "quote_body (c # cs) =
     (if byte c < 128 then quote_ascii c @ quote_body cs
      else let n = utf8_len (c # cs)
           in if n = 0 then backslash # ''ufffd'' @ quote_body cs
              else quote_seq (take n (c # cs)) @ quote_body (drop n (c # cs)))"
  by pat_completeness auto
termination by (relation "measure length") auto

declare quote_body.simps [simp del]

definition quote :: "string \<Rightarrow> string" where
  "quote s = dquote # quote_body s @ [dquote]"

subsection \<open>Reading strings\<close>

definition hex_value :: "char \<Rightarrow> nat option" where
  "hex_value c =
     (let n = byte c
      in if 48 \<le> n \<and> n \<le> 57 then Some (n - 48)
         else if 97 \<le> n \<and> n \<le> 102 then Some (n - 87)
         else if 65 \<le> n \<and> n \<le> 70 then Some (n - 55)
         else None)"

text \<open>\<open>getu4\<close>, after the backslash and the \<open>u\<close>.\<close>

definition hex4 :: "string \<Rightarrow> nat option" where
  "hex4 s =
     (case s of
        a # b # c # d # _ \<Rightarrow> do {
          a \<leftarrow> hex_value a; b \<leftarrow> hex_value b; c \<leftarrow> hex_value c; d \<leftarrow> hex_value d;
          Some (((a * 16 + b) * 16 + c) * 16 + d) }
      | _ \<Rightarrow> None)"

text \<open>The length of the next element of a string literal; 0 if the scanner rejects it.\<close>

definition scan_unit :: "string \<Rightarrow> nat" where
  "scan_unit s =
     (case s of
        [] \<Rightarrow> 0
      | c # cs \<Rightarrow>
          if c = backslash then
            (case cs of
               [] \<Rightarrow> 0
             | e # ds \<Rightarrow>
                 if e = backslash \<or> e = dquote \<or> e \<in> set ''/bfnrt'' then 2
                 else if e = CHR ''u'' \<and> hex4 ds \<noteq> None then 6 else 0)
          else if byte c < 32 then 0 else 1)"

text \<open>The contents of a literal up to the closing quote, and what follows it.\<close>

function scan_string :: "string \<Rightarrow> (string \<times> string) option" where
  "scan_string s =
     (if s = [] then None
      else if hd s = dquote then Some ([], tl s)
      else if scan_unit s = 0 then None
      else map_option (\<lambda>(raw, rest). (take (scan_unit s) s @ raw, rest))
             (scan_string (drop (scan_unit s) s)))"
  by pat_completeness auto
termination by (relation "measure length") auto

declare scan_string.simps [simp del]

text \<open>One round of the loop of \<open>unquote\<close>: the bytes it writes and the rest.\<close>

definition unquote_u :: "string \<Rightarrow> (string \<times> string) option" where
  "unquote_u ds =
     (case hex4 ds of
        None \<Rightarrow> None
      | Some r \<Rightarrow>
          let ds' = drop 4 ds
          in if is_surrogate r then
               (case (if take 2 ds' = [backslash, CHR ''u''] then hex4 (drop 2 ds') else None) of
                  None \<Rightarrow> Some (replacement, ds')
                | Some r1 \<Rightarrow>
                    (case utf16_decode r r1 of
                       None \<Rightarrow> Some (replacement, ds')
                     | Some p \<Rightarrow> Some (EncodeRune p, drop 6 ds')))
             else Some (EncodeRune r, ds'))"

definition unquote_unit :: "string \<Rightarrow> (string \<times> string) option" where
  "unquote_unit s =
     (case s of
        [] \<Rightarrow> None
      | c # cs \<Rightarrow>
          if c = backslash then
            (case cs of
               [] \<Rightarrow> None
             | e # ds \<Rightarrow>
                 if e = backslash \<or> e = dquote \<or> e = CHR ''/'' then Some ([e], ds)
                 else if e = CHR ''b'' then Some ([chr 8], ds)
                 else if e = CHR ''f'' then Some ([chr 12], ds)
                 else if e = CHR ''n'' then Some ([chr 10], ds)
                 else if e = CHR ''r'' then Some ([chr 13], ds)
                 else if e = CHR ''t'' then Some ([chr 9], ds)
                 else if e = CHR ''u'' then unquote_u ds else None)
          else if c = dquote \<or> byte c < 32 then None
          else let n = utf8_len s
               in if n = 0 then Some (replacement, cs) else Some (take n s, drop n s))"

lemma unquote_u_shorter: "unquote_u ds = Some (u, r) \<Longrightarrow> length r \<le> length ds"
  by (auto simp: unquote_u_def Let_def split: option.splits if_splits)

lemma unquote_unit_shorter [termination_simp]: "unquote_unit s = Some (u, r) \<Longrightarrow> length r < length s"
  using unquote_u_shorter
  by (fastforce simp: unquote_unit_def Let_def split: list.splits if_splits)

function unquote :: "string \<Rightarrow> string option" where
  "unquote s =
     (if s = [] then Some []
      else case unquote_unit s of
          None \<Rightarrow> None
        | Some (u, r) \<Rightarrow> map_option ((@) u) (unquote r))"
  by pat_completeness auto
termination by (relation "measure length") (auto simp: unquote_unit_shorter)

declare unquote.simps [simp del]

subsection \<open>Numbers\<close>

definition is_digit :: "char \<Rightarrow> bool" where
  "is_digit c \<longleftrightarrow> 48 \<le> byte c \<and> byte c \<le> 57"

definition exp_ok :: "string \<Rightarrow> bool" where
  "exp_ok s =
     (case s of
        [] \<Rightarrow> True
      | c # cs \<Rightarrow>
          (c = CHR ''e'' \<or> c = CHR ''E'') \<and>
          (let ds = (case cs of d # ds \<Rightarrow> if d = CHR ''+'' \<or> d = CHR ''-'' then ds else cs | [] \<Rightarrow> [])
           in ds \<noteq> [] \<and> list_all is_digit ds))"

definition frac_ok :: "string \<Rightarrow> bool" where
  "frac_ok s =
     (case s of
        c # cs \<Rightarrow>
          if c = CHR ''.'' then cs \<noteq> [] \<and> is_digit (hd cs) \<and> exp_ok (dropWhile is_digit cs)
          else exp_ok s
      | [] \<Rightarrow> True)"

definition number_ok :: "string \<Rightarrow> bool" where
  "number_ok s =
     (case (case s of c # cs \<Rightarrow> if c = CHR ''-'' then cs else s | [] \<Rightarrow> []) of
        [] \<Rightarrow> False
      | c # cs \<Rightarrow>
          if c = CHR ''0'' then frac_ok cs
          else is_digit c \<and> frac_ok (dropWhile is_digit cs))"

subsection \<open>Tokens\<close>

datatype token =
  LBrace | RBrace | LBracket | RBracket | Colon | Comma
| Null | Bool bool | Number string | Str string

definition is_space :: "char \<Rightarrow> bool" where
  "is_space c \<longleftrightarrow> byte c \<in> {32, 9, 10, 13}"

definition number_char :: "char \<Rightarrow> bool" where
  "number_char c \<longleftrightarrow> is_digit c \<or> c \<in> set ''+-.eE''"

definition punctuation :: "char \<Rightarrow> token option" where
  "punctuation c =
     (if c = CHR ''{'' then Some LBrace else if c = CHR ''}'' then Some RBrace
      else if c = CHR ''['' then Some LBracket else if c = CHR '']'' then Some RBracket
      else if c = CHR '':'' then Some Colon else if c = CHR '','' then Some Comma else None)"

text \<open>The first token of a text that does not start with a space, and the rest.\<close>

definition first_token :: "string \<Rightarrow> (token \<times> string) option" where
  "first_token s =
     (case s of
        [] \<Rightarrow> None
      | c # cs \<Rightarrow>
          (case punctuation c of
             Some t \<Rightarrow> Some (t, cs)
           | None \<Rightarrow>
               if c = dquote then do {
                 (raw, rest) \<leftarrow> scan_string cs;
                 str \<leftarrow> unquote raw;
                 Some (Str str, rest) }
               else if is_digit c \<or> c = CHR ''-'' then
                 (let num = takeWhile number_char s
                  in if number_ok num then Some (Number num, dropWhile number_char s) else None)
               else if take 4 s = ''null'' then Some (Null, drop 4 s)
               else if take 4 s = ''true'' then Some (Bool True, drop 4 s)
               else if take 5 s = ''false'' then Some (Bool False, drop 5 s)
               else None))"

lemma scan_string_shorter: "scan_string s = Some (raw, rest) \<Longrightarrow> length rest < length s"
proof (induction s arbitrary: raw rest rule: scan_string.induct)
  case (1 s)
  show ?case
  proof (cases "s = [] \<or> hd s = dquote \<or> scan_unit s = 0")
    case True
    then show ?thesis using "1.prems"
      by (auto simp: scan_string.simps [of s] neq_Nil_conv split: if_splits)
  next
    case False
    then obtain raw' where "scan_string (drop (scan_unit s) s) = Some (raw', rest)"
      using "1.prems" by (auto simp: scan_string.simps [of s])
    then have "length rest < length (drop (scan_unit s) s)" using "1.IH" False by blast
    then show ?thesis by simp
  qed
qed

lemma first_token_shorter: "first_token s = Some (t, rest) \<Longrightarrow> length rest < length s"
proof (cases s)
  case (Cons c cs)
  assume *: "first_token s = Some (t, rest)"
  have "length (dropWhile number_char s) < length s" if "is_digit c \<or> c = CHR ''-''"
    using that Cons length_dropWhile_le [of number_char cs] by (auto simp: number_char_def)
  then show ?thesis using * Cons scan_string_shorter [of cs]
    by (auto simp: first_token_def Let_def less_Suc_eq split: option.splits if_splits Option.bind_splits)
qed (simp add: first_token_def)

function lex_text :: "string \<Rightarrow> token list option" where
  "lex_text s =
     (case dropWhile is_space s of
        [] \<Rightarrow> Some []
      | c # cs \<Rightarrow>
          (case first_token (c # cs) of
             None \<Rightarrow> None
           | Some (t, rest) \<Rightarrow> map_option ((#) t) (lex_text rest)))"
  by pat_completeness auto
termination
proof (relation "measure length")
  fix s c cs x t rest
  assume "dropWhile is_space s = c # cs" "first_token (c # cs) = Some x" "(t, rest) = x"
  then show "(rest, s) \<in> measure length"
    using first_token_shorter [of "c # cs" t rest] length_dropWhile_le [of is_space s] by simp
qed simp

declare lex_text.simps [simp del]

subsection \<open>Values\<close>

datatype json =
  JNull | JBool bool | JNum string | JStr string | JArr "json list" | JObj "(string \<times> json) list"

text \<open>Open arrays with the elements so far, and open objects with the members so far and the pending
  key; \<open>mode\<close> is what the parser has just read or expects.\<close>

datatype frame = InArr "json list" | InObj "(string \<times> json) list" string

datatype mode =
  Begin_value | Begin_value_or_end | Begin_key_or_end "(string \<times> json) list"
| Begin_key "(string \<times> json) list" | After_key "(string \<times> json) list" string | After_value json

definition max_depth :: nat where "max_depth = 10000"

fun begin_value :: "token \<Rightarrow> frame list \<Rightarrow> (mode \<times> frame list) option" where
  "begin_value Null st = Some (After_value JNull, st)"
| "begin_value (Bool b) st = Some (After_value (JBool b), st)"
| "begin_value (Number n) st = Some (After_value (JNum n), st)"
| "begin_value (Str s) st = Some (After_value (JStr s), st)"
| "begin_value LBracket st = (if length st < max_depth then Some (Begin_value_or_end, InArr [] # st) else None)"
| "begin_value LBrace st =
     (if length st < max_depth then Some (Begin_key_or_end [], InObj [] [] # st) else None)"
| "begin_value _ _ = None"

fun parse_step :: "token \<Rightarrow> mode \<times> frame list \<Rightarrow> (mode \<times> frame list) option" where
  "parse_step t (Begin_value, st) = begin_value t st"
| "parse_step t (Begin_value_or_end, st) =
     (if t = RBracket then Some (After_value (JArr []), tl st) else begin_value t st)"
| "parse_step t (Begin_key_or_end ms, st) =
     (case t of Str k \<Rightarrow> Some (After_key ms k, st)
      | RBrace \<Rightarrow> Some (After_value (JObj ms), tl st) | _ \<Rightarrow> None)"
| "parse_step t (Begin_key ms, st) =
     (case t of Str k \<Rightarrow> Some (After_key ms k, st) | _ \<Rightarrow> None)"
| "parse_step t (After_key ms k, st) =
     (if t = Colon then Some (Begin_value, InObj ms k # tl st) else None)"
| "parse_step t (After_value v, InArr vs # st) =
     (case t of Comma \<Rightarrow> Some (Begin_value, InArr (vs @ [v]) # st)
      | RBracket \<Rightarrow> Some (After_value (JArr (vs @ [v])), st) | _ \<Rightarrow> None)"
| "parse_step t (After_value v, InObj ms k # st) =
     (case t of Comma \<Rightarrow> Some (Begin_key (ms @ [(k, v)]), InObj ms k # st)
      | RBrace \<Rightarrow> Some (After_value (JObj (ms @ [(k, v)])), st) | _ \<Rightarrow> None)"
| "parse_step t (After_value v, []) = None"

fun parse_tokens :: "token list \<Rightarrow> mode \<times> frame list \<Rightarrow> json option" where
  "parse_tokens [] (After_value v, []) = Some v"
| "parse_tokens [] _ = None"
| "parse_tokens (t # ts) cfg = (case parse_step t cfg of None \<Rightarrow> None | Some cfg \<Rightarrow> parse_tokens ts cfg)"

definition parse_json :: "string \<Rightarrow> json option" where
  "parse_json s = (case lex_text s of None \<Rightarrow> None | Some ts \<Rightarrow> parse_tokens ts (Begin_value, []))"

end
