(* ===== verification/Go_Json_Round.thy ===== *)
theory Go_Json_Round
  imports Go_Json
begin

text \<open>
  Reading back what \<open>Marshal\<close> writes: string literals, numbers, and whole values. The lemmas follow
  the reader: a scanner that copies a chunk of input (\<open>scans\<close>), an unquoting that turns a chunk into
  bytes (\<open>unquotes\<close>), a lexer that reads a token off the front, and the parser on its stack.
\<close>

subsection \<open>Scanning\<close>

definition scans :: "string \<Rightarrow> bool" where
  "scans u \<longleftrightarrow> (\<forall>r. scan_string (u @ r) = map_option (\<lambda>(raw, rest). (u @ raw, rest)) (scan_string r))"

lemma scansD: "scans u \<Longrightarrow> scan_string (u @ r) = map_option (\<lambda>(raw, rest). (u @ raw, rest)) (scan_string r)"
  by (simp add: scans_def)

lemma scans_Nil [simp]: "scans []"
  by (simp add: scans_def option.map_id)

lemma scans_append: "scans u \<Longrightarrow> scans v \<Longrightarrow> scans (u @ v)"
  by (auto simp: scans_def option.map_comp comp_def case_prod_beta intro: option.map_cong)

lemma byte_literal [simp]: "byte (Char b0 b1 b2 b3 b4 b5 b6 b7) = of_char (Char b0 b1 b2 b3 b4 b5 b6 b7)"
  by (simp add: byte_def)

lemma eq_char_iff:
  "c = dquote \<longleftrightarrow> byte c = 34" "dquote = c \<longleftrightarrow> byte c = 34"
  "c = backslash \<longleftrightarrow> byte c = 92" "backslash = c \<longleftrightarrow> byte c = 92"
  "n < 256 \<Longrightarrow> c = chr n \<longleftrightarrow> byte c = n" "n < 256 \<Longrightarrow> chr n = c \<longleftrightarrow> byte c = n"
  by (auto simp: dquote_def backslash_def simp flip: byte_inject)

lemma special_chars [simp]: "byte dquote = 34" "byte backslash = 92"
  by (simp_all add: dquote_def backslash_def)

lemma scans_unit:
  assumes "\<And>r. scan_unit (u @ r) = length u" "u \<noteq> []" "hd u \<noteq> dquote"
  shows "scans u"
  unfolding scans_def
proof
  fix r
  show "scan_string (u @ r) = map_option (\<lambda>(raw, rest). (u @ raw, rest)) (scan_string r)"
    using assms by (subst scan_string.simps) simp
qed

lemma scans_plain: "32 \<le> byte c \<Longrightarrow> c \<noteq> dquote \<Longrightarrow> c \<noteq> backslash \<Longrightarrow> scans [c]"
  by (rule scans_unit) (simp_all add: scan_unit_def eq_char_iff)

lemma scans_escape: "e = backslash \<or> e = dquote \<or> e \<in> set ''/bfnrt'' \<Longrightarrow> scans [backslash, e]"
  by (rule scans_unit) (auto simp: scan_unit_def eq_char_iff)

lemma hex_value_digit: "d < 16 \<Longrightarrow> hex_value (hex_digit d) = Some d"
  by (simp add: hex_value_def hex_digit_def Let_def)

lemma hex4_digits:
  assumes "a < 16" "b < 16" "c < 16" "d < 16"
  shows "hex4 (hex_digit a # hex_digit b # hex_digit c # hex_digit d # r)
           = Some (((a * 16 + b) * 16 + c) * 16 + d)"
  using assms by (simp add: hex4_def hex_value_digit)

lemma scans_unicode:
  assumes "a < 16" "b < 16" "c < 16" "d < 16"
  shows "scans (backslash # CHR ''u'' # [hex_digit a, hex_digit b, hex_digit c, hex_digit d])"
  by (rule scans_unit) (use hex4_digits [OF assms] in \<open>simp_all add: scan_unit_def eq_char_iff\<close>)

lemma hex_literals:
  "''u00'' = [CHR ''u'', hex_digit 0, hex_digit 0]"
  "''u2028'' = [CHR ''u'', hex_digit 2, hex_digit 0, hex_digit 2, hex_digit 8]"
  "''u2029'' = [CHR ''u'', hex_digit 2, hex_digit 0, hex_digit 2, hex_digit 9]"
  "''ufffd'' = [CHR ''u'', hex_digit 15, hex_digit 15, hex_digit 15, hex_digit 13]"
  by (simp_all add: hex_digit_def eq_char_iff)

lemma scans_ascii: "byte c < 128 \<Longrightarrow> scans (quote_ascii c)"
  unfolding quote_ascii_def Let_def hex_literals
  by (auto intro!: scans_escape scans_unicode scans_plain
      simp: eq_char_iff)

lemma scans_high: "\<forall>c\<in>set u. 128 \<le> byte c \<Longrightarrow> scans u"
proof (induction u)
  case (Cons c u)
  then have "c \<noteq> dquote" "c \<noteq> backslash" by auto
  then have "scans [c]" using Cons.prems by (intro scans_plain) auto
  from scans_append [OF this Cons.IH] Cons.prems show ?case by simp
qed simp

lemma scans_quote_body: "scans (quote_body s)"
proof (induction s rule: quote_body.induct)
  case (2 c cs)
  let ?n = "utf8_len (c # cs)"
  consider "byte c < 128" | "128 \<le> byte c" "?n = 0" | "128 \<le> byte c" "?n \<noteq> 0" by linarith
  then show ?case
  proof cases
    case 1
    then show ?thesis using 2 scans_append scans_ascii by (simp add: quote_body.simps)
  next
    case b: 2
    have "scans (backslash # ''ufffd'')" unfolding hex_literals by (rule scans_unicode) simp_all
    from scans_append [OF this] b 2 show ?thesis by (simp add: quote_body.simps)
  next
    case 3
    have "scans (quote_seq (take ?n (c # cs)))"
    proof -
      have "scans (backslash # ''u2028'')" "scans (backslash # ''u2029'')"
        unfolding hex_literals by (rule scans_unicode; simp)+
      moreover have "scans (take ?n (c # cs))"
        using utf8_len_bytes [OF 3(1)] by (intro scans_high) blast
      ultimately show ?thesis by (simp add: quote_seq_def)
    qed
    from scans_append [OF this] 3 2 show ?thesis by (simp add: quote_body.simps Let_def)
  qed
qed (simp add: quote_body.simps)

lemma scan_string_quote: "scan_string (quote_body s @ dquote # t) = Some (quote_body s, t)"
proof -
  have "scan_string (dquote # t) = Some ([], t)" by (simp add: scan_string.simps)
  then show ?thesis by (simp add: scansD [OF scans_quote_body])
qed

subsection \<open>Unquoting\<close>

definition unquotes :: "string \<Rightarrow> string \<Rightarrow> bool" where
  "unquotes u v \<longleftrightarrow> (\<forall>r. unquote (u @ r) = map_option ((@) v) (unquote r))"

lemma unquotesD: "unquotes u v \<Longrightarrow> unquote (u @ r) = map_option ((@) v) (unquote r)"
  by (simp add: unquotes_def)

lemma unquotes_append: "unquotes u v \<Longrightarrow> unquotes u' v' \<Longrightarrow> unquotes (u @ u') (v @ v')"
  by (auto simp: unquotes_def option.map_comp comp_def intro: option.map_cong)

lemma unquotes_unit:
  assumes "\<And>r. unquote_unit (u @ r) = Some (v, r)" "u \<noteq> []"
  shows "unquotes u v"
  unfolding unquotes_def
proof
  fix r
  show "unquote (u @ r) = map_option ((@) v) (unquote r)"
    using assms by (subst unquote.simps) simp
qed

lemma unquotes_unicode:
  assumes "a < 16" "b < 16" "c < 16" "d < 16" "((a * 16 + b) * 16 + c) * 16 + d = p" "\<not> is_surrogate p"
  shows "unquotes (backslash # CHR ''u'' # [hex_digit a, hex_digit b, hex_digit c, hex_digit d]) (EncodeRune p)"
  by (rule unquotes_unit)
    (use hex4_digits [OF assms(1-4)] assms(5-6) in \<open>simp_all add: unquote_unit_def unquote_u_def eq_char_iff\<close>)

lemma unquotes_plain: "32 \<le> byte c \<Longrightarrow> byte c < 128 \<Longrightarrow> c \<noteq> dquote \<Longrightarrow> c \<noteq> backslash \<Longrightarrow> unquotes [c] [c]"
  by (rule unquotes_unit) (simp_all add: unquote_unit_def utf8_len_ascii)

lemma unquotes_ascii:
  assumes "byte c < 128"
  shows "unquotes (quote_ascii c) [c]"
proof -
  let ?n = "byte c"
  let ?u = "?n < 32 \<or> ?n = 60 \<or> ?n = 62 \<or> ?n = 38"
  have esc: "unquotes (backslash # CHR ''u'' # [hex_digit 0, hex_digit 0, hex_digit (?n div 16), hex_digit (?n mod 16)])
      (EncodeRune ?n)"
    using assms by (intro unquotes_unicode) (simp_all add: is_surrogate_def)
  have enc: "EncodeRune ?n = [c]" using assms by (simp add: EncodeRune_def)
  have one: "unquotes [backslash, e] [c]"
    if "\<And>r. unquote_unit (backslash # e # r) = Some ([c], r)" for e
    using that by (intro unquotes_unit) simp_all
  consider "?n \<in> {34, 92}" | "?n \<in> {8, 9, 10, 12, 13}" | "?u" "?n \<notin> {8, 9, 10, 12, 13}"
    | "\<not> ?u" "?n \<notin> {34, 92}" by auto
  then show ?thesis
  proof cases
    case 1
    then have "c = dquote \<or> c = backslash" by (auto simp: eq_char_iff)
    then show ?thesis using 1 by (auto simp: quote_ascii_def Let_def unquote_unit_def eq_char_iff intro!: one)
  next
    case 2
    then show ?thesis
      by (auto simp: quote_ascii_def Let_def unquote_unit_def eq_char_iff intro!: one)
  next
    case 3
    then show ?thesis using esc enc by (auto simp: quote_ascii_def Let_def hex_literals)
  next
    case 4
    then show ?thesis using assms unquotes_plain [of c] by (auto simp: quote_ascii_def Let_def eq_char_iff)
  qed
qed

lemma unquote_unit_seq:
  assumes "128 \<le> byte c" "utf8_len (c # cs @ r) = Suc (length cs)"
  shows "unquote_unit (c # cs @ r) = Some (c # cs, r)"
proof -
  have "c \<noteq> dquote" "c \<noteq> backslash" using assms(1) by (auto simp: eq_char_iff)
  then show ?thesis using assms by (simp add: unquote_unit_def Let_def)
qed

lemma unquotes_seq:
  assumes "128 \<le> byte c" "0 < utf8_len (c # cs)"
  shows "unquotes (quote_seq (take (utf8_len (c # cs)) (c # cs))) (take (utf8_len (c # cs)) (c # cs))"
proof -
  let ?n = "utf8_len (c # cs)" and ?u = "take (utf8_len (c # cs)) (c # cs)"
  obtain us where us: "?u = c # us" "?n = Suc (length us)"
  proof (cases ?n)
    case (Suc m)
    then show ?thesis using that [of "take m cs"] utf8_len_le [of "c # cs"] by simp
  qed (use assms(2) in simp)
  have raw: "unquotes ?u ?u"
    unfolding us(1)
  proof (rule unquotes_unit)
    fix r
    have "utf8_len (c # us @ r) = Suc (length us)" using utf8_len_take [OF assms(2), of r] us by simp
    from unquote_unit_seq [OF assms(1) this]
    show "unquote_unit ((c # us) @ r) = Some (c # us, r)" by simp
  qed simp
  have "unquotes (backslash # ''u2028'') [chr 226, chr 128, chr 168]"
    "unquotes (backslash # ''u2029'') [chr 226, chr 128, chr 169]"
    using unquotes_unicode [of 2 0 2 8 8232] unquotes_unicode [of 2 0 2 9 8233]
    by (simp_all add: hex_literals EncodeRune_def is_surrogate_def)
  then show ?thesis using raw by (auto simp: quote_seq_def)
qed

lemma unquotes_quote_body: "valid_utf8 s \<Longrightarrow> unquotes (quote_body s) s"
proof (induction s rule: quote_body.induct)
  case 1
  have "(@) [] = (id :: string \<Rightarrow> string)" by auto
  then show ?case by (simp add: quote_body.simps unquotes_def option.map_id)
next
  case (2 c cs)
  let ?n = "utf8_len (c # cs)"
  have n: "?n \<noteq> 0" "valid_utf8 (drop ?n (c # cs))"
    using "2.prems" by (simp_all add: valid_utf8.simps [of "c # cs"] split: if_splits)
  show ?case
  proof (cases "byte c < 128")
    case True
    then have "unquotes (quote_body cs) cs" using "2.IH"(1) n utf8_len_ascii [OF True] by simp
    from unquotes_append [OF unquotes_ascii [OF True] this] True show ?thesis
      by (simp add: quote_body.simps)
  next
    case False
    then have "unquotes (quote_body (drop ?n (c # cs))) (drop ?n (c # cs))"
      using "2.IH"(3) n by blast
    from unquotes_append [OF unquotes_seq [of c cs] this] False n show ?thesis
      by (simp add: quote_body.simps Let_def)
  qed
qed

lemma unquote_quote_body: "valid_utf8 s \<Longrightarrow> unquote (quote_body s) = Some s"
  using unquotesD [OF unquotes_quote_body, of s "[]"] by (simp add: unquote.simps [of "[]"])

lemma first_token_quote:
  assumes "valid_utf8 s"
  shows "first_token (quote s @ t) = Some (Str s, t)"
proof -
  have "punctuation dquote = None" by (simp add: punctuation_def dquote_def)
  then show ?thesis
    using assms by (simp add: first_token_def quote_def scan_string_quote unquote_quote_body)
qed

subsection \<open>Numbers\<close>

lemma is_digit_digit: "d < 10 \<Longrightarrow> is_digit (digit d)"
  by (simp add: is_digit_def digit_def byte_def)

lemma dec_digits: "list_all is_digit (dec n)"
proof (induction n rule: dec.induct)
  case (1 n)
  then show ?case by (cases "n < 10") (simp_all add: dec_small dec_large is_digit_digit)
qed

lemma digit_0: "digit 0 = CHR ''0''"
  by code_simp

lemma dec_head: "dec n = c # cs \<Longrightarrow> c = CHR ''0'' \<Longrightarrow> cs = []"
proof (induction n arbitrary: c cs rule: dec.induct)
  case (1 n)
  show ?case
  proof (cases "n < 10")
    case False
    obtain d ds where d: "dec (n div 10) = d # ds" using dec_first by blast
    then have c: "c = d" "cs = ds @ [digit (n mod 10)]" using "1.prems"(1) False by (simp_all add: dec_large)
    then have "ds = []" using "1.IH" [OF False d] "1.prems"(2) by simp
    then have "dec (n div 10) = [digit 0]"
      using d c "1.prems"(2) digit_0 by simp
    then have "dec (n div 10) = dec 0" by (simp add: dec_small)
    then have "n div 10 = 0" using dec_inj by blast
    then show ?thesis using False by auto
  qed (use "1.prems" in \<open>simp add: dec_small\<close>)
qed

lemma dec_number: "number_ok (dec n)"
proof -
  obtain c cs where c: "dec n = c # cs" "\<exists>d<10. c = digit d" using dec_first by blast
  have ds: "list_all is_digit (c # cs)" using dec_digits c(1) by metis
  have neg: "c \<noteq> CHR ''-''" using digit_sign c(2) by auto
  have nil: "dropWhile is_digit cs = []" using ds by (simp add: list_all_iff)
  have frac: "frac_ok []" by (simp add: frac_ok_def)
  show ?thesis
  proof (cases "c = CHR ''0''")
    case True
    then have "cs = []" by (rule dec_head [OF c(1)])
    then have "dec n = ''0''" using True c(1) by simp
    then show ?thesis using frac by (simp add: number_ok_def)
  next
    case False
    have "is_digit c" using ds by simp
    then show ?thesis using False neg by (simp add: number_ok_def c(1) nil frac)
  qed
qed

lemma show_int_number: "number_ok (show_int i)"
proof -
  obtain c cs where c: "dec (nat (- i)) = c # cs" using dec_first by blast
  then have "c \<noteq> CHR ''-''" using digit_sign dec_first by (metis list.inject)
  then have "number_ok (CHR ''-'' # dec (nat (- i))) = number_ok (dec (nat (- i)))"
    using c by (simp add: number_ok_def)
  then show ?thesis using dec_number by (simp add: show_int_def)
qed

lemma show_int_chars: "list_all number_char (show_int i)"
proof -
  have "list_all number_char (dec n)" for n
    using dec_digits [of n] by (auto simp: list_all_iff number_char_def)
  then show ?thesis by (simp add: show_int_def number_char_def)
qed

definition numeral_ok :: "string \<Rightarrow> bool" where
  "numeral_ok n \<longleftrightarrow> number_ok n \<and> list_all number_char n"

lemma show_int_numeral [simp]: "numeral_ok (show_int i)"
  by (simp add: numeral_ok_def show_int_number show_int_chars)

lemma punctuation_byte: "punctuation c = Some p \<Longrightarrow> byte c \<in> {44, 58, 91, 93, 123, 125}"
  by (auto simp: punctuation_def split: if_splits)

lemma punctuation_number:
  assumes "is_digit c \<or> c = CHR ''-''"
  shows "punctuation c = None \<and> c \<noteq> dquote"
proof -
  have "byte c = 45 \<or> 48 \<le> byte c \<and> byte c \<le> 57" using assms by (auto simp: is_digit_def)
  then show ?thesis using punctuation_byte [of c] by (cases "punctuation c") (auto simp: eq_char_iff)
qed

lemma first_token_number:
  assumes "numeral_ok n" "t = [] \<or> \<not> number_char (hd t)"
  shows "first_token (n @ t) = Some (Number n, t)"
proof -
  have "takeWhile number_char (n @ t) = n" "dropWhile number_char (n @ t) = t"
    using assms by (cases t; auto simp: numeral_ok_def list_all_iff takeWhile_append dropWhile_append)+
  moreover obtain c cs where "n = c # cs" "is_digit c \<or> c = CHR ''-''"
    using assms(1) by (cases n) (auto simp: numeral_ok_def number_ok_def is_digit_def split: if_splits)
  ultimately show ?thesis
    using assms(1) punctuation_number [of c] by (simp add: first_token_def numeral_ok_def)
qed

end
