(* ===== verification/Go_Json_Encode.thy ===== *)
theory Go_Json_Encode
  imports Go_Json_Round
begin

text \<open>
  The compact text \<open>Marshal\<close> writes for a value, and the theorem that the reader gives the value
  back: through the lexer (tokens of the text) and through the parser (stack of open containers).
\<close>

subsection \<open>Writing values\<close>

fun sep_by :: "'a \<Rightarrow> 'a list list \<Rightarrow> 'a list" where
  "sep_by x [] = []"
| "sep_by x [u] = u"
| "sep_by x (u # v # us) = u @ x # sep_by x (v # us)"

fun encode :: "json \<Rightarrow> string" where
  "encode JNull = ''null''"
| "encode (JBool b) = (if b then ''true'' else ''false'')"
| "encode (JNum n) = n"
| "encode (JStr s) = quote s"
| "encode (JArr vs) = ''['' @ sep_by (CHR '','') (map encode vs) @ '']''"
| "encode (JObj ms) = ''{'' @ sep_by (CHR '','') (map (\<lambda>(k, v). quote k @ '':'' @ encode v) ms) @ ''}''"

fun tokens_of :: "json \<Rightarrow> token list" where
  "tokens_of JNull = [Null]"
| "tokens_of (JBool b) = [Bool b]"
| "tokens_of (JNum n) = [Number n]"
| "tokens_of (JStr s) = [Str s]"
| "tokens_of (JArr vs) = LBracket # sep_by Comma (map tokens_of vs) @ [RBracket]"
| "tokens_of (JObj ms) = LBrace # sep_by Comma (map (\<lambda>(k, v). Str k # Colon # tokens_of v) ms) @ [RBrace]"

text \<open>Values whose strings are UTF-8 and whose numbers are numbers, and their nesting.\<close>

fun wf_json :: "json \<Rightarrow> bool" where
  "wf_json (JNum n) = numeral_ok n"
| "wf_json (JStr s) = valid_utf8 s"
| "wf_json (JArr vs) = list_all wf_json vs"
| "wf_json (JObj ms) = list_all (\<lambda>(k, v). valid_utf8 k \<and> wf_json v) ms"
| "wf_json _ = True"

fun depth :: "json \<Rightarrow> nat" where
  "depth (JArr vs) = Suc (foldr (max \<circ> depth) vs 0)"
| "depth (JObj ms) = Suc (foldr (\<lambda>(k, v). max (depth v)) ms 0)"
| "depth _ = 0"

subsection \<open>Lexing what was written\<close>

definition delim :: "string \<Rightarrow> bool" where
  "delim r \<longleftrightarrow> r = [] \<or> \<not> number_char (hd r)"

lemma delim_punctuation [simp]: "punctuation c = Some t \<Longrightarrow> delim (c # r)"
  using punctuation_byte [of c t] by (auto simp: delim_def number_char_def is_digit_def)

lemma lex_Nil [simp]: "lex_text [] = Some []"
  by (simp add: lex_text.simps)

lemma lex_step:
  "first_token (c # s) = Some (t, r) \<Longrightarrow> \<not> is_space c \<Longrightarrow> lex_text (c # s) = map_option ((#) t) (lex_text r)"
  by (simp add: lex_text.simps [of "c # s"])

lemma lex_punctuation: "punctuation c = Some t \<Longrightarrow> lex_text (c # r) = map_option ((#) t) (lex_text r)"
  using punctuation_byte [of c t] by (intro lex_step) (auto simp: first_token_def is_space_def)

lemma punctuation_simps [simp]:
  "punctuation CHR ''{'' = Some LBrace" "punctuation CHR ''}'' = Some RBrace"
  "punctuation CHR ''['' = Some LBracket" "punctuation CHR '']'' = Some RBracket"
  "punctuation CHR '':'' = Some Colon" "punctuation CHR '','' = Some Comma"
  by (simp_all add: punctuation_def)

lemma lex_quote: "valid_utf8 s \<Longrightarrow> lex_text (quote s @ r) = map_option ((#) (Str s)) (lex_text r)"
  using lex_step [of dquote "quote_body s @ dquote # r" "Str s" r] first_token_quote [of s r]
  by (simp add: quote_def is_space_def)

lemma lex_number:
  assumes "numeral_ok n" "delim r"
  shows "lex_text (n @ r) = map_option ((#) (Number n)) (lex_text r)"
proof -
  obtain c cs where n: "n = c # cs" "is_digit c \<or> c = CHR ''-''"
    using assms(1) by (cases n) (auto simp: numeral_ok_def number_ok_def is_digit_def split: if_splits)
  have "\<not> is_space c" using n(2) by (auto simp: is_space_def is_digit_def)
  then show ?thesis
    using first_token_number [OF assms(1), of r] assms(2) n(1) lex_step [of c "cs @ r"]
    by (simp add: delim_def)
qed

lemma lex_literal:
  "lex_text (''null'' @ r) = map_option ((#) Null) (lex_text r)"
  "lex_text (''true'' @ r) = map_option ((#) (Bool True)) (lex_text r)"
  "lex_text (''false'' @ r) = map_option ((#) (Bool False)) (lex_text r)"
  by (simp_all add: lex_step first_token_def punctuation_def dquote_def is_digit_def is_space_def)

lemma lex_sep_by:
  assumes "\<And>x r. x \<in> set xs \<Longrightarrow> delim r \<Longrightarrow> lex_text (f x @ r) = map_option ((@) (g x)) (lex_text r)" "delim r"
  shows "lex_text (sep_by (CHR '','') (map f xs) @ r) = map_option ((@) (sep_by Comma (map g xs))) (lex_text r)"
  using assms(1)
proof (induction xs rule: induct_list012)
  case 1
  then show ?case by (simp add: option.map_ident)
next
  case (2 x)
  then show ?case using assms(2) by simp
next
  case (3 x y zs)
  then have "lex_text (sep_by (CHR '','') (map f (y # zs)) @ r) = map_option ((@) (sep_by Comma (map g (y # zs)))) (lex_text r)"
    by simp
  then show ?case using "3.prems" [of x]
    by (simp add: lex_punctuation option.map_comp comp_def)
qed

lemma lex_encode:
  "wf_json v \<Longrightarrow> delim r \<Longrightarrow> lex_text (encode v @ r) = map_option ((@) (tokens_of v)) (lex_text r)"
proof (induction v arbitrary: r)
  case (JArr vs)
  then have "lex_text (encode v @ r) = map_option ((@) (tokens_of v)) (lex_text r)" if "v \<in> set vs" "delim r" for v r
    using that by (auto simp: list_all_iff)
  from lex_sep_by [of vs encode tokens_of "'']'' @ r", OF this] show ?case
    by (simp add: lex_punctuation option.map_comp comp_def)
next
  case (JObj ms)
  have "lex_text ((case m of (k, v) \<Rightarrow> quote k @ '':'' @ encode v) @ r)
      = map_option ((@) (case m of (k, v) \<Rightarrow> Str k # Colon # tokens_of v)) (lex_text r)"
    if "m \<in> set ms" "delim r" for m r
  proof -
    obtain k v where m: "m = (k, v)" by force
    have ok: "valid_utf8 k" "wf_json v" using JObj.prems(1) that(1) by (auto simp: m list_all_iff)
    have "lex_text (encode v @ r) = map_option ((@) (tokens_of v)) (lex_text r)"
      using JObj.IH [OF that(1), of v r] ok that(2) by (simp add: m)
    then show ?thesis using ok by (auto simp: m lex_quote lex_punctuation option.map_comp comp_def intro: option.map_cong)
  qed
  from lex_sep_by [of ms _ _ "''}'' @ r", OF this] show ?case
    by (simp add: lex_punctuation option.map_comp comp_def)
qed (auto simp: lex_quote lex_number lex_literal [simplified] intro!: option.map_cong)

subsection \<open>Parsing what was written\<close>

lemma first_not_bracket:
  "parse_tokens (tokens_of v @ ts) (Begin_value_or_end, st) = parse_tokens (tokens_of v @ ts) (Begin_value, st)"
  by (cases v) simp_all

lemma parse_elements:
  assumes "\<And>v ts acc. v \<in> set vs \<Longrightarrow>
      parse_tokens (tokens_of v @ ts) (Begin_value, InArr acc # st) = parse_tokens ts (After_value v, InArr acc # st)"
    "vs \<noteq> []"
  shows "parse_tokens (sep_by Comma (map tokens_of vs) @ RBracket # ts) (Begin_value, InArr acc # st)
           = parse_tokens ts (After_value (JArr (acc @ vs)), st)"
  using assms
proof (induction vs arbitrary: acc rule: induct_list012)
  case (3 v w vs)
  then have "parse_tokens (sep_by Comma (map tokens_of (w # vs)) @ RBracket # ts) (Begin_value, InArr (acc @ [v]) # st)
      = parse_tokens ts (After_value (JArr ((acc @ [v]) @ w # vs)), st)"
    by (intro "3.IH"(2)) simp_all
  then show ?case using "3.prems"(1) [of v] by simp
qed simp_all

lemma parse_members:
  assumes "\<And>k v ts acc. (k, v) \<in> set ms \<Longrightarrow>
      parse_tokens (tokens_of v @ ts) (Begin_value, InObj acc k # st) = parse_tokens ts (After_value v, InObj acc k # st)"
    "ms \<noteq> []"
  shows "parse_tokens (sep_by Comma (map (\<lambda>(k, v). Str k # Colon # tokens_of v) ms) @ RBrace # ts)
             (Begin_key acc, InObj a b # st)
           = parse_tokens ts (After_value (JObj (acc @ ms)), st)"
  using assms
proof (induction ms arbitrary: acc a b rule: induct_list012)
  case (3 m m' ms)
  obtain k v where m: "m = (k, v)" by force
  from 3 have "parse_tokens (sep_by Comma (map (\<lambda>(k, v). Str k # Colon # tokens_of v) (m' # ms)) @ RBrace # ts)
        (Begin_key (acc @ [(k, v)]), InObj acc k # st)
      = parse_tokens ts (After_value (JObj ((acc @ [(k, v)]) @ m' # ms)), st)"
    by (intro "3.IH"(2)) simp_all
  then show ?case using "3.prems"(1) [of k v] by (simp add: m)
qed auto

lemma parse_encode:
  "length st + depth v \<le> max_depth \<Longrightarrow>
     parse_tokens (tokens_of v @ ts) (Begin_value, st) = parse_tokens ts (After_value v, st)"
proof (induction v arbitrary: ts st)
  case (JArr vs)
  have IH: "parse_tokens (tokens_of v @ ts) (Begin_value, InArr acc # st)
      = parse_tokens ts (After_value v, InArr acc # st)" if "v \<in> set vs" for v ts acc
  proof -
    have "depth v \<le> foldr (max \<circ> depth) vs 0" using that by (induction vs) auto
    then show ?thesis using JArr that by simp
  qed
  show ?case
  proof (cases vs)
    case (Cons v vs')
    have "parse_tokens (sep_by Comma (map tokens_of vs) @ RBracket # ts) (Begin_value_or_end, InArr [] # st)
        = parse_tokens (sep_by Comma (map tokens_of vs) @ RBracket # ts) (Begin_value, InArr [] # st)"
      using first_not_bracket [of v] Cons by (cases vs') simp_all
    then show ?thesis using parse_elements [of vs st ts "[]", OF IH] Cons JArr.prems by simp
  qed (use JArr.prems in simp)
next
  case (JObj ms)
  have IH: "parse_tokens (tokens_of v @ ts) (Begin_value, InObj acc k # st)
      = parse_tokens ts (After_value v, InObj acc k # st)" if "(k, v) \<in> set ms" for k v ts acc
  proof -
    have "depth v \<le> foldr (\<lambda>(k, v). max (depth v)) ms 0" using that by (induction ms) auto
    then show ?thesis using JObj that by simp
  qed
  show ?case
  proof (cases ms)
    case (Cons m ms')
    have "parse_tokens (sep_by Comma (map (\<lambda>(k, v). Str k # Colon # tokens_of v) ms) @ RBrace # ts) (Begin_key_or_end [], InObj [] [] # st)
        = parse_tokens (sep_by Comma (map (\<lambda>(k, v). Str k # Colon # tokens_of v) ms) @ RBrace # ts) (Begin_key [], InObj [] [] # st)"
      using Cons by (cases m; cases ms') simp_all
    then show ?thesis using parse_members [of ms st ts "[]" "[]" "[]", OF IH] Cons JObj.prems by simp
  qed (use JObj.prems in simp)
qed simp_all

theorem parse_json_encode:
  assumes "wf_json v" "depth v \<le> max_depth"
  shows "parse_json (encode v) = Some v"
  using lex_encode [OF assms(1), of "[]"] parse_encode [of "[]" v "[]"] assms(2)
  by (simp add: parse_json_def delim_def)

end
