(* ===== verification/Con_Hash_Sync.thy ===== *)
theory Con_Hash_Sync
  imports Con_Hash_Rebalance Go_Json_Encode "HOL-Library.List_Lexorder" "HOL-Library.Char_ord"
begin

text \<open>
  Ring snapshots of \<open>con_hash.go\<close>: the struct \<open>HashRing\<close>, what \<open>json.Marshal\<close> and
  \<open>json.Unmarshal\<close> make of it, \<open>syncHashRing\<close> on the leader, the loop of
  \<open>CheckAndRebalanceAndSyncHashRing\<close> and \<open>updateHashRing\<close> on a follower.

  A nil slice or map of the struct is \<^term>\<open>None\<close>. etcd is a parameter: whether a Put succeeds and
  which events a watch delivers are inputs, what the code writes is a result.
\<close>

subsection \<open>Encoding\<close>

record hash_ring =
  Keys :: "int list option"
  HashMap :: "(int \<rightharpoonup> string) option"

text \<open>\<open>Marshal\<close> writes the entries of a map in the order of the keys as strings.\<close>

definition map_keys :: "(int \<rightharpoonup> string) \<Rightarrow> int list" where
  "map_keys m = sort_key show_int (sorted_list_of_set (dom m))"

definition ring_json :: "hash_ring \<Rightarrow> json" where
  "ring_json r =
     JObj [(''Keys'', case Keys r of None \<Rightarrow> JNull | Some ks \<Rightarrow> JArr (map (\<lambda>k. JNum (show_int k)) ks)),
           (''HashMap'', case HashMap r of None \<Rightarrow> JNull
              | Some m \<Rightarrow> JObj (map (\<lambda>k. (show_int k, JStr (case m k of Some a \<Rightarrow> a | None \<Rightarrow> []))) (map_keys m)))]"

definition Marshal :: "hash_ring \<Rightarrow> string" where
  "Marshal r = encode (ring_json r)"

subsection \<open>Decoding\<close>

text \<open>A null leaves an element as it is. Decoding into a slice reuses its array: an element starts as
  what the array holds there (a second \<open>Keys\<close> member sees the first), or as 0.\<close>

fun decode_elem :: "int \<Rightarrow> json \<Rightarrow> int option" where
  "decode_elem old JNull = Some old"
| "decode_elem old (JNum n) = ParseInt n"
| "decode_elem old _ = None"

fun decode_elems :: "int list \<Rightarrow> json list \<Rightarrow> int list option" where
  "decode_elems arr [] = Some []"
| "decode_elems arr (v # vs) = do {
     x \<leftarrow> decode_elem (case arr of a # _ \<Rightarrow> a | [] \<Rightarrow> 0) v;
     xs \<leftarrow> decode_elems (tl arr) vs;
     Some (x # xs) }"

fun decode_members :: "(string \<times> json) list \<Rightarrow> (int \<rightharpoonup> string) \<Rightarrow> (int \<rightharpoonup> string) option" where
  "decode_members [] m = Some m"
| "decode_members ((k, v) # ms) m = do {
     a \<leftarrow> (case v of JNull \<Rightarrow> Some [] | JStr a \<Rightarrow> Some a | _ \<Rightarrow> None);
     h \<leftarrow> ParseInt k;
     decode_members ms (m(h \<mapsto> a)) }"

text \<open>Field names match exactly or, as the library folds them, up to case: the Kelvin sign and the
  long s are variants of K and S.\<close>

fun fold_name :: "string \<Rightarrow> string" where
  "fold_name [] = []"
| "fold_name (c # cs) =
     (if take 3 (c # cs) = [chr 226, chr 132, chr 170] then CHR ''K'' # fold_name (drop 2 cs)
      else if take 2 (c # cs) = [chr 197, chr 191] then CHR ''S'' # fold_name (drop 1 cs)
      else (if 97 \<le> byte c \<and> byte c \<le> 122 then chr (byte c - 32) else c) # fold_name cs)"

datatype ring_field = Field_Keys | Field_HashMap

definition field_of :: "string \<Rightarrow> ring_field option" where
  "field_of k =
     (if fold_name k = ''KEYS'' then Some Field_Keys
      else if fold_name k = ''HASHMAP'' then Some Field_HashMap else None)"

fun decode_field :: "ring_field \<Rightarrow> json \<Rightarrow> int list \<times> hash_ring \<Rightarrow> (int list \<times> hash_ring) option" where
  "decode_field Field_Keys JNull (arr, r) = Some ([], r\<lparr>Keys := None\<rparr>)"
| "decode_field Field_Keys (JArr vs) (arr, r) = do {
     xs \<leftarrow> decode_elems arr vs;
     Some (if xs = [] then [] else xs @ drop (length xs) arr, r\<lparr>Keys := Some xs\<rparr>) }"
| "decode_field Field_HashMap JNull (arr, r) = Some (arr, r\<lparr>HashMap := None\<rparr>)"
| "decode_field Field_HashMap (JObj ms) (arr, r) = do {
     m \<leftarrow> decode_members ms (case HashMap r of None \<Rightarrow> Map.empty | Some m \<Rightarrow> m);
     Some (arr, r\<lparr>HashMap := Some m\<rparr>) }"
| "decode_field _ _ _ = None"

fun decode_fields :: "(string \<times> json) list \<Rightarrow> int list \<times> hash_ring \<Rightarrow> (int list \<times> hash_ring) option" where
  "decode_fields [] s = Some s"
| "decode_fields ((k, v) # ms) s =
     (case field_of k of
        None \<Rightarrow> decode_fields ms s
      | Some f \<Rightarrow> (case decode_field f v s of None \<Rightarrow> None | Some s \<Rightarrow> decode_fields ms s))"

definition zero_ring :: hash_ring where
  "zero_ring = \<lparr>Keys = None, HashMap = None\<rparr>"

text \<open>\<open>Unmarshal\<close> into a fresh struct; any syntax or type error makes it fail, and the caller then
  drops the struct. The text null changes nothing.\<close>

definition Unmarshal :: "string \<Rightarrow> hash_ring option" where
  "Unmarshal s =
     (case parse_json s of
        Some JNull \<Rightarrow> Some zero_ring
      | Some (JObj ms) \<Rightarrow> map_option snd (decode_fields ms ([], zero_ring))
      | _ \<Rightarrow> None)"

subsection \<open>The leader\<close>

definition ring_snapshot :: "con_hash \<Rightarrow> hash_ring" where
  "ring_snapshot m = \<lparr>Keys = Some (keys m), HashMap = Some (hashMap m)\<rparr>"

text \<open>The pair written to etcd, if the Put succeeds.\<close>

definition ring_key :: string where
  "ring_key = ''/consistenthash/hashring''"

definition syncHashRing :: "bool \<Rightarrow> con_hash \<Rightarrow> (string \<times> string) option" where
  "syncHashRing put_ok m =
     (let hashRingData = Marshal (ring_snapshot m)
      in if put_ok then Some (ring_key, hashRingData) else None)"

text \<open>A tick brings the iteration order of the count map and the answer of etcd; \<open>Context_done\<close> ends
  the loop. The result is the state and what was written, \<^term>\<open>None\<close> is a panic.\<close>

datatype leader_event = Tick "string list" bool | Context_done

fun CheckAndRebalanceAndSyncHashRing ::
  "leader_event list \<Rightarrow> con_hash \<Rightarrow> (con_hash \<times> (string \<times> string) list) option"
where
  "CheckAndRebalanceAndSyncHashRing [] m = Some (m, [])"
| "CheckAndRebalanceAndSyncHashRing (Context_done # evs) m = Some (m, [])"
| "CheckAndRebalanceAndSyncHashRing (Tick visits put_ok # evs) m = do {
     (m, IsRebalance) \<leftarrow> checkAndRebalance visits m;
     let out = (if IsRebalance then (case syncHashRing put_ok m of None \<Rightarrow> [] | Some kv \<Rightarrow> [kv]) else []);
     (m, outs) \<leftarrow> CheckAndRebalanceAndSyncHashRing evs m;
     Some (m, out @ outs) }"

subsection \<open>A follower\<close>

text \<open>The ring and whether its map is nil: a nil map reads as an empty one, but a write panics.\<close>

type_synonym ring_state = "con_hash \<times> bool"

definition install_ring :: "hash_ring \<Rightarrow> ring_state \<Rightarrow> ring_state" where
  "install_ring r s =
     ((fst s)\<lparr>keys := (case Keys r of None \<Rightarrow> [] | Some ks \<Rightarrow> ks),
              hashMap := (case HashMap r of None \<Rightarrow> Map.empty | Some hm \<Rightarrow> hm)\<rparr>,
      HashMap r = None)"

definition ring_event :: "string \<times> string \<Rightarrow> ring_state \<Rightarrow> ring_state" where
  "ring_event kv s = (case Unmarshal (snd kv) of None \<Rightarrow> s | Some hashRing \<Rightarrow> install_ring hashRing s)"

text \<open>The watch delivers batches of events until its channel is closed; a deletion has an empty value.\<close>

definition updateHashRing :: "(string \<times> string) list list \<Rightarrow> ring_state \<Rightarrow> ring_state" where
  "updateHashRing resps s = fold (fold ring_event) resps s"

text \<open>\<open>Add\<close> on such a state.\<close>

definition Add_at :: "string \<Rightarrow> ring_state \<Rightarrow> ring_state option" where
  "Add_at addr s =
     (let (m, is_nil) = s
      in if is_nil \<and> nodeReplicas m addr = None \<and> 0 < DefaultReplicas (config m) then None
         else Some (Map_Add addr m, is_nil))"

end
