(* ===== verification/Con_Hash_Run.thy ===== *)
theory Con_Hash_Run
  imports Con_Hash_Sync
begin

text \<open>
  Executions of one \<open>Map\<close>: the sequences of its critical sections, as the goroutines of a node
  (requests, membership changes, the reporting ticker, the leader's loop, the watch of a follower)
  interleave them, and the invariants that hold in every reachable state. \<^term>\<open>None\<close> is a panic.

  \<open>Ring_Rebalance\<close> is a whole \<open>checkAndRebalance\<close> that nothing interrupts. The code takes the lock
  anew for every node it resizes, so other sections can come in between: \<open>Ring_Resize a seen avg val\<close> is
  the section of one node, whose replicas, count and average were read before, so that they may be
  anything by then. \<open>Ring_Install\<close> is what \<open>updateHashRing\<close> does with a decoded snapshot whose map is
  not nil (a nil map makes a later \<open>Add\<close> panic, see \<open>Add_at\<close>).
\<close>

subsection \<open>Steps\<close>

datatype ring_op =
    Ring_Add string
  | Ring_Remove string
  | Ring_Get string
  | Ring_Report
  | Ring_Rebalance "string list"
  | Ring_Resize string int int int
  | Ring_Fetch "(string \<times> string) list option"
  | Ring_Watch "(string \<times> string) list list"
  | Ring_Install "int list" "int \<rightharpoonup> string"

definition resize_section :: "string \<Rightarrow> int \<Rightarrow> int \<Rightarrow> int \<Rightarrow> con_hash \<Rightarrow> con_hash" where
  "resize_section addr seen avg val m =
     (let (r, flag) = new_replicas (m\<lparr>nodeReplicas := (nodeReplicas m)(addr \<mapsto> seen)\<rparr>) avg addr val
      in if flag then rebalanceReplicas addr r m else m)"

fun ring_step :: "con_hash \<Rightarrow> ring_op \<Rightarrow> con_hash option" where
  "ring_step m (Ring_Add a) = Some (Map_Add a m)"
| "ring_step m (Ring_Remove a) = Some (Map_Remove a m)"
| "ring_step m (Ring_Get k) = Some (fst (Map_Get k m))"
| "ring_step m Ring_Report = Some (fst (report_tick m))"
| "ring_step m (Ring_Rebalance visits) = map_option fst (checkAndRebalance visits m)"
| "ring_step m (Ring_Resize a seen avg val) = Some (resize_section a seen avg val m)"
| "ring_step m (Ring_Fetch resp) = Some (fst (fetchAllNodeCount resp m))"
| "ring_step m (Ring_Watch resps) = Some (fst (watchNodeCount resps m))"
| "ring_step m (Ring_Install ks hm) = Some (fst (install_ring \<lparr>Keys = Some ks, HashMap = Some hm\<rparr> (m, False)))"

fun ring_run :: "con_hash \<Rightarrow> ring_op list \<Rightarrow> con_hash option" where
  "ring_run m [] = Some m"
| "ring_run m (x # xs) = (case ring_step m x of Some m' \<Rightarrow> ring_run m' xs | None \<Rightarrow> None)"

text \<open>The task of a leader is a fetch and then a watch.\<close>

lemma updateNodeCount_steps:
  "ring_run m [Ring_Fetch resp, Ring_Watch resps] = Some (updateNodeCount resp resps m)"
  by (simp add: updateNodeCount_def case_prod_beta)

subsection \<open>What each step leaves alone\<close>

text \<open>Two states that agree on the ring, the replicas and the configuration.\<close>

definition same_ring :: "con_hash \<Rightarrow> con_hash \<Rightarrow> bool" where
  "same_ring m m' \<longleftrightarrow> keys m' = keys m \<and> hashMap m' = hashMap m \<and>
     nodeReplicas m' = nodeReplicas m \<and> config m' = config m"

lemma same_ring_refl [simp]: "same_ring m m"
  by (simp add: same_ring_def)

lemma same_ring_trans: "same_ring m1 m2 \<Longrightarrow> same_ring m2 m3 \<Longrightarrow> same_ring m1 m3"
  by (simp add: same_ring_def)

lemma same_ring_fields:
  assumes "same_ring m m'"
  shows "members m' = members m" "node_hashes m' a = node_hashes m a" "keys m' = keys m" "hashMap m' = hashMap m"
    "config m' = config m" "nodeReplicas m' = nodeReplicas m"
  using assms by (simp_all add: same_ring_def members_def node_hashes_def replicas_of_def)

lemma same_ring_inv: "same_ring m m' \<Longrightarrow> ring_inv m \<Longrightarrow> ring_inv m'"
  by (simp add: ring_inv_def same_ring_fields)

lemma same_ring_bounded: "same_ring m m' \<Longrightarrow> replicas_bounded m \<Longrightarrow> replicas_bounded m'"
  by (simp add: replicas_bounded_def same_ring_fields)

lemma Map_Get_same: "same_ring m (fst (Map_Get k m))"
  by (simp add: Map_Get_def Let_def same_ring_def)

lemma store_counts_same: "same_ring m (fst (store_counts kvs m))"
proof (induction kvs m rule: store_counts.induct)
  case (2 k v kvs m)
  show ?case
  proof (cases "ParseInt v")
    case (Some c)
    have "same_ring m (m\<lparr>nodeCounts := AList.update (trim_prefix k count_prefix) c (nodeCounts m)\<rparr>)"
      by (simp add: same_ring_def)
    then show ?thesis using same_ring_trans 2 [OF refl Some] Some by simp
  qed simp
qed simp

lemma fetch_same: "same_ring m (fst (fetchAllNodeCount resp m))"
  by (simp add: fetchAllNodeCount_def store_counts_same split: option.split)

lemma watch_same: "same_ring m (fst (watchNodeCount resps m))"
proof (induction resps arbitrary: m)
  case (Cons ev resps)
  then show ?case using store_counts_same [of m ev] same_ring_trans
    by (fastforce simp: case_prod_beta)
qed simp

subsection \<open>The invariant of executions\<close>

definition sound :: "con_hash \<Rightarrow> bool" where
  "sound m \<longleftrightarrow> ring_inv m \<and> replicas_bounded m"

definition good_config :: "config \<Rightarrow> bool" where
  "good_config cfg \<longleftrightarrow> MinReplicas cfg \<le> DefaultReplicas cfg \<and> DefaultReplicas cfg \<le> MaxReplicas cfg"

lemma sound_add:
  assumes "sound m" "good_config (config m)"
  shows "sound (Map_Add a m) \<and> config (Map_Add a m) = config m"
proof -
  have "ring_inv (Map_Add a m)" using ring.add_law [of m a "[]"] assms(1) by (simp add: sound_def)
  moreover have "replicas_bounded (Map_Add a m)"
    using assms by (simp add: sound_def replicas_bounded_def good_config_def Map_Add_cases)
  ultimately show ?thesis by (simp add: sound_def Map_Add_cases)
qed

lemma sound_remove:
  assumes "sound m"
  shows "sound (Map_Remove a m) \<and> config (Map_Remove a m) = config m"
proof -
  have i: "ring_inv m" "replicas_bounded m" using assms by (simp_all add: sound_def)
  note R = removeNoLock_simps [OF ring_invD(1) [OF i(1)], of a]
  have "ring_inv (Map_Remove a m)" using ring.remove_law [OF i(1), of a] by simp
  moreover have "replicas_bounded (Map_Remove a m)"
    using i(2) by (simp add: replicas_bounded_def Map_Remove_cases R)
  ultimately show ?thesis by (simp add: sound_def Map_Remove_cases R)
qed

text \<open>With no snapshot in between, the ring is that of the registered nodes.\<close>

lemma sound_tidy: "sound m \<Longrightarrow> good_config (config m) \<Longrightarrow> tidy m"
  by (auto simp: sound_def tidy_def good_config_def ring_invD(1))

lemma sound_rebalance:
  assumes "sound m" "good_config (config m)" "checkAndRebalance visits m = Some (m', b)"
  shows "sound m' \<and> config m' = config m"
proof -
  have "m' = m \<or> m' = fst (check_nodes (average m) visits m)"
    using assms(3) by (auto simp: checkAndRebalance_cases split: if_splits)
  then show ?thesis
    using assms(1) check_nodes_inv [of m] tidy_check_nodes [OF sound_tidy [OF assms(1,2)]] by (auto simp: sound_def tidy_def)
qed

lemma resize_section_cases:
  assumes "MinReplicas (config m) \<le> MaxReplicas (config m)"
  obtains "resize_section a seen avg val m = m"
  | r where "resize_section a seen avg val m = rebalanceReplicas a r m" "MinReplicas (config m) \<le> r" "r \<le> MaxReplicas (config m)"
proof -
  let ?m = "m\<lparr>nodeReplicas := (nodeReplicas m)(a \<mapsto> seen)\<rparr>"
  obtain r flag where n: "new_replicas ?m avg a val = (r, flag)" by fastforce
  have "MinReplicas (config m) \<le> r" "r \<le> MaxReplicas (config m)" using new_replicas_bounds [OF _ n] assms by simp_all
  then show thesis using that by (cases flag) (simp_all add: resize_section_def n)
qed

lemma sound_resize:
  assumes "sound m" "good_config (config m)"
  shows "sound (resize_section a seen avg val m) \<and> config (resize_section a seen avg val m) = config m"
proof -
  have "MinReplicas (config m) \<le> MaxReplicas (config m)" using assms(2) by (simp add: good_config_def)
  then show ?thesis
  proof (cases rule: resize_section_cases [where a = a and seen = seen and avg = avg and val = val])
    case (2 r)
    then show ?thesis using assms(1) rebalance_inv [of m a r] tidy_rebalance [OF sound_tidy [OF assms], of r a]
      by (simp add: sound_def tidy_def)
  qed (use assms in simp)
qed

fun installs :: "ring_op \<Rightarrow> bool" where
  "installs (Ring_Install ks hm) = True"
| "installs _ = False"

lemma ring_step_sound:
  assumes "sound m" "good_config (config m)" "ring_step m x = Some m'" "\<not> installs x"
  shows "sound m' \<and> config m' = config m"
proof -
  have same: "same_ring m m' \<Longrightarrow> sound m' \<and> config m' = config m"
    using assms(1) by (simp add: sound_def same_ring_inv same_ring_bounded same_ring_fields)
  show ?thesis
  proof (cases x)
    case (Ring_Add a)
    then show ?thesis using assms(3) sound_add [OF assms(1,2), of a] by simp
  next
    case (Ring_Remove a)
    then show ?thesis using assms(3) sound_remove [OF assms(1), of a] by simp
  next
    case (Ring_Get k)
    then show ?thesis using assms(3) Map_Get_same [of m k] by (intro same) simp
  next
    case Ring_Report
    then show ?thesis using assms(3) by (intro same) (auto simp: report_tick_def same_ring_def)
  next
    case (Ring_Rebalance visits)
    then show ?thesis using sound_rebalance [OF assms(1,2)] assms(3) by auto
  next
    case (Ring_Resize a seen avg val)
    then show ?thesis using sound_resize [OF assms(1,2), of a seen avg val] assms(3) by simp
  next
    case (Ring_Fetch resp)
    then show ?thesis using assms(3) fetch_same [of m resp] by (intro same) simp
  next
    case (Ring_Watch resps)
    then show ?thesis using assms(3) watch_same [of m resps] by (intro same) simp
  next
    case (Ring_Install ks hm)
    then show ?thesis using assms(4) by simp
  qed
qed

lemma ring_run_sound:
  "sound m \<Longrightarrow> good_config (config m) \<Longrightarrow> ring_run m xs = Some m' \<Longrightarrow> \<forall>x\<in>set xs. \<not> installs x \<Longrightarrow>
    sound m' \<and> config m' = config m"
proof (induction xs arbitrary: m)
  case (Cons x xs)
  then obtain m1 where "ring_step m x = Some m1" "ring_run m1 xs = Some m'"
    by (auto split: option.splits)
  then show ?case using Cons ring_step_sound by (metis list.set_intros)
qed auto

text \<open>With snapshots that are sorted, as those that leaders publish are, the slice stays sorted and the
  replica counts within their bounds.\<close>

fun sorted_install :: "ring_op \<Rightarrow> bool" where
  "sorted_install (Ring_Install ks hm) = sorted ks"
| "sorted_install _ = True"

lemma tidy_cong: "keys m' = keys m \<Longrightarrow> nodeReplicas m' = nodeReplicas m \<Longrightarrow> config m' = config m \<Longrightarrow> tidy m \<Longrightarrow> tidy m'"
  by (simp add: tidy_def replicas_bounded_def)

lemma tidy_members:
  assumes "tidy m" "good_config (config m)"
  shows "tidy (Map_Add a m)" "tidy (Map_Remove a m)" "config (Map_Add a m) = config m" "config (Map_Remove a m) = config m"
  using assms removeNoLock_simps [of m a]
  by (auto simp: tidy_def good_config_def replicas_bounded_def Map_Add_cases Map_Remove_cases)

lemma ring_step_tidy:
  assumes "tidy m" "good_config (config m)" "ring_step m x = Some m'" "sorted_install x"
  shows "tidy m' \<and> config m' = config m"
proof -
  have same: "same_ring m m' \<Longrightarrow> tidy m' \<and> config m' = config m"
    using assms(1) tidy_cong [of m' m] by (simp add: same_ring_def)
  have mm: "MinReplicas (config m) \<le> MaxReplicas (config m)" using assms(2) by (simp add: good_config_def)
  show ?thesis
  proof (cases x)
    case (Ring_Get k)
    then show ?thesis using assms(3) Map_Get_same [of m k] by (intro same) simp
  next
    case Ring_Report
    then show ?thesis using assms(3) by (intro same) (auto simp: report_tick_def same_ring_def)
  next
    case (Ring_Rebalance visits)
    then show ?thesis using tidy_check_nodes [OF assms(1)] assms(1,3)
      by (auto simp: checkAndRebalance_cases split: if_splits) (metis fst_conv)+
  next
    case (Ring_Resize a seen avg val)
    then have m': "m' = resize_section a seen avg val m" using assms(3) by simp
    show ?thesis
    proof (cases rule: resize_section_cases [OF mm, where a = a and seen = seen and avg = avg and val = val])
      case (2 r)
      then show ?thesis using tidy_rebalance [OF assms(1) 2(2,3)] by (simp add: m')
    qed (use assms(1) in \<open>simp add: m'\<close>)
  next
    case (Ring_Fetch resp)
    then show ?thesis using assms(3) fetch_same [of m resp] by (intro same) simp
  next
    case (Ring_Watch resps)
    then show ?thesis using assms(3) watch_same [of m resps] by (intro same) simp
  next
    case (Ring_Install ks hm)
    then show ?thesis using assms by (auto simp: install_ring_def tidy_def replicas_bounded_def)
  qed (use assms(3) tidy_members [OF assms(1,2)] in auto)
qed

lemma ring_run_tidy:
  "tidy m \<Longrightarrow> good_config (config m) \<Longrightarrow> ring_run m xs = Some m' \<Longrightarrow> \<forall>x\<in>set xs. sorted_install x \<Longrightarrow>
    tidy m' \<and> config m' = config m"
proof (induction xs arbitrary: m)
  case (Cons x xs)
  then obtain m1 where "ring_step m x = Some m1" "ring_run m1 xs = Some m'"
    by (auto split: option.splits)
  then show ?case using Cons ring_step_tidy by (metis list.set_intros)
qed auto

lemma new_sound: "sound (NewConsistentHash self (map (\<lambda>cfg m. m\<lparr>config := cfg\<rparr>) cfgs))"
proof -
  have "sound m \<Longrightarrow> nodeReplicas m = Map.empty \<Longrightarrow> keys m = [] \<Longrightarrow> hashMap m = Map.empty \<Longrightarrow>
      sound (foldl (\<lambda>m opt. opt m) m (map (\<lambda>cfg m. m\<lparr>config := cfg\<rparr>) cfgs))" for m
    by (induction cfgs arbitrary: m) (auto simp: sound_def ring_inv_def replicas_bounded_def members_def)
  then show ?thesis
    by (simp add: NewConsistentHash_def sound_def ring_inv_def replicas_bounded_def members_def)
qed

end
