(* ===== verification/Con_Hash_Properties.thy ===== *)
theory Con_Hash_Properties
  imports Con_Hash_Run
begin

text \<open>
  The properties of the consistent hash ring (\<open>internal/consistenthash\<close>), each with an instance on
  a small ring.
\<close>

subsection \<open>Concrete instances\<close>

definition small_hash :: "string \<Rightarrow> 32 word" where
  "small_hash s = foldl (\<lambda>h c. h * 131 + of_char c) 7 s"

definition small_config :: config where
  "small_config =
     \<lparr>DefaultReplicas = 2, MinReplicas = 1, MaxReplicas = 12, HashFunc = small_hash,
      MaxLoadBalanceThreshold = f64 (11 / 10), MinLoadBalanceThreshold = f64 (9 / 10)\<rparr>"

definition empty_ring :: con_hash where
  "empty_ring = NewConsistentHash ''a'' [\<lambda>m. m\<lparr>config := small_config\<rparr>]"

definition small_ring :: con_hash where
  "small_ring = Map_Add ''b'' (Map_Add ''a'' empty_ring)"

lemma empty_ring_sound: "sound empty_ring" "ring_exact empty_ring"
proof -
  show "sound empty_ring" using new_sound [of "''a''" "[small_config]"] by (simp add: empty_ring_def)
  then show "ring_exact empty_ring"
    by (simp add: sound_def ring_exact_def empty_ring_def NewConsistentHash_def members_def)
qed

lemma small_ring_exact: "ring_exact small_ring" "ring_inv small_ring" "keys small_ring \<noteq> []"
proof -
  have "apart empty_ring ''a''" "apart (Map_Add ''a'' empty_ring) ''b''" by code_simp+
  then show ex: "ring_exact small_ring" 
    unfolding small_ring_def using ring.exact_add empty_ring_sound(2) by blast
  show "ring_inv small_ring" by (rule ring_exactD(1) [OF ex])
  show "keys small_ring \<noteq> []" by code_simp
qed

subsection \<open>Routing\<close>

text \<open>
  C15. \<open>Get\<close> is the clockwise owner: on a sorted ring that is not empty the binary search with its
  wrap-around selects the first virtual node at or after the key's hash, or the first of all when
  there is none, and \<open>Get\<close> returns the node stored for it; \<open>selfLoad\<close> goes up by one exactly when
  that is the node itself, and nothing else of the state changes.
\<close>
theorem Get_is_clockwise_owner:
  assumes "sorted (keys m)" "keys m \<noteq> []"
  shows "\<exists>x. is_next (set (keys m)) (uint (HashFunc (config m) k)) x \<and>
    Map_Get k m =
      (if owner_of m x = selfAddr m then m\<lparr>selfLoad := int64 (selfLoad m + 1)\<rparr> else m, owner_of m x)"
proof -
  let ?x = "keys m ! ring_index (keys m) (uint (HashFunc (config m) k))"
  have "is_next (set (keys m)) (uint (HashFunc (config m) k)) ?x" by (rule ring_index_next [OF assms])
  moreover have "Map_Get k m =
      (if owner_of m ?x = selfAddr m then m\<lparr>selfLoad := int64 (selfLoad m + 1)\<rparr> else m, owner_of m ?x)"
    using assms(2) by (simp add: Map_Get_def Let_def ring_index_def)
  ultimately show ?thesis by blast
qed

theorem Get_is_clockwise_owner_witness:
  "\<exists>x. is_next (set (keys small_ring)) (uint (HashFunc (config small_ring) ''k'')) x \<and>
    Map_Get ''k'' small_ring =
      (if owner_of small_ring x = selfAddr small_ring
       then small_ring\<lparr>selfLoad := int64 (selfLoad small_ring + 1)\<rparr> else small_ring, owner_of small_ring x)"
  by (rule Get_is_clockwise_owner [OF ring_invD(1) [OF small_ring_exact(2)] small_ring_exact(3)])

text \<open>
  C13. Scaling out: when nodes join, one after the other, every key is routed as before or to one of
  the nodes that joined; the joined nodes are members and the ring stays well formed. This needs no
  assumption on the hash function: collisions included.
\<close>
theorem joining_only_takes_over:
  assumes "ring_inv m"
  shows "route (fold Map_Add as m) k \<in> insert (route m k) (set as) \<and>
    members (fold Map_Add as m) = members m \<union> set as \<and> ring_inv (fold Map_Add as m)"
  using ring.joins [OF assms, of "as" k] by blast

theorem joining_only_takes_over_witness:
  "route (fold Map_Add [''c'', ''d''] small_ring) ''k'' \<in> insert (route small_ring ''k'') (set [''c'', ''d'']) \<and>
    members (fold Map_Add [''c'', ''d''] small_ring) = members small_ring \<union> set [''c'', ''d''] \<and>
    ring_inv (fold Map_Add [''c'', ''d''] small_ring)"
  by (rule joining_only_takes_over [OF small_ring_exact(2)])

text \<open>
  C14. Scaling in: as long as no two nodes share a virtual node, the departure of nodes, one after
  the other, changes the route of no key that was not routed to one of them.
\<close>
theorem leaving_only_gives_away:
  assumes "ring_exact m" "route m k \<notin> set as"
  shows "route (fold Map_Remove as m) k = route m k \<and> ring_exact (fold Map_Remove as m)"
  using ring.leaves [OF assms] by blast

theorem leaving_only_gives_away_witness:
  "\<exists>k. route (fold Map_Remove [''b''] small_ring) k = ''a''"
proof -
  have r: "route small_ring ''k'' = ''a'' \<or> route small_ring ''q'' = ''a'' \<or> route small_ring ''zz'' = ''a''"
    by code_simp
  have "route small_ring k = ''a'' \<Longrightarrow> route (fold Map_Remove [''b''] small_ring) k = ''a''" for k
    using leaving_only_gives_away [OF small_ring_exact(1), of k "[''b'']"] by simp
  with r show ?thesis by blast
qed

text \<open>
  A key is never routed into the void: as long as no two nodes share a virtual node, a ring that
  is not empty routes every key to a registered node.
\<close>
lemma routed_to_member:
  assumes "ring_exact m" "keys m \<noteq> []"
  shows "route m k \<in> members m"
  by (rule route_member [OF assms])

lemma routed_to_member_witness: "route small_ring ''k'' \<in> members small_ring"
  by (rule routed_to_member [OF small_ring_exact(1,3)])

text \<open>
  \<open>Remove\<close> undoes \<open>Add\<close>: for a new node whose virtual nodes hit no point of the ring, adding
  and removing it gives back the same sorted slice, the same map and the same replica counts.
\<close>
lemma Remove_undoes_Add:
  assumes "ring_inv m" "a \<notin> members m" "apart m a"
  shows "keys (Map_Remove a (Map_Add a m)) = keys m \<and> hashMap (Map_Remove a (Map_Add a m)) = hashMap m \<and>
    nodeReplicas (Map_Remove a (Map_Add a m)) = nodeReplicas m"
proof -
  let ?r = "DefaultReplicas (config m)" and ?m = "Map_Add a m"
  have add: "?m = addNode a ?r m" using assms(2) by (simp add: Map_Add_cases)
  have srt: "sorted (keys ?m)" by (simp add: add)
  have rem: "Map_Remove a ?m = removeNoLock a ?m" by (simp add: Map_Remove_cases add)
  note R = removeNoLock_simps [OF srt, of a]
  have "mset (keys (removeNoLock a ?m)) = mset (keys m)" by (simp add: R(2), simp add: add)
  then have "keys (removeNoLock a ?m) = keys m"
    using R(1) ring_invD(1) [OF assms(1)] by (metis properties_for_sort)
  moreover have "hashMap m h = None" if "h \<in> set (vhashes (config m) a ?r)" for h
  proof (rule ccontr)
    assume "hashMap m h \<noteq> None"
    then have "h \<in> set (keys m)" using ring_invD(4) [OF assms(1)] set_keys [OF assms(1)] by blast
    then show False using assms(3) that by (auto simp: apart_def)
  qed
  then have "hashMap (removeNoLock a ?m) = hashMap m"
    unfolding R(3) by (auto simp: add fun_eq_iff)
  moreover have "nodeReplicas (removeNoLock a ?m) = nodeReplicas m"
    unfolding R(5) using assms(2) by (auto simp: add members_def domIff fun_eq_iff)
  ultimately show ?thesis by (simp add: rem)
qed

lemma Remove_undoes_Add_witness:
  "keys (Map_Remove ''c'' (Map_Add ''c'' small_ring)) = keys small_ring \<and>
   hashMap (Map_Remove ''c'' (Map_Add ''c'' small_ring)) = hashMap small_ring \<and>
   nodeReplicas (Map_Remove ''c'' (Map_Add ''c'' small_ring)) = nodeReplicas small_ring"
proof (rule Remove_undoes_Add [OF small_ring_exact(2)])
  show "''c'' \<notin> members small_ring" unfolding members_def domIff by code_simp
  show "apart small_ring ''c''" by code_simp
qed

text \<open>
  C16. The invariant of the ring, for every node, configuration with \<open>MinReplicas\<close> up to \<open>MaxReplicas\<close>
  around the default, and every interleaving of requests, joins, departures, load reports, fetched counts,
  rebalances (atomic, or node by node with other sections in between) and installed snapshots that are
  sorted, as those of a leader are: the slice is sorted and replica counts stay within their bounds. As long
  as the node has not installed a snapshot, the slice holds exactly the virtual nodes of the registered
  nodes, and every position in the map belongs to a registered node that has a virtual node there. (What an
  installed snapshot does to the second part is the subject of \<open>departed_ghost_is_called\<close>.)
\<close>
theorem reachable_rings_are_sound:
  assumes "m0 = NewConsistentHash self (map (\<lambda>cfg m. m\<lparr>config := cfg\<rparr>) cfgs)"
    and "MinReplicas (config m0) \<le> DefaultReplicas (config m0)" "DefaultReplicas (config m0) \<le> MaxReplicas (config m0)"
    and "ring_run m0 ops = Some m" "\<forall>x\<in>set ops. sorted_install x"
  shows "sorted (keys m) \<and>
    (\<forall>a r. nodeReplicas m a = Some r \<longrightarrow> MinReplicas (config m) \<le> r \<and> r \<le> MaxReplicas (config m)) \<and>
    ((\<forall>x\<in>set ops. \<not> installs x) \<longrightarrow>
      mset (keys m) = (\<Sum>a\<in>members m. mset (node_hashes m a)) \<and>
      (\<forall>h a. hashMap m h = Some a \<longrightarrow> a \<in> members m \<and> h \<in> set (node_hashes m a)))"
proof -
  have s: "sound m0" unfolding assms(1) by (rule new_sound)
  have g: "good_config (config m0)" using assms(2,3) by (simp add: good_config_def)
  have "tidy m" using ring_run_tidy [OF sound_tidy [OF s g] g assms(4,5)] by blast
  moreover have "ring_inv m" if "\<forall>x\<in>set ops. \<not> installs x"
    using ring_run_sound [OF s g assms(4) that] by (simp add: sound_def)
  ultimately show ?thesis unfolding tidy_def ring_inv_def replicas_bounded_def by blast
qed

theorem reachable_rings_are_sound_witness:
  "\<exists>m. ring_run empty_ring [Ring_Add ''a'', Ring_Get ''k'', Ring_Resize ''b'' 2 20 10, Ring_Report] = Some m \<and>
     mset (keys m) = (\<Sum>a\<in>members m. mset (node_hashes m a)) \<and>
     (\<exists>m'. ring_run m [Ring_Install [3, 9] [3 \<mapsto> ''c''], Ring_Add ''d''] = Some m' \<and> sorted (keys m'))"
proof -
  let ?xs = "[Ring_Add ''a'', Ring_Get ''k'', Ring_Resize ''b'' 2 20 10, Ring_Report]"
  let ?ys = "[Ring_Install [3, 9] [3 \<mapsto> ''c''], Ring_Add ''d'']"
  have e: "empty_ring = NewConsistentHash ''a'' (map (\<lambda>cfg m. m\<lparr>config := cfg\<rparr>) [small_config])"
    by (simp add: empty_ring_def)
  have c: "config empty_ring = small_config" by (simp add: empty_ring_def NewConsistentHash_def)
  obtain m where m: "ring_run empty_ring ?xs = Some m" by simp
  obtain m' where m': "ring_run m ?ys = Some m'" by simp
  have r: "ring_run empty_ring (?xs @ ?ys) = Some m'" using m m' by simp
  have "sorted (keys m')" using reachable_rings_are_sound [OF e _ _ r] by (simp add: c small_config_def)
  moreover have "mset (keys m) = (\<Sum>a\<in>members m. mset (node_hashes m a))"
    using reachable_rings_are_sound [OF e _ _ m] by (simp add: c small_config_def)
  ultimately show ?thesis using m m' by blast
qed

subsection \<open>Rebalancing\<close>

text \<open>
  C17. One rebalance, whatever keys the iteration over \<open>nodeCounts\<close> produces, in whatever order and
  however often (the body deletes and re-creates entries, and Go may produce those again). Without a count
  it panics; with the average 0 nothing happens. Otherwise each node is judged by its own count and replicas
  only, once per time its key is produced: above the upper threshold it loses 10 replicas, below the lower
  one it gains 10, within \<open>MinReplicas\<close> and \<open>MaxReplicas\<close>, and its count starts again from 0; else nothing
  changes. So a key that is produced once is judged by the counts and replicas from before, all other
  visits notwithstanding. A key with a count that is not a member counts as a member with 0 replicas. The
  flag says whether a key that was produced was judged, and the ring stays well formed.
\<close>
theorem rebalance_effect:
  assumes "ring_inv m"
  shows "(nodeCounts m = [] \<longrightarrow> checkAndRebalance visits m = None) \<and>
    (nodeCounts m \<noteq> [] \<and> average m = 0 \<longrightarrow> checkAndRebalance visits m = Some (m, False)) \<and>
    (average m \<noteq> 0 \<longrightarrow>
      (\<exists>m' b. checkAndRebalance visits m = Some (m', b) \<and> ring_inv m' \<and>
        (\<forall>a. load_state m' a = (judge (config m) (average m) ^^ count_list visits a) (load_state m a)) \<and>
        (b \<longleftrightarrow> (\<exists>a\<in>set visits. judged (config m) (average m) (load_state m a)))))"
proof -
  let ?m = "fst (check_nodes (average m) visits m)" and ?b = "snd (check_nodes (average m) visits m)"
  have "checkAndRebalance visits m = Some (?m, ?b)" if "average m \<noteq> 0"
    using that by (auto simp: checkAndRebalance_cases average_def total_count_def)
  then show ?thesis
    using check_nodes_judge [OF ring_invD(1) [OF assms]] check_nodes_inv [OF assms]
    by (auto simp: checkAndRebalance_cases)
qed

definition loaded_ring :: con_hash where
  "loaded_ring = small_ring\<lparr>nodeCounts := [(''a'', 30), (''b'', 10)]\<rparr>"

lemma loaded_ring_inv: "ring_inv loaded_ring"
  by (rule same_ring_inv [OF _ small_ring_exact(2)]) (simp add: loaded_ring_def same_ring_def)

text \<open>Node \<open>a\<close> is above the average and goes from 2 to 1 replicas; when its re-created entry is produced
  again, it is below the average of before and gains 10.\<close>

theorem rebalance_effect_witness:
  "\<exists>m' b. checkAndRebalance [''b'', ''a'', ''a''] loaded_ring = Some (m', b) \<and> ring_inv m' \<and>
    nodeReplicas m' ''a'' = Some 11 \<and> nodeReplicas m' ''b'' = Some 12"
proof -
  have avg: "average loaded_ring = 20" by code_simp
  have c: "load_state loaded_ring ''a'' = (Some 2, Some 30)" "load_state loaded_ring ''b'' = (Some 2, Some 10)"
    "config loaded_ring = small_config"
    by (simp_all add: loaded_ring_def load_state_def, simp_all add: small_ring_def empty_ring_def NewConsistentHash_def
        Map_Add_cases members_def small_config_def)
  have j: "judge small_config 20 (judge small_config 20 (Some 2, Some 30)) = (Some 11, Some 0)"
    "judge small_config 20 (Some 2, Some 10) = (Some 12, Some 0)" by code_simp+
  obtain m' b where M: "checkAndRebalance [''b'', ''a'', ''a''] loaded_ring = Some (m', b)" "ring_inv m'"
    "\<forall>a. load_state m' a = (judge (config loaded_ring) (average loaded_ring) ^^ count_list [''b'', ''a'', ''a''] a) (load_state loaded_ring a)"
    using rebalance_effect [OF loaded_ring_inv, of "[''b'', ''a'', ''a'']"] avg by auto
  have "load_state m' ''a'' = (Some 11, Some 0)" "load_state m' ''b'' = (Some 12, Some 0)"
    using M(3) [rule_format, of "''a''"] M(3) [rule_format, of "''b''"] j by (simp_all add: avg c eval_nat_numeral)
  with M(1,2) show ?thesis by (auto simp: load_state_def)
qed

text \<open>
  The float64 comparison errs on one side only: for counts and an average below \<open>2 ^ 53\<close> and
  thresholds that are float64 values, a node that is judged really is outside of the thresholds,
  as exact numbers.
\<close>
lemma judged_nodes_are_outside:
  assumes "0 \<le> val" "val < 2 ^ 53" "0 < avg" "avg < 2 ^ 53"
    and "0 < MinLoadBalanceThreshold (config m)" "f64 (MinLoadBalanceThreshold (config m)) = MinLoadBalanceThreshold (config m)"
    and "0 < MaxLoadBalanceThreshold (config m)" "f64 (MaxLoadBalanceThreshold (config m)) = MaxLoadBalanceThreshold (config m)"
    and "new_replicas m avg a val = (r, True)"
  shows "of_int val > MaxLoadBalanceThreshold (config m) * of_int avg \<or>
    of_int val < MinLoadBalanceThreshold (config m) * of_int avg"
proof -
  let ?q = "f64_div (of_int val) (of_int avg)"
  have e: "f64_of_int val = of_int val" "f64_of_int avg = of_int avg"
    using assms(1-4) by (simp_all add: f64_of_int_exact)
  have p: "(0 :: rat) \<le> of_int val" "(0 :: rat) < of_int avg" using assms(1,3) by simp_all
  have "?q > MaxLoadBalanceThreshold (config m) \<or> ?q < MinLoadBalanceThreshold (config m)"
    using assms(9) by (auto simp: new_replicas_def Let_def e split: if_splits)
  then have "of_int val / of_int avg > MaxLoadBalanceThreshold (config m) \<or>
      of_int val / of_int avg < MinLoadBalanceThreshold (config m)"
    using f64_div_less(1) [OF p assms(8,7)] f64_div_less(2) [OF p assms(6,5)] by blast
  then show ?thesis using p(2) by (simp add: field_simps)
qed

lemma judged_nodes_are_outside_witness:
  "of_int 30 > f64 (11 / 10) * (of_int 20 :: rat) \<or> of_int 30 < f64 (9 / 10) * (of_int 20 :: rat)"
proof -
  have f: "f64 (f64 (9 / 10)) = f64 (9 / 10)" "f64 (f64 (11 / 10)) = f64 (11 / 10)" "0 < f64 (9 / 10)" "0 < f64 (11 / 10)"
    by code_simp+
  have c: "config empty_ring = small_config" by (simp add: empty_ring_def NewConsistentHash_def)
  have "snd (new_replicas empty_ring 20 ''a'' 30)" by code_simp
  then obtain r where "new_replicas empty_ring 20 ''a'' 30 = (r, True)" by (metis (full_types) prod.collapse)
  from judged_nodes_are_outside [OF _ _ _ _ _ _ _ _ this] f show ?thesis by (simp add: c small_config_def)
qed

text \<open>
  \<open>checkAndRebalance\<close> panics (it divides by the number of nodes) exactly when no load count is
  known, whatever the order of the iteration.
\<close>
lemma rebalance_panics_without_counts:
  "checkAndRebalance visits m = None \<longleftrightarrow> nodeCounts m = []"
  by (auto simp: checkAndRebalance_cases)


text \<open>One collision: the second virtual node of \<open>b\<close> is at the position of the first one of \<open>a\<close>.\<close>

definition colliding_config :: config where
  "colliding_config = small_config\<lparr>HashFunc := \<lambda>s. small_hash (if s = ''b-1'' then ''a-0'' else s)\<rparr>"


subsection \<open>Load reports\<close>

lemma trim_prefix_append [simp]: "trim_prefix (p @ s) p = s"
  by (simp add: trim_prefix_def)

lemma store_counts_append:
  "snd (store_counts xs m) \<Longrightarrow> store_counts (xs @ ys) m = store_counts ys (fst (store_counts xs m))"
  by (induction xs m rule: store_counts.induct) (auto simp: Let_def split: option.splits)

text \<open>
  A load report reaches the leader: the pair that a node writes on a tick of its reporting loop
  parses, under the key it was written to, to the load the node had, and the node's own counter
  starts again from 0; a leader that reads it, after pairs that parse, knows that load.
\<close>
lemma report_reaches_leader:
  assumes "- (2 ^ 63) \<le> selfLoad m" "selfLoad m < 2 ^ 63" "snd (store_counts kvs l)"
  shows "map_of (nodeCounts (fst (fetchAllNodeCount (Some (kvs @ [snd (report_tick m)])) l))) (selfAddr m) =
      Some (selfLoad m) \<and> selfLoad (fst (report_tick m)) = 0"
proof -
  have "fetchAllNodeCount (Some (kvs @ [snd (report_tick m)])) l =
      store_counts [snd (report_tick m)] (fst (store_counts kvs l))"
    by (simp add: fetchAllNodeCount_def store_counts_append [OF assms(3)])
  also have "nodeCounts (fst \<dots>) = AList.update (selfAddr m) (selfLoad m) (nodeCounts (fst (store_counts kvs l)))"
    by (simp add: report_tick_def PutEtcdConHashNodeCount_def ParseInt_show [OF assms(1,2)])
  finally show ?thesis by (simp add: update_conv' report_tick_def)
qed

lemma report_reaches_leader_witness:
  "map_of (nodeCounts (fst (fetchAllNodeCount (Some ([] @ [snd (report_tick (small_ring\<lparr>selfLoad := 7\<rparr>))]))
      empty_ring))) (selfAddr small_ring) = Some 7"
  using report_reaches_leader [of "small_ring\<lparr>selfLoad := 7\<rparr>" "[]" empty_ring] by simp

text \<open>
  A deletion ends the watch: the event's value is empty and does not parse, so \<open>watchNodeCount\<close>
  returns with the error; the events after it, in the same batch and in all later ones, are lost,
  and the counts stay as they were.
\<close>
lemma watch_ends_on_delete:
  "watchNodeCount (((k, []) # events) # resps) m = (m, False)"
  by (simp add: ParseInt_def)

end
