(* ===== verification/Con_Hash_Load.thy ===== *)
theory Con_Hash_Load
  imports Con_Hash_Properties
begin

text \<open>
  Load accounting of one node: requests and membership changes interleaved with the rounds of the
  reporting goroutine. A log keeps how many requests were routed to the node itself, what has reached
  etcd and the loads of failed reports.
\<close>

datatype load_act = Load_Get string | Load_Add string | Load_Remove string | Load_Report bool

record load_log =
  hits :: int
  sent :: "(string \<times> string) list"
  missed :: int

definition no_load :: load_log where
  "no_load = \<lparr>hits = 0, sent = [], missed = 0\<rparr>"

fun load_step :: "load_act \<Rightarrow> con_hash \<times> load_log \<Rightarrow> con_hash \<times> load_log" where
  "load_step (Load_Get key) (m, l) =
     (let (m', addr) = Map_Get key m
      in (m', if keys m \<noteq> [] \<and> addr = selfAddr m then l\<lparr>hits := hits l + 1\<rparr> else l))"
| "load_step (Load_Add addr) (m, l) = (Map_Add addr m, l)"
| "load_step (Load_Remove addr) (m, l) = (Map_Remove addr m, l)"
| "load_step (Load_Report put_ok) (m, l) =
     (let (m', out) = report_round put_ok m
      in (m', l\<lparr>sent := sent l @ out, missed := missed l + (if put_ok then 0 else selfLoad m)\<rparr>))"

definition load_run :: "load_act list \<Rightarrow> con_hash \<times> load_log \<Rightarrow> con_hash \<times> load_log" where
  "load_run acts s = fold load_step acts s"

text \<open>The loads that a reader of the reports sees.\<close>

definition reported :: "(string \<times> string) list \<Rightarrow> int" where
  "reported kvs = (\<Sum>(k, v)\<leftarrow>kvs. case ParseInt v of Some n \<Rightarrow> n | None \<Rightarrow> 0)"

lemma Map_Get_load:
  assumes "0 \<le> selfLoad m" "selfLoad m < 2 ^ 63 - 1"
  shows "selfLoad (fst (Map_Get k m)) =
      selfLoad m + (if keys m \<noteq> [] \<and> snd (Map_Get k m) = selfAddr m then 1 else 0)"
    "selfAddr (fst (Map_Get k m)) = selfAddr m"
  using assms by (simp_all add: Map_Get_def Let_def int64_id)

lemma remove_vnodes_load:
  "selfLoad (fold (remove_vnode a) is m) = selfLoad m" "selfAddr (fold (remove_vnode a) is m) = selfAddr m"
  by (induction "is" arbitrary: m) (simp_all add: remove_vnode_def Let_def)

lemma membership_load [simp]:
  "selfLoad (Map_Add a m) = selfLoad m" "selfAddr (Map_Add a m) = selfAddr m"
  "selfLoad (Map_Remove a m) = selfLoad m" "selfAddr (Map_Remove a m) = selfAddr m"
  by (simp_all add: Map_Add_def Map_Remove_def removeNoLock_def Let_def remove_vnodes_load)

lemma reported_append [simp]: "reported (xs @ ys) = reported xs + reported ys"
  by (simp add: reported_def)

text \<open>Every hit is reported, lost in a failed report, or still counted.\<close>

definition balance :: "con_hash \<times> load_log \<Rightarrow> int" where
  "balance s = reported (sent (snd s)) + missed (snd s) + selfLoad (fst s) - hits (snd s)"

lemma load_step_balance:
  assumes "0 \<le> selfLoad (fst s)" "selfLoad (fst s) < 2 ^ 63 - 1"
  shows "balance (load_step a s) = balance s \<and> 0 \<le> selfLoad (fst (load_step a s)) \<and>
    selfLoad (fst (load_step a s)) \<le> selfLoad (fst s) + 1 \<and>
    selfAddr (fst (load_step a s)) = selfAddr (fst s)"
proof -
  obtain m l where s: "s = (m, l)" by force
  show ?thesis
  proof (cases a)
    case (Load_Get key)
    then show ?thesis using Map_Get_load [of m key] assms
      by (simp add: s balance_def case_prod_beta)
  next
    case (Load_Report ok)
    have "ParseInt (show_int (selfLoad m)) = Some (selfLoad m)"
      using assms by (intro ParseInt_show) (simp_all add: s)
    then show ?thesis using Load_Report assms
      by (simp add: s balance_def report_round_def report_tick_def PutEtcdConHashNodeCount_def reported_def)
  qed (use assms in \<open>simp_all add: s balance_def\<close>)
qed

lemma load_run_balance:
  assumes "0 \<le> selfLoad (fst s)" "selfLoad (fst s) + int (length acts) < 2 ^ 63"
  shows "balance (load_run acts s) = balance s \<and> 0 \<le> selfLoad (fst (load_run acts s))"
  using assms
proof (induction acts arbitrary: s)
  case (Cons a acts)
  have st: "balance (load_step a s) = balance s" "0 \<le> selfLoad (fst (load_step a s))"
    "selfLoad (fst (load_step a s)) \<le> selfLoad (fst s) + 1"
    using load_step_balance [of s a] Cons.prems by auto
  then have "selfLoad (fst (load_step a s)) + int (length acts) < 2 ^ 63" using Cons.prems(2) by simp
  from Cons.IH [OF st(2) this] st(1) show ?case by (simp add: load_run_def)
qed (simp add: load_run_def)

text \<open>
  C25. Load is accounted for: however requests, joining and leaving nodes and rounds of the reporting
  goroutine interleave, the requests that the ring routed to the node itself are exactly those that its
  reports in etcd add up to, those that are still counted, and those of reports that etcd refused; nothing
  is counted twice. What a failed report took off the counter is not reported later.
\<close>
theorem load_is_accounted_for:
  assumes "selfLoad m = 0" "int (length acts) < 2 ^ 63" "load_run acts (m, no_load) = (m', l)"
  shows "hits l = reported (sent l) + selfLoad m' + missed l \<and> 0 \<le> selfLoad m'"
  using load_run_balance [of "(m, no_load)" acts] assms by (simp add: balance_def no_load_def reported_def)

definition load_acts :: "load_act list" where
  "load_acts = [Load_Add ''a'', Load_Get ''k'', Load_Get ''l'', Load_Report True, Load_Get ''k'', Load_Report False, Load_Get ''k'']"

theorem load_is_accounted_for_witness:
  "\<exists>m' l. load_run load_acts (empty_ring, no_load) = (m', l) \<and> hits l = 4 \<and>
     reported (sent l) + selfLoad m' + missed l = 4"
proof -
  obtain m' l where r: "load_run load_acts (empty_ring, no_load) = (m', l)" by force
  have "selfLoad empty_ring = 0" "hits (snd (load_run load_acts (empty_ring, no_load))) = 4" by code_simp+
  with load_is_accounted_for [OF _ _ r] r show ?thesis by (simp add: load_acts_def)
qed

end
