(* ===== verification/Con_Hash_Publish.thy ===== *)
theory Con_Hash_Publish
  imports Con_Hash_Sync
begin

text \<open>
  What a snapshot carries from a leader to its followers: encoding and decoding a ring gives it back,
  what decoding can produce at all, and a follower that has seen what a leader published routes every
  key as the leader does.
\<close>

subsection \<open>Decoding what was encoded\<close>

lemma decode_elems_numbers:
  "\<forall>k\<in>set ks. - (2 ^ 63) \<le> k \<and> k < 2 ^ 63 \<Longrightarrow> decode_elems arr (map (\<lambda>k. JNum (show_int k)) ks) = Some ks"
  by (induction ks arbitrary: arr) (simp_all add: ParseInt_show)

lemma decode_members_entries:
  assumes "\<forall>k\<in>set ks. - (2 ^ 63) \<le> k \<and> k < 2 ^ 63"
  shows "decode_members (map (\<lambda>k. (show_int k, JStr (f k))) ks) m
           = Some (\<lambda>k. if k \<in> set ks then Some (f k) else m k)"
  using assms by (induction ks arbitrary: m) (auto simp: ParseInt_show fun_eq_iff)

lemma field_of_names: "field_of ''Keys'' = Some Field_Keys" "field_of ''HashMap'' = Some Field_HashMap"
  by code_simp+

text \<open>Rings that survive the way through JSON: positions are Go integers, addresses are UTF-8.\<close>

definition int64_set :: "int set" where
  "int64_set = {- (2 ^ 63) ..< 2 ^ 63}"

definition ring_typed :: "hash_ring \<Rightarrow> bool" where
  "ring_typed r \<longleftrightarrow>
     (case Keys r of None \<Rightarrow> True | Some ks \<Rightarrow> set ks \<subseteq> int64_set) \<and>
     (case HashMap r of None \<Rightarrow> True
      | Some m \<Rightarrow> finite (dom m) \<and> dom m \<subseteq> int64_set \<and> (\<forall>a\<in>ran m. valid_utf8 a))"

lemma set_map_keys: "finite (dom m) \<Longrightarrow> set (map_keys m) = dom m"
  by (simp add: map_keys_def)

lemma valid_utf8_show_int: "valid_utf8 (show_int i)"
  using show_int_chars [of i]
  by (intro valid_utf8_ascii) (auto simp: list_all_iff number_char_def is_digit_def)

lemma valid_names: "valid_utf8 ''Keys''" "valid_utf8 ''HashMap''"
  by (rule valid_utf8_ascii; simp)+

lemma ring_json_wf: "ring_typed r \<Longrightarrow> wf_json (ring_json r)"
  by (auto simp: ring_json_def ring_typed_def list_all_iff set_map_keys valid_utf8_show_int
      valid_names intro: ranI split: option.splits)

lemma foldr_max_0: "foldr (\<lambda>x. max 0) xs 0 = (0::nat)"
  by (induction xs) auto

lemma ring_json_depth: "depth (ring_json r) \<le> max_depth"
  by (auto simp: ring_json_def foldr_map comp_def foldr_max_0 max_depth_def split: option.split)

lemma Unmarshal_Marshal:
  assumes "ring_typed r"
  shows "Unmarshal (Marshal r) = Some r"
proof -
  have "parse_json (Marshal r) = Some (ring_json r)"
    unfolding Marshal_def using assms by (intro parse_json_encode ring_json_wf ring_json_depth)
  moreover have "\<forall>k\<in>set ks. - (2 ^ 63) \<le> k \<and> k < 2 ^ 63" if "Keys r = Some ks" for ks
    using assms that by (auto simp: ring_typed_def int64_set_def)
  moreover have "\<forall>k\<in>set (map_keys m). - (2 ^ 63) \<le> k \<and> k < 2 ^ 63"
    "(\<lambda>k. if k \<in> set (map_keys m) then Some (case m k of Some a \<Rightarrow> a | None \<Rightarrow> []) else None) = m"
    if "HashMap r = Some m" for m
    using assms that by (auto simp: ring_typed_def int64_set_def set_map_keys fun_eq_iff dom_def)
  ultimately show ?thesis
    by (cases r; cases "Keys r"; cases "HashMap r")
      (auto simp: Unmarshal_def ring_json_def field_of_names zero_ring_def decode_elems_numbers
        decode_members_entries)
qed

subsection \<open>What decoding can produce\<close>

lemma ParseInt_range: "ParseInt s = Some i \<Longrightarrow> i \<in> int64_set"
  by (auto simp: ParseInt_def int64_set_def split: list.splits if_splits option.splits)

lemma valid_char: "byte c < 128 \<Longrightarrow> valid_utf8 [c]"
  by (simp add: valid_utf8_ascii)

lemma unquote_valid: "unquote s = Some u \<Longrightarrow> valid_utf8 u"
proof (induction s arbitrary: u rule: unquote.induct)
  case (1 s)
  show ?case
  proof (cases "s = []")
    case False
    then obtain v r w where s: "unquote_unit s = Some (v, r)" "unquote r = Some w" "u = v @ w"
      using "1.prems" by (auto simp: unquote.simps [of s] split: option.splits)
    have "valid_utf8 v"
      using s(1) valid_utf8_seq [of s "[]"]
      by (auto simp: unquote_unit_def unquote_u_def Let_def valid_EncodeRune valid_replacement valid_char
          split: list.splits if_splits option.splits)
    then show ?thesis using s "1.IH" False by (simp add: valid_utf8_append)
  qed (use "1.prems" in \<open>simp add: unquote.simps\<close>)
qed

fun text_ok :: "json \<Rightarrow> bool" where
  "text_ok (JStr s) = valid_utf8 s"
| "text_ok (JArr vs) = list_all text_ok vs"
| "text_ok (JObj ms) = list_all (\<lambda>(k, v). valid_utf8 k \<and> text_ok v) ms"
| "text_ok _ = True"

definition token_ok :: "token \<Rightarrow> bool" where
  "token_ok t \<longleftrightarrow> (case t of Str s \<Rightarrow> valid_utf8 s | _ \<Rightarrow> True)"

fun frame_ok :: "frame \<Rightarrow> bool" where
  "frame_ok (InArr vs) = text_ok (JArr vs)"
| "frame_ok (InObj ms k) = (text_ok (JObj ms) \<and> valid_utf8 k)"

fun mode_ok :: "mode \<Rightarrow> bool" where
  "mode_ok (Begin_key_or_end ms) = text_ok (JObj ms)"
| "mode_ok (Begin_key ms) = text_ok (JObj ms)"
| "mode_ok (After_key ms k) = (text_ok (JObj ms) \<and> valid_utf8 k)"
| "mode_ok (After_value v) = text_ok v"
| "mode_ok _ = True"

lemma token_ok_simps [simp]:
  "token_ok (Str s) = valid_utf8 s" "token_ok (Number n)" "token_ok Null" "token_ok (Bool b)"
  by (simp_all add: token_ok_def)

lemma punctuation_ok: "punctuation c = Some t \<Longrightarrow> token_ok t"
  by (auto simp: punctuation_def token_ok_def split: if_splits)

lemma lex_token_ok: "lex_text s = Some ts \<Longrightarrow> list_all token_ok ts"
proof (induction s arbitrary: ts rule: lex_text.induct)
  case (1 s)
  show ?case
  proof (cases "dropWhile is_space s")
    case (Cons c cs)
    then obtain t r ts' where t: "first_token (c # cs) = Some (t, r)" "lex_text r = Some ts'" "ts = t # ts'"
      using "1.prems" by (auto simp: lex_text.simps [of s] split: option.splits)
    have "token_ok t" using t(1) punctuation_ok
      by (auto simp: first_token_def Let_def dest!: unquote_valid split: option.splits if_splits Option.bind_splits)
    then show ?thesis using "1.IH" [OF Cons t(1) refl t(2)] t(3) by simp
  next
    case Nil
    have "lex_text s = Some []" by (subst lex_text.simps) (simp only: Nil list.case)
    then show ?thesis using "1.prems" by simp
  qed
qed

lemma begin_value_ok:
  "begin_value t st = Some (md, st') \<Longrightarrow> token_ok t \<Longrightarrow> list_all frame_ok st \<Longrightarrow>
     mode_ok md \<and> list_all frame_ok st'"
  by (cases t) (auto simp: token_ok_def split: if_splits)

lemma list_all_tl: "list_all P xs \<Longrightarrow> list_all P (tl xs)"
  by (cases xs) auto

lemma parse_step_ok:
  assumes "parse_step t (md, st) = Some (md', st')" "token_ok t" "mode_ok md" "list_all frame_ok st"
  shows "mode_ok md' \<and> list_all frame_ok st'"
  using assms begin_value_ok list_all_tl [of frame_ok st]
  by (cases "(t, md, st)" rule: parse_step.cases) (auto simp: token_ok_def split: token.splits if_splits)

fun_cases parse_tokens_NilE: "parse_tokens [] cfg = Some v"

lemma parse_tokens_ok:
  "parse_tokens ts (md, st) = Some v \<Longrightarrow> list_all token_ok ts \<Longrightarrow> mode_ok md \<Longrightarrow> list_all frame_ok st \<Longrightarrow>
     text_ok v"
proof (induction ts arbitrary: md st)
  case Nil
  then show ?case by (auto elim!: parse_tokens_NilE)
next
  case (Cons t ts)
  then obtain md' st' where step: "parse_step t (md, st) = Some (md', st')" "parse_tokens ts (md', st') = Some v"
    by (auto split: option.splits)
  then show ?case using parse_step_ok [OF step(1)] Cons.IH [OF step(2)] Cons.prems by simp
qed

lemma parse_json_ok: "parse_json s = Some v \<Longrightarrow> text_ok v"
  by (auto simp: parse_json_def split: option.splits intro!: parse_tokens_ok lex_token_ok)

lemma decode_elems_typed:
  "decode_elems arr vs = Some xs \<Longrightarrow> set arr \<subseteq> int64_set \<Longrightarrow> set xs \<subseteq> int64_set"
proof (induction arr vs arbitrary: xs rule: decode_elems.induct)
  case (2 arr v vs)
  obtain x ys where x: "decode_elem (case arr of a # _ \<Rightarrow> a | [] \<Rightarrow> 0) v = Some x"
    "decode_elems (tl arr) vs = Some ys" "xs = x # ys"
    using "2.prems"(1) by (auto split: Option.bind_splits)
  have "x \<in> int64_set" using x(1) "2.prems"(2) ParseInt_range
    by (cases v; cases arr) (auto simp: int64_set_def)
  moreover have "set (tl arr) \<subseteq> int64_set" using "2.prems"(2) by (cases arr) auto
  ultimately show ?case using "2.IH" [OF x(1,2)] x(3) by simp
qed simp

definition map_typed :: "(int \<rightharpoonup> string) \<Rightarrow> bool" where
  "map_typed m \<longleftrightarrow> finite (dom m) \<and> dom m \<subseteq> int64_set \<and> (\<forall>a\<in>ran m. valid_utf8 a)"

lemma map_typed_upd: "map_typed m \<Longrightarrow> h \<in> int64_set \<Longrightarrow> valid_utf8 a \<Longrightarrow> map_typed (m(h \<mapsto> a))"
  by (auto simp: map_typed_def ran_def)

lemma decode_members_typed:
  "decode_members ms m = Some m' \<Longrightarrow> text_ok (JObj ms) \<Longrightarrow> map_typed m \<Longrightarrow> map_typed m'"
proof (induction ms m rule: decode_members.induct)
  case (2 k v ms m)
  obtain a h where a: "(case v of JNull \<Rightarrow> Some [] | JStr a \<Rightarrow> Some a | _ \<Rightarrow> None) = Some a"
    "ParseInt k = Some h" "decode_members ms (m(h \<mapsto> a)) = Some m'"
    using "2.prems"(1) by (auto split: Option.bind_splits)
  have "valid_utf8 a" using a(1) "2.prems"(2) by (cases v) auto
  then have "map_typed (m(h \<mapsto> a))" using "2.prems"(3) ParseInt_range [OF a(2)] by (intro map_typed_upd)
  with "2.prems"(2) show ?case by (intro "2.IH" [OF a]) (simp_all del: fun_upd_apply)
qed simp

definition decoder_typed :: "int list \<times> hash_ring \<Rightarrow> bool" where
  "decoder_typed s \<longleftrightarrow> set (fst s) \<subseteq> int64_set \<and> ring_typed (snd s)"

lemma decode_field_typed:
  assumes "decode_field f v (arr, r) = Some s" "text_ok v" "decoder_typed (arr, r)"
  shows "decoder_typed s"
proof -
  have empty: "map_typed Map.empty" by (simp add: map_typed_def)
  have r: "ring_typed r" "set arr \<subseteq> int64_set" using assms(3) by (simp_all add: decoder_typed_def)
  show ?thesis
  proof (cases "(f, v, arr, r)" rule: decode_field.cases)
    case (2 vs)
    then obtain xs where "decode_elems arr vs = Some xs"
      "s = (if xs = [] then [] else xs @ drop (length xs) arr, r\<lparr>Keys := Some xs\<rparr>)"
      using assms(1) by (auto split: Option.bind_splits)
    then show ?thesis
      using decode_elems_typed r set_drop_subset [of "length xs" arr]
      by (auto simp: decoder_typed_def ring_typed_def)
  next
    case (4 ms)
    then obtain m where m: "decode_members ms (case HashMap r of None \<Rightarrow> Map.empty | Some m \<Rightarrow> m) = Some m"
      "s = (arr, r\<lparr>HashMap := Some m\<rparr>)"
      using assms(1) by (auto split: Option.bind_splits)
    have "map_typed (case HashMap r of None \<Rightarrow> Map.empty | Some m \<Rightarrow> m)"
      using r(1) empty by (auto simp: ring_typed_def map_typed_def split: option.splits)
    then have "map_typed m" using decode_members_typed m(1) assms(2) 4 by blast
    then show ?thesis using r m(2) by (auto simp: decoder_typed_def ring_typed_def map_typed_def)
  qed (use assms in \<open>auto simp: decoder_typed_def ring_typed_def\<close>)
qed

lemma decode_fields_typed:
  "decode_fields ms s = Some s' \<Longrightarrow> text_ok (JObj ms) \<Longrightarrow> decoder_typed s \<Longrightarrow> decoder_typed s'"
proof (induction ms s rule: decode_fields.induct)
  case (2 k v ms s)
  then show ?case
    using decode_field_typed [of _ v "fst s" "snd s"] by (auto split: option.splits)
qed simp

lemma Unmarshal_typed: "Unmarshal s = Some r \<Longrightarrow> ring_typed r"
proof -
  assume *: "Unmarshal s = Some r"
  have e: "decoder_typed ([], zero_ring)" by (simp add: decoder_typed_def ring_typed_def zero_ring_def)
  show ?thesis using * e parse_json_ok [of s] decode_fields_typed [OF _ _ e]
    by (fastforce simp: Unmarshal_def decoder_typed_def split: option.splits json.splits)
qed

end
