(* ===== verification/Con_Hash_Follow.thy ===== *)
theory Con_Hash_Follow
  imports Con_Hash_Publish Con_Hash_Properties
begin

text \<open>
  The properties of ring snapshots: the round trip through JSON, what a follower
  installs of any batches of events, and the composition of a leader's loop with a follower.
\<close>

subsection \<open>Rings a leader can publish\<close>

definition ring_positions :: "int set" where
  "ring_positions = {0 ..< 2 ^ 32}"

definition publishable :: "con_hash \<Rightarrow> bool" where
  "publishable m \<longleftrightarrow>
     set (keys m) \<subseteq> ring_positions \<and> finite (dom (hashMap m)) \<and> dom (hashMap m) \<subseteq> ring_positions \<and>
     (\<forall>a\<in>ran (hashMap m). valid_utf8 a) \<and> (\<forall>a\<in>fst ` set (nodeCounts m). valid_utf8 a)"

lemma positions_int64: "ring_positions \<subseteq> int64_set"
  by (auto simp: ring_positions_def int64_set_def)

lemma publishable_typed: "publishable m \<Longrightarrow> ring_typed (ring_snapshot m)"
  using positions_int64 by (auto simp: publishable_def ring_typed_def ring_snapshot_def)

lemma vhash_position: "vhash cfg addr i \<in> ring_positions"
  using unsigned_less [of "HashFunc cfg (vnode addr i)"] by (simp add: vhash_def ring_positions_def)

lemma publishable_add_vnode: "valid_utf8 addr \<Longrightarrow> publishable m \<Longrightarrow> publishable (add_vnode addr i m)"
  using vhash_position [of "config m" addr i]
  by (auto simp: publishable_def add_vnode_def Let_def ran_def AList.dom_update)

lemma set_slice_remove: "set (slice_remove xs x) \<subseteq> set xs"
  by (auto simp: slice_remove_def Let_def dest: in_set_takeD in_set_dropD)

lemma publishable_remove_vnode: "publishable m \<Longrightarrow> publishable (remove_vnode addr i m)"
  using set_slice_remove [of "keys m" "vhash (config m) addr i"]
  by (auto simp: publishable_def remove_vnode_def Let_def ran_def)

lemma publishable_addNode:
  assumes "valid_utf8 addr" "publishable m"
  shows "publishable (addNode addr r m)"
proof -
  have "publishable (fold (add_vnode addr) is m)" for "is"
    using assms by (induction "is" arbitrary: m) (simp_all add: publishable_add_vnode)
  then show ?thesis by (auto simp: publishable_def addNode_def Let_def)
qed

lemma publishable_removeNoLock:
  assumes "publishable m"
  shows "publishable (removeNoLock addr m)"
proof -
  have "publishable (fold (remove_vnode addr) is m)" for "is"
    using assms by (induction "is" arbitrary: m) (simp_all add: publishable_remove_vnode)
  moreover have "(k, v) \<in> set (AList.delete addr al) \<Longrightarrow> k \<in> fst ` set al" for k v and al :: "(string \<times> int) list"
    using AList.dom_delete_subset [of addr al] by force
  ultimately show ?thesis by (fastforce simp: publishable_def removeNoLock_def Let_def)
qed

lemma publishable_check_nodes: "publishable m \<Longrightarrow> publishable (fst (check_nodes avg visits m))"
proof (induction visits arbitrary: m)
  case (Cons a as)
  show ?case
  proof (cases "map_of (nodeCounts m) a")
    case (Some val)
    then have "valid_utf8 a" using Cons.prems by (auto simp: publishable_def dest: map_of_Some_key)
    then have "publishable (fst (check_node avg a val m))"
      using Cons.prems publishable_addNode publishable_removeNoLock
      by (simp add: check_node_def rebalanceReplicas_def case_prod_beta)
    then show ?thesis using Cons.IH Some by (simp add: check_nodes_Some)
  qed (use Cons in \<open>simp add: check_nodes_None\<close>)
qed simp

lemma publishable_rebalance:
  assumes "publishable m" "checkAndRebalance visits m = Some (m', b)"
  shows "publishable m'"
  using assms publishable_check_nodes [of m]
  by (auto simp: checkAndRebalance_def Let_def split: if_splits) (metis fst_conv)

text \<open>A tick that does not rebalance leaves the ring as it is.\<close>

lemma check_nodes_unflagged: "snd (check_nodes avg visits m) = False \<Longrightarrow> fst (check_nodes avg visits m) = m"
proof (induction visits arbitrary: m)
  case (Cons a as)
  show ?case
  proof (cases "map_of (nodeCounts m) a")
    case (Some val)
    have "fst (check_node avg a val m) = m" if "\<not> snd (check_node avg a val m)"
      using that by (simp add: check_node_def case_prod_beta split: if_splits)
    then show ?thesis using Cons Some by (simp add: check_nodes_Some)
  qed (use Cons in \<open>simp add: check_nodes_None\<close>)
qed simp

lemma rebalance_unflagged: "checkAndRebalance visits m = Some (m', False) \<Longrightarrow> m' = m"
  using check_nodes_unflagged [of "average m" visits m]
  by (auto simp: checkAndRebalance_cases split: if_splits)

subsection \<open>Followers\<close>

lemma ring_event_Marshal:
  "publishable m \<Longrightarrow> ring_event (k, Marshal (ring_snapshot m)) s = install_ring (ring_snapshot m) s"
  by (simp add: ring_event_def Unmarshal_Marshal publishable_typed)

text \<open>Whatever the state was, an installed snapshot determines the ring.\<close>

lemma install_again: "install_ring r (install_ring r' s) = install_ring r s"
  by (simp add: install_ring_def)

lemma updateHashRing_concat: "updateHashRing resps s = fold ring_event (concat resps) s"
  by (induction resps arbitrary: s) (simp_all add: updateHashRing_def)

lemma map_filter_snoc: "List.map_filter f (xs @ [x]) = List.map_filter f xs @ (case f x of None \<Rightarrow> [] | Some y \<Rightarrow> [y])"
  by (simp add: List.map_filter_def split: option.split)

lemma fold_ring_event:
  "fold ring_event kvs s =
     (case rev (List.map_filter (Unmarshal \<circ> snd) kvs) of [] \<Rightarrow> s | r # _ \<Rightarrow> install_ring r s)"
proof (induction kvs rule: rev_induct)
  case (snoc kv kvs)
  then show ?case
    by (cases "rev (List.map_filter (Unmarshal \<circ> snd) kvs)")
      (auto simp: ring_event_def map_filter_snoc install_again split: option.split list.splits)
qed (simp add: map_filter_simps)

text \<open>The two sides agree on every route.\<close>

definition same_routes :: "con_hash \<Rightarrow> con_hash \<Rightarrow> bool" where
  "same_routes m m' \<longleftrightarrow> (\<forall>key. snd (Map_Get key m) = snd (Map_Get key m'))"

lemma installed_routes:
  assumes "HashFunc (config m') = HashFunc (config (fst s))"
  shows "same_routes (fst (install_ring (ring_snapshot m') s)) m'"
  using assms by (simp add: same_routes_def Map_Get_def install_ring_def ring_snapshot_def Let_def owner_of_def)

subsection \<open>Reachable rings can be published\<close>

fun op_texts :: "ring_op \<Rightarrow> string set" where
  "op_texts (Ring_Add a) = {a}"
| "op_texts (Ring_Fetch (Some kvs)) = (\<lambda>(k, v). trim_prefix k count_prefix) ` set kvs"
| "op_texts (Ring_Watch resps) = (\<Union>kvs\<in>set resps. (\<lambda>(k, v). trim_prefix k count_prefix) ` set kvs)"
| "op_texts (Ring_Resize a seen avg val) = {a}"
| "op_texts (Ring_Install ks hm) = ran hm"
| "op_texts _ = {}"

fun op_positions :: "ring_op \<Rightarrow> bool" where
  "op_positions (Ring_Install ks hm) = (set ks \<subseteq> ring_positions \<and> finite (dom hm) \<and> dom hm \<subseteq> ring_positions)"
| "op_positions _ = True"

lemma publishable_counts:
  "publishable m \<Longrightarrow> valid_utf8 a \<Longrightarrow> publishable (m\<lparr>nodeCounts := AList.update a c (nodeCounts m)\<rparr>)"
  by (auto simp: publishable_def AList.dom_update)

lemma publishable_store_counts:
  "publishable m \<Longrightarrow> \<forall>(k, v)\<in>set kvs. valid_utf8 (trim_prefix k count_prefix) \<Longrightarrow>
     publishable (fst (store_counts kvs m))"
proof (induction kvs m rule: store_counts.induct)
  case (2 k v kvs m)
  then show ?case using publishable_counts [of m "trim_prefix k count_prefix"]
    by (auto simp: Let_def split: option.split)
qed simp

lemma publishable_watch:
  "publishable m \<Longrightarrow> \<forall>kvs\<in>set resps. \<forall>(k, v)\<in>set kvs. valid_utf8 (trim_prefix k count_prefix) \<Longrightarrow>
     publishable (fst (watchNodeCount resps m))"
proof (induction resps arbitrary: m)
  case (Cons kvs resps)
  then show ?case using publishable_store_counts [of m kvs] by (auto simp: case_prod_beta)
qed simp

lemma publishable_step:
  assumes "publishable m" "ring_step m x = Some m'" "\<forall>a\<in>op_texts x. valid_utf8 a" "op_positions x"
  shows "publishable m'"
proof -
  have same: "publishable m'" if "same_ring m m'" "nodeCounts m' = nodeCounts m"
    using assms(1) that by (simp add: publishable_def same_ring_def)
  show ?thesis
  proof (cases x)
    case (Ring_Add a)
    then show ?thesis using assms publishable_addNode by (auto simp: Map_Add_def)
  next
    case (Ring_Remove a)
    then show ?thesis using assms publishable_removeNoLock by (auto simp: Map_Remove_def split: if_splits)
  next
    case (Ring_Get k)
    then show ?thesis using assms(2) Map_Get_same [of m k] by (intro same) (auto simp: Map_Get_def Let_def)
  next
    case Ring_Report
    then show ?thesis using assms(2) by (intro same) (auto simp: report_tick_def same_ring_def)
  next
    case (Ring_Rebalance visits)
    then show ?thesis using assms(1,2) publishable_rebalance by auto
  next
    case (Ring_Resize a seen avg val)
    then show ?thesis using assms publishable_addNode publishable_removeNoLock
      by (auto simp: resize_section_def rebalanceReplicas_def case_prod_beta split: if_splits)
  next
    case (Ring_Install ks hm)
    then show ?thesis using assms by (auto simp: install_ring_def publishable_def)
  next
    case (Ring_Fetch resp)
    then show ?thesis using assms publishable_store_counts
      by (cases resp) (auto simp: fetchAllNodeCount_def case_prod_beta)
  next
    case (Ring_Watch resps)
    then show ?thesis using assms publishable_watch [of m resps] by (auto simp: case_prod_beta)
  qed
qed

lemma publishable_run:
  "publishable m \<Longrightarrow> ring_run m xs = Some m' \<Longrightarrow> \<forall>x\<in>set xs. op_positions x \<and> (\<forall>a\<in>op_texts x. valid_utf8 a) \<Longrightarrow>
    publishable m'"
  by (induction xs arbitrary: m) (auto split: option.splits dest: publishable_step)

lemma publishable_new: "publishable (NewConsistentHash self (map (\<lambda>cfg m. m\<lparr>config := cfg\<rparr>) cfgs))"
proof -
  have cfg: "publishable (m\<lparr>config := cfg\<rparr>) = publishable m" for m cfg by (simp add: publishable_def)
  have opts: "publishable m \<Longrightarrow> publishable (foldl (\<lambda>m opt. opt m) m (map (\<lambda>cfg m. m\<lparr>config := cfg\<rparr>) cfgs))" for m
    by (induction cfgs arbitrary: m) (simp_all add: cfg)
  show ?thesis unfolding NewConsistentHash_def by (rule opts) (simp add: publishable_def)
qed

subsection \<open>A leader and its followers\<close>

lemma rebalance_config:
  "ring_inv m \<Longrightarrow> checkAndRebalance visits m = Some (m', b) \<Longrightarrow> ring_inv m' \<and> config m' = config m"
  using check_nodes_inv [of m "average m" visits] by (auto simp: checkAndRebalance_cases split: if_splits)

lemma leader_loop_publishes:
  assumes "ring_inv m" "publishable m" "CheckAndRebalanceAndSyncHashRing evs m = Some (m', out)"
    and "\<forall>visits. Tick visits False \<notin> set evs"
  shows "config m' = config m \<and>
    (if out = [] then m' = m else fold ring_event out s = install_ring (ring_snapshot m') s)"
  using assms
proof (induction evs m arbitrary: out s rule: CheckAndRebalanceAndSyncHashRing.induct)
  case (3 visits put_ok evs m)
  obtain m1 b outs where step: "checkAndRebalance visits m = Some (m1, b)"
    "CheckAndRebalanceAndSyncHashRing evs m1 = Some (m', outs)"
    "out = (if b then [(ring_key, Marshal (ring_snapshot m1))] else []) @ outs"
    using "3.prems"(3,4) by (cases put_ok) (auto simp: syncHashRing_def Let_def split: Option.bind_splits prod.splits)
  note inv = rebalance_config [OF "3.prems"(1) step(1)] publishable_rebalance [OF "3.prems"(2) step(1)]
  have IH: "config m' = config m1 \<and>
      (if outs = [] then m' = m1 else fold ring_event outs s = install_ring (ring_snapshot m') s)" for s
    using "3.IH" [OF step(1) refl refl _ _ step(2)] inv "3.prems"(4) by simp
  show ?case
  proof (cases b)
    case False
    then have "m1 = m" "out = outs" using step(1,3) rebalance_unflagged by simp_all
    then show ?thesis using IH [of s] by simp
  next
    case True
    then have "fold ring_event out s = fold ring_event outs (install_ring (ring_snapshot m1) s)"
      using step(3) inv by (simp add: ring_event_Marshal)
    moreover have "out \<noteq> []" using True step(3) by simp
    moreover note IH [of "install_ring (ring_snapshot m1) s"]
    ultimately show ?thesis using inv by (cases "outs = []") (simp_all add: install_again)
  qed
qed simp_all

subsection \<open>Properties\<close>

lemma small_ring_publishable: "publishable small_ring"
proof -
  have "valid_utf8 ''a''" "valid_utf8 ''b''" by (rule valid_utf8_ascii; simp)+
  moreover have "ring_run empty_ring [Ring_Add ''a'', Ring_Add ''b''] = Some small_ring"
    by (simp add: small_ring_def)
  moreover have "publishable empty_ring"
    using publishable_new [of "''a''" "[small_config]"] by (simp add: empty_ring_def)
  ultimately show ?thesis
    using publishable_run [of empty_ring "[Ring_Add ''a'', Ring_Add ''b'']" small_ring] by simp
qed

lemma loaded_ring_publishable: "publishable loaded_ring"
proof -
  have "valid_utf8 ''a''" "valid_utf8 ''b''" by (rule valid_utf8_ascii; simp)+
  then show ?thesis using small_ring_publishable by (simp add: loaded_ring_def publishable_def)
qed

text \<open>
  C10. Round trip of a ring snapshot: what the leader encodes as JSON, the follower decodes to the
  same ring, for every ring whose positions are Go integers and whose addresses are UTF-8 (quotes,
  control characters and the characters that \<open>Marshal\<close> escapes included), nil slice and map included.
\<close>
theorem snapshot_roundtrip:
  assumes "ring_typed r"
  shows "Unmarshal (Marshal r) = Some r"
  by (rule Unmarshal_Marshal [OF assms])

theorem snapshot_roundtrip_witness:
  "\<exists>r. Unmarshal (Marshal r) = Some r \<and> Keys r = Some [3, 10] \<and>
     HashMap r = Some [3 \<mapsto> ''10.0.0.1:80'', 10 \<mapsto> ''<b>'']"
proof -
  let ?r = "\<lparr>Keys = Some [3, 10], HashMap = Some [3 \<mapsto> ''10.0.0.1:80'', 10 \<mapsto> ''<b>'']\<rparr>"
  have "valid_utf8 ''10.0.0.1:80''" "valid_utf8 ''<b>''" by (rule valid_utf8_ascii; simp)+
  then have "ring_typed ?r" by (simp add: ring_typed_def int64_set_def)
  from snapshot_roundtrip [OF this] show ?thesis by force
qed

lemma map_filter_in: "y \<in> set (List.map_filter f xs) \<Longrightarrow> \<exists>x\<in>set xs. f x = Some y"
  by (auto simp: List.map_filter_def)

text \<open>
  C26. What a follower holds after any batches of events: the ring of the last event that decodes, and
  nothing of the earlier ones. Events that do not decode (deletions, truncated or foreign values, numbers
  out of range) change nothing at all; if none decodes, the state is as before. Replica counts, load
  counts, configuration, load and address are never touched, a null or absent member is installed as an
  empty slice or a nil map, and every position and address of an installed ring is in the range of the Go
  types, well-formed UTF-8 included.
\<close>
theorem follower_installs_last_snapshot:
  assumes "updateHashRing resps (m, is_nil) = (m', is_nil')" "snaps = List.map_filter (Unmarshal \<circ> snd) (concat resps)"
  shows "if snaps = [] then m' = m \<and> is_nil' = is_nil
    else m' = m\<lparr>keys := (case Keys (last snaps) of None \<Rightarrow> [] | Some ks \<Rightarrow> ks),
                 hashMap := (case HashMap (last snaps) of None \<Rightarrow> Map.empty | Some hm \<Rightarrow> hm)\<rparr> \<and>
      (is_nil' \<longleftrightarrow> HashMap (last snaps) = None) \<and> ring_typed (last snaps)"
proof (cases "snaps = []")
  case True
  then show ?thesis using assms by (simp add: updateHashRing_concat fold_ring_event)
next
  case False
  then obtain rs where rs: "rev snaps = last snaps # rs" by (metis append_butlast_last_id rev_eq_Cons_iff rev_rev_ident)
  then have "(m', is_nil') = install_ring (last snaps) (m, is_nil)"
    using assms(1) unfolding updateHashRing_concat fold_ring_event assms(2) [symmetric] rs by simp
  moreover have "ring_typed (last snaps)"
    using map_filter_in [of "last snaps" "Unmarshal \<circ> snd" "concat resps"] last_in_set [OF False] assms(2) Unmarshal_typed by auto
  ultimately show ?thesis using False by (simp add: install_ring_def)
qed

theorem follower_installs_last_snapshot_witness:
  "\<exists>m'. updateHashRing [[(ring_key, ''null''), (ring_key, Marshal (ring_snapshot small_ring))], [(ring_key, ''{]'')]] (empty_ring, False) =
      (m', False) \<and> keys m' = keys small_ring \<and> hashMap m' = hashMap small_ring \<and> nodeReplicas m' = Map.empty"
proof -
  let ?resps = "[[(ring_key, ''null''), (ring_key, Marshal (ring_snapshot small_ring))], [(ring_key, ''{]'')]]"
  have u: "Unmarshal (Marshal (ring_snapshot small_ring)) = Some (ring_snapshot small_ring)"
    by (simp add: Unmarshal_Marshal publishable_typed small_ring_publishable)
  have "parse_json ''null'' = Some JNull" "parse_json ''{]'' = None" by code_simp+
  then have s: "List.map_filter (Unmarshal \<circ> snd) (concat ?resps) = [zero_ring, ring_snapshot small_ring]"
    by (simp add: map_filter_simps u Unmarshal_def [of "''null''"] Unmarshal_def [of "''{]''"])
  obtain m' n where m': "updateHashRing ?resps (empty_ring, False) = (m', n)" by fastforce
  have "nodeReplicas empty_ring = Map.empty" by (simp add: empty_ring_def NewConsistentHash_def)
  then show ?thesis using follower_installs_last_snapshot [OF m' s [symmetric]] m' by (simp add: ring_snapshot_def)
qed

text \<open>
  C9. Leader and followers agree: a leader with a well-formed ring runs any number of rounds of its
  loop, every write to etcd succeeds and at least one happens. A follower with the same hash function
  that receives these writes, in batches of any size, routes every key as the leader does, whatever
  ring it held before.
\<close>
theorem follower_routes_like_leader:
  assumes "ring_inv m" "publishable m" "CheckAndRebalanceAndSyncHashRing evs m = Some (m', out)"
    and "\<forall>visits. Tick visits False \<notin> set evs" "out \<noteq> []" "concat resps = out"
    and "HashFunc (config f) = HashFunc (config m)"
  shows "same_routes (fst (updateHashRing resps (f, is_nil))) m'"
  using leader_loop_publishes [OF assms(1-4), of "(f, is_nil)"] assms(5-7)
  by (simp add: updateHashRing_concat installed_routes)

theorem follower_routes_like_leader_witness:
  "\<exists>m' out. CheckAndRebalanceAndSyncHashRing [Tick [''b'', ''a''] True] loaded_ring = Some (m', out) \<and>
     same_routes (fst (updateHashRing [out] (empty_ring, True))) m'"
proof -
  have "map_option snd (checkAndRebalance [''b'', ''a''] loaded_ring) = Some True" by code_simp
  then obtain m' where m': "checkAndRebalance [''b'', ''a''] loaded_ring = Some (m', True)" by auto
  let ?out = "[(ring_key, Marshal (ring_snapshot m'))]"
  have run: "CheckAndRebalanceAndSyncHashRing [Tick [''b'', ''a''] True] loaded_ring = Some (m', ?out)"
    by (simp add: m' syncHashRing_def)
  have h: "HashFunc (config empty_ring) = HashFunc (config loaded_ring)"
    by (simp add: loaded_ring_def small_ring_def Map_Add_cases empty_ring_def NewConsistentHash_def)
  show ?thesis
    using run follower_routes_like_leader [OF loaded_ring_inv loaded_ring_publishable run _ _ _ h, of "[?out]" True]
    by auto
qed

text \<open>
  A snapshot without a map, for example the text null, an empty object or a null member, is
  installed as a nil map: the next node that joins makes the follower panic on the write.
\<close>
lemma null_snapshot_makes_Add_panic:
  assumes "Unmarshal val = Some r" "HashMap r = None"
    and "nodeReplicas m addr = None" "0 < DefaultReplicas (config m)"
  shows "Add_at addr (updateHashRing (resps @ [[(k, val)]]) (m, is_nil)) = None"
proof -
  have "nodeReplicas (fst (fold ring_event kvs s)) = nodeReplicas (fst s)"
    "config (fst (fold ring_event kvs s)) = config (fst s)" for kvs s
    by (induction kvs arbitrary: s) (auto simp: ring_event_def install_ring_def split: option.split)
  then show ?thesis
    using assms by (simp add: updateHashRing_concat ring_event_def install_ring_def Add_at_def)
qed

lemma null_snapshot_makes_Add_panic_witness:
  "Add_at ''b'' (updateHashRing ([] @ [[(ring_key, ''null'')]]) (NewConsistentHash ''a'' [], False)) = None"
proof (rule null_snapshot_makes_Add_panic)
  have "parse_json ''null'' = Some JNull" by code_simp
  then show "Unmarshal ''null'' = Some zero_ring" by (simp add: Unmarshal_def)
qed (simp_all add: zero_ring_def NewConsistentHash_def DefaultConfig_def)

end
