(* ===== verification/Election.thy ===== *)
theory Election
  imports Main
begin

text \<open>
  The leader election loop \<open>RunElection\<close> of \<open>internal/consistenthash/con_hash.go\<close>. The etcd session,
  the election and the contexts are outside of the program: what they report is an input, one per
  blocking point of the loop. The state is where the loop stands, whether the tasks of a leader
  (\<open>updateNodeCount\<close>, \<open>CheckAndRebalanceAndSyncHashRing\<close>) and the ring watch of a follower
  (\<open>updateHashRing\<close>) have a live context, and counters of what the loop has asked etcd for.

  The \<open>break\<close> in the follower's \<open>select\<close> leaves the \<open>select\<close> only: after the observation channel is
  closed the inner loop goes on, and every further receive reports the closed channel again.
\<close>

datatype el_phase = Electing | Campaigning | Leading | Following | Stopped | Panicked

record election =
  phase :: el_phase
  leader_live :: bool
  watch_live :: bool
  sessions :: nat
  campaigns :: nat
  leaders_seen :: "string list"

datatype el_input =
    Session_Ok | Session_Err
  | Campaign_Won | Campaign_Lost
  | Leader_Ctx_Done
  | Observed "string list"
  | Channel_Closed
  | Ctx_Done

definition election_start :: election where
  "election_start =
     \<lparr>phase = Electing, leader_live = False, watch_live = False, sessions = 0, campaigns = 0, leaders_seen = []\<rparr>"

text \<open>\<open>None\<close>: the loop does not wait for this input where it stands. A response without a key panics
  on \<open>resp.Kvs[0]\<close>.\<close>

fun el_step :: "election \<Rightarrow> el_input \<Rightarrow> election option" where
  "el_step s x =
     (case (phase s, x) of
        (Electing, Session_Err) \<Rightarrow> Some (s\<lparr>phase := Stopped\<rparr>)
      | (Electing, Session_Ok) \<Rightarrow> Some (s\<lparr>sessions := sessions s + 1, phase := Campaigning\<rparr>)
      | (Campaigning, Campaign_Won) \<Rightarrow>
          Some (s\<lparr>campaigns := campaigns s + 1, leader_live := True, phase := Leading\<rparr>)
      | (Leading, Leader_Ctx_Done) \<Rightarrow> Some (s\<lparr>leader_live := False, phase := Electing\<rparr>)
      | (Campaigning, Campaign_Lost) \<Rightarrow>
          Some (s\<lparr>campaigns := campaigns s + 1, watch_live := True, phase := Following\<rparr>)
      | (Following, Ctx_Done) \<Rightarrow> Some (s\<lparr>watch_live := False, phase := Stopped\<rparr>)
      | (Following, Channel_Closed) \<Rightarrow> Some (s\<lparr>watch_live := False\<rparr>)
      | (Following, Observed kvs) \<Rightarrow>
          (case kvs of [] \<Rightarrow> Some (s\<lparr>phase := Panicked\<rparr>)
           | v # _ \<Rightarrow> Some (s\<lparr>leaders_seen := leaders_seen s @ [v]\<rparr>))
      | _ \<Rightarrow> None)"

fun el_run :: "election \<Rightarrow> el_input list \<Rightarrow> election option" where
  "el_run s [] = Some s"
| "el_run s (x # xs) = (case el_step s x of Some s' \<Rightarrow> el_run s' xs | None \<Rightarrow> None)"

definition el_inv :: "election \<Rightarrow> bool" where
  "el_inv s \<longleftrightarrow> (leader_live s \<longleftrightarrow> phase s = Leading) \<and>
     (watch_live s \<longrightarrow> phase s = Following \<or> phase s = Panicked) \<and> campaigns s \<le> sessions s \<and>
     (phase s = Campaigning \<longrightarrow> campaigns s < sessions s)"

lemma el_step_inv: "el_inv s \<Longrightarrow> el_step s x = Some s' \<Longrightarrow> el_inv s'"
  by (auto simp: el_inv_def split: el_phase.splits el_input.splits list.splits)

lemma el_run_inv: "el_inv s \<Longrightarrow> el_run s xs = Some s' \<Longrightarrow> el_inv s'"
  by (induction xs arbitrary: s) (auto simp del: el_step.simps split: option.splits dest: el_step_inv)

lemma el_step_following:
  assumes "phase s = Following" "el_step s x = Some s'"
  shows "phase s' \<in> {Following, Stopped, Panicked}" "campaigns s' = campaigns s" "sessions s' = sessions s"
    "leader_live s' = leader_live s" "watch_live s' \<longrightarrow> watch_live s \<and> x \<noteq> Channel_Closed"
  using assms by (auto split: el_input.splits list.splits)

lemma el_step_ended: "phase s \<in> {Stopped, Panicked} \<Longrightarrow> el_step s x = None"
  by (auto split: el_input.splits)

lemma el_run_following:
  "phase s = Following \<Longrightarrow> el_run s xs = Some s' \<Longrightarrow>
    phase s' \<in> {Following, Stopped, Panicked} \<and> campaigns s' = campaigns s \<and>
    (watch_live s' \<longrightarrow> watch_live s \<and> Channel_Closed \<notin> set xs)"
proof (induction xs arbitrary: s)
  case (Cons x xs)
  obtain s1 where S: "el_step s x = Some s1" "el_run s1 xs = Some s'"
    using Cons.prems(2) by (auto simp del: el_step.simps split: option.splits)
  note F = el_step_following [OF Cons.prems(1) S(1)]
  show ?case
  proof (cases "phase s1 = Following")
    case True
    then show ?thesis using Cons.IH [OF True S(2)] F by auto
  next
    case False
    then have "xs = []" using F(1) S(2) el_step_ended by (cases xs) (auto simp del: el_step.simps)
    then show ?thesis using S(2) F by auto
  qed
qed simp

text \<open>
  The tasks of a leader run exactly while the node leads, and the ring watch only while it
  follows (or after the panic that ends the process): in every execution of the loop, and each
  campaign has a session of its own.
\<close>
lemma leader_tasks_only_while_leading:
  assumes "el_run election_start xs = Some s"
  shows "(leader_live s \<longleftrightarrow> phase s = Leading) \<and>
    (watch_live s \<longrightarrow> phase s = Following \<or> phase s = Panicked) \<and> campaigns s \<le> sessions s"
proof -
  have "el_inv election_start" by (simp add: el_inv_def election_start_def)
  from el_run_inv [OF this assms] show ?thesis by (simp add: el_inv_def)
qed

lemma leader_tasks_only_while_leading_witness:
  "\<exists>s. el_run election_start [Session_Ok, Campaign_Won, Leader_Ctx_Done] = Some s \<and>
    (leader_live s \<longleftrightarrow> phase s = Leading) \<and> campaigns s \<le> sessions s"
proof -
  obtain s where "el_run election_start [Session_Ok, Campaign_Won, Leader_Ctx_Done] = Some s"
    by (simp add: election_start_def)
  with leader_tasks_only_while_leading [OF this] show ?thesis by blast
qed

text \<open>
  C40. A follower never campaigns again: once the loop follows, no input makes it campaign or lead,
  and once the observation channel has been closed it does not even follow the published ring any
  more, until the process ends.
\<close>
theorem follower_never_campaigns_again:
  assumes "phase s = Following" "el_run s xs = Some s'"
  shows "phase s' \<in> {Following, Stopped, Panicked} \<and> campaigns s' = campaigns s \<and>
    (Channel_Closed \<in> set xs \<longrightarrow> \<not> watch_live s')"
  using el_run_following [OF assms] by blast

theorem follower_never_campaigns_again_witness:
  "\<exists>s s'. el_run election_start [Session_Ok, Campaign_Lost] = Some s \<and>
    el_run s [Observed [''b''], Channel_Closed, Channel_Closed] = Some s' \<and>
    campaigns s' = campaigns s \<and> \<not> watch_live s'"
proof -
  obtain s where s: "el_run election_start [Session_Ok, Campaign_Lost] = Some s" "phase s = Following"
    by (simp add: election_start_def)
  then obtain s' where "el_run s [Observed [''b''], Channel_Closed, Channel_Closed] = Some s'" by simp
  with follower_never_campaigns_again [OF s(2) this] s(1) show ?thesis by auto
qed

end
