(* ===== verification/Lru_Cache.thy ===== *)
theory Lru_Cache
  imports Store_Api "HOL-Library.AList"
begin

text \<open>
  The list-based cache of \<open>pkg/store/lru.go\<close>: \<open>LruCache\<close> with its constructor and operations.

  Elements of \<open>container/list\<close> are pointers, and \<open>Get\<close> keeps one across critical sections, so they
  have an identity here: an element is an index into the arena \<open>elems\<close> of all entries ever pushed,
  \<open>lst\<close> is the list of elements from front to back and \<open>items\<close> maps a key to its element. A removed
  element stays readable, as in Go. Removing or moving an element that is not in the list does
  nothing. Values are not nil; \<open>vlen\<close> is their \<open>Len\<close>. Times are nanoseconds. Operations return
  the calls of \<open>onEvicted\<close> they make.
\<close>

subsection \<open>State\<close>

record 'v lru_entry =
  le_key :: string
  le_value :: 'v

record 'v LruCache =
  lst :: "nat list"
  elems :: "'v lru_entry list"
  items :: "string \<rightharpoonup> nat"
  expires :: "(string \<times> int) list"
  maxBytes :: int
  usedBytes :: int
  has_onEvicted :: bool
  cleanupInterval :: int
  closed :: bool

definition newLRUCache :: "options \<Rightarrow> 'v LruCache" where
  "newLRUCache opts =
     \<lparr>lst = [], elems = [], items = Map.empty, expires = [], maxBytes = MaxBytes opts, usedBytes = 0,
      has_onEvicted = OnEvicted opts,
      cleanupInterval = (if CleanupInterval opts \<le> 0 then 1 * minute else CleanupInterval opts),
      closed = False\<rparr>"

definition entry :: "'v LruCache \<Rightarrow> nat \<Rightarrow> 'v lru_entry" where
  "entry c e = elems c ! e"

subsection \<open>The doubly linked list\<close>

definition list_Remove :: "nat \<Rightarrow> nat list \<Rightarrow> nat list" where
  "list_Remove e l = remove1 e l"

definition MoveToFront :: "nat \<Rightarrow> nat list \<Rightarrow> nat list" where
  "MoveToFront e l = (if e \<in> set l then e # remove1 e l else l)"

text \<open>\<open>PushFront\<close> of a new entry: it gets the next free element.\<close>

definition PushFront :: "'v lru_entry \<Rightarrow> 'v LruCache \<Rightarrow> 'v LruCache \<times> nat" where
  "PushFront x c =
     (let e = length (elems c) in (c\<lparr>elems := elems c @ [x], lst := e # lst c\<rparr>, e))"

subsection \<open>Removal and eviction\<close>

definition entry_size :: "('v \<Rightarrow> int) \<Rightarrow> 'v lru_entry \<Rightarrow> int" where
  "entry_size vlen x = int (length (le_key x)) + vlen (le_value x)"

definition removeElement :: "('v \<Rightarrow> int) \<Rightarrow> nat \<Rightarrow> 'v LruCache \<Rightarrow> 'v LruCache \<times> (string \<times> 'v) list" where
  "removeElement vlen elem c =
     (let c = c\<lparr>lst := list_Remove elem (lst c)\<rparr>;
          e = entry c elem;
          c = c\<lparr>items := (items c)(le_key e := None), expires := AList.delete (le_key e) (expires c),
                usedBytes := int64 (usedBytes c - int64 (entry_size vlen e))\<rparr>
      in (c, if has_onEvicted c then [(le_key e, le_value e)] else []))"

lemma lst_removeElement [simp]: "lst (fst (removeElement vlen e c)) = remove1 e (lst c)"
  by (simp add: removeElement_def list_Remove_def Let_def)

function evict_loop :: "('v \<Rightarrow> int) \<Rightarrow> 'v LruCache \<Rightarrow> 'v LruCache \<times> (string \<times> 'v) list" where
  "evict_loop vlen c =
     (if usedBytes c > maxBytes c \<and> length (lst c) > 0 then
        let elem = last (lst c);
            e = entry c elem;
            c = c\<lparr>usedBytes := int64 (usedBytes c - int64 (entry_size vlen e))\<rparr>;
            r = removeElement vlen elem c;
            r' = evict_loop vlen (fst r)
        in (fst r', snd r @ snd r')
      else (c, []))"
  by pat_completeness auto
termination
proof (relation "measure (\<lambda>(vlen, c). length (lst c))", goal_cases)
  case (2 vlen c elem e c' r)
  then have "last (lst c) \<in> set (lst c)" "lst (fst r) = remove1 (last (lst c)) (lst c)" by auto
  then show ?case using 2 by (simp add: length_remove1)
qed simp

declare evict_loop.simps [simp del]

definition evict :: "('v \<Rightarrow> int) \<Rightarrow> 'v LruCache \<Rightarrow> 'v LruCache \<times> (string \<times> 'v) list" where
  "evict vlen c = (if maxBytes c > 0 then evict_loop vlen c else (c, []))"

subsection \<open>Set, Get, Delete\<close>

text \<open>The common tail of both \<open>Set\<close> operations for a key that is not there.\<close>

definition insert_new :: "('v \<Rightarrow> int) \<Rightarrow> string \<Rightarrow> 'v \<Rightarrow> 'v LruCache \<Rightarrow> 'v LruCache \<times> (string \<times> 'v) list" where
  "insert_new vlen key val c =
     (let newEntry = \<lparr>le_key = key, le_value = val\<rparr>;
          (c, elem) = PushFront newEntry c;
          c = c\<lparr>items := (items c)(key \<mapsto> elem)\<rparr>;
          c = c\<lparr>usedBytes := int64 (usedBytes c + int64 (int (length key) + vlen val))\<rparr>
      in evict vlen c)"

definition Lru_SetWithExpiration ::
  "('v \<Rightarrow> int) \<Rightarrow> string \<Rightarrow> 'v \<Rightarrow> int \<Rightarrow> int \<Rightarrow> 'v LruCache \<Rightarrow> 'v LruCache \<times> (string \<times> 'v) list"
where
  "Lru_SetWithExpiration vlen key val expiration now c =
     (let c = (if expiration > 0 then c\<lparr>expires := AList.update key (now + expiration) (expires c)\<rparr>
               else c\<lparr>expires := AList.delete key (expires c)\<rparr>)
      in case items c key of
        Some elem \<Rightarrow>
          let old = entry c elem;
              c = c\<lparr>usedBytes := int64 (usedBytes c + int64 (vlen val - vlen (le_value old)))\<rparr>;
              c = c\<lparr>elems := (elems c)[elem := old\<lparr>le_value := val\<rparr>]\<rparr>;
              c = c\<lparr>lst := MoveToFront elem (lst c)\<rparr>
          in evict vlen c
      | None \<Rightarrow> insert_new vlen key val c)"

definition Lru_Set :: "('v \<Rightarrow> int) \<Rightarrow> string \<Rightarrow> 'v \<Rightarrow> 'v LruCache \<Rightarrow> 'v LruCache \<times> (string \<times> 'v) list" where
  "Lru_Set vlen key val c =
     (case items c key of
        Some elem \<Rightarrow>
          let old = entry c elem;
              c = c\<lparr>usedBytes := int64 (usedBytes c - int64 (int (length key) + vlen (le_value old)))\<rparr>;
              c = c\<lparr>usedBytes := int64 (usedBytes c + int64 (int (length key) + vlen val))\<rparr>;
              c = c\<lparr>elems := (elems c)[elem := old\<lparr>le_value := val\<rparr>]\<rparr>;
              c = c\<lparr>lst := MoveToFront elem (lst c)\<rparr>
          in evict vlen c
      | None \<Rightarrow> insert_new vlen key val c)"

definition Lru_Delete :: "('v \<Rightarrow> int) \<Rightarrow> string \<Rightarrow> 'v LruCache \<Rightarrow> ('v LruCache \<times> bool) \<times> (string \<times> 'v) list" where
  "Lru_Delete vlen key c =
     (case items c key of
        None \<Rightarrow> ((c, False), [])
      | Some elem \<Rightarrow> let r = removeElement vlen elem c in ((fst r, True), snd r))"

text \<open>\<open>Get\<close> is three critical sections and a final read: the lookup of the element, the lookup of
  the expiry, the move to the front (or \<open>Delete\<close>), and the read of the element's value. The state
  may change in between.\<close>

definition get_lookup :: "string \<Rightarrow> 'v LruCache \<Rightarrow> nat option" where
  "get_lookup key c = items c key"

definition get_expired :: "string \<Rightarrow> int \<Rightarrow> 'v LruCache \<Rightarrow> bool" where
  "get_expired key now c = (case map_of (expires c) key of Some expTime \<Rightarrow> now > expTime | None \<Rightarrow> False)"

definition get_touch :: "string \<Rightarrow> nat \<Rightarrow> 'v LruCache \<Rightarrow> 'v LruCache" where
  "get_touch key elem c = (if items c key \<noteq> None then c\<lparr>lst := MoveToFront elem (lst c)\<rparr> else c)"

definition get_value :: "nat \<Rightarrow> 'v LruCache \<Rightarrow> 'v" where
  "get_value elem c = le_value (entry c elem)"

text \<open>Without interference:\<close>

definition Lru_Get ::
  "('v \<Rightarrow> int) \<Rightarrow> string \<Rightarrow> int \<Rightarrow> 'v LruCache \<Rightarrow> ('v LruCache \<times> 'v option) \<times> (string \<times> 'v) list"
where
  "Lru_Get vlen key now c =
     (case get_lookup key c of
        None \<Rightarrow> ((c, None), [])
      | Some elem \<Rightarrow>
          if get_expired key now c then
            let ((c, ok), evs) = Lru_Delete vlen key c in ((c, None), evs)
          else let c = get_touch key elem c in ((c, Some (get_value elem c)), []))"

subsection \<open>Cleanup, Len, Clear, Close\<close>

text \<open>\<open>visits\<close> are the keys that the \<open>range\<close> over \<open>expires\<close> produces; the body only deletes the
  entry at hand.\<close>

fun cleanupExpired ::
  "('v \<Rightarrow> int) \<Rightarrow> int \<Rightarrow> string list \<Rightarrow> 'v LruCache \<Rightarrow> 'v LruCache \<times> (string \<times> 'v) list"
where
  "cleanupExpired vlen now [] c = (c, [])"
| "cleanupExpired vlen now (key # visits) c =
     (let r = (if get_expired key now c
               then (case items c key of Some elem \<Rightarrow> removeElement vlen elem c | None \<Rightarrow> (c, []))
               else (c, []));
          r' = cleanupExpired vlen now visits (fst r)
      in (fst r', snd r @ snd r'))"

text \<open>\<open>cleanupLoop\<close>, one event per round: a tick, with the clock and the order of the \<open>range\<close>, or the closed
  channel, which ends the loop. The flag says that the goroutine has returned.\<close>

datatype cleanup_event = Cleanup_tick int "string list" | Close_signal

fun cleanupLoop ::
  "('v \<Rightarrow> int) \<Rightarrow> cleanup_event list \<Rightarrow> 'v LruCache \<Rightarrow> ('v LruCache \<times> (string \<times> 'v) list) \<times> bool"
where
  "cleanupLoop vlen [] c = ((c, []), False)"
| "cleanupLoop vlen (Cleanup_tick now visits # evs) c =
     (let r = cleanupExpired vlen now visits c;
          (r', fin) = cleanupLoop vlen evs (fst r)
      in ((fst r', snd r @ snd r'), fin))"
| "cleanupLoop vlen (Close_signal # evs) c = ((c, []), True)"

definition Lru_Len :: "'v LruCache \<Rightarrow> int" where
  "Lru_Len c = int (length (lst c))"

definition Lru_Clear :: "'v LruCache \<Rightarrow> 'v LruCache" where
  "Lru_Clear c = c\<lparr>lst := [], items := Map.empty, expires := [], usedBytes := 0\<rparr>"

text \<open>Closing a closed channel panics.\<close>

definition Lru_Close :: "'v LruCache \<Rightarrow> 'v LruCache option" where
  "Lru_Close c = (if closed c then None else Some (c\<lparr>closed := True\<rparr>))"

end
