(* ===== verification/Lru_Cache_Refine.thy ===== *)
theory Lru_Cache_Refine
  imports Lru_Cache
begin

text \<open>
  The list-based cache as an association list from most to least recently used (\<open>contents\<close>): the
  invariant that ties list, map and arena together, and what removal, eviction, \<open>Set\<close> and \<open>Get\<close> do
  to the contents.
\<close>

subsection \<open>Invariant and abstraction\<close>

definition key_at :: "'v LruCache \<Rightarrow> nat \<Rightarrow> string" where
  "key_at c e = le_key (entry c e)"

definition contents :: "'v LruCache \<Rightarrow> (string \<times> 'v) list" where
  "contents c = map (\<lambda>e. (le_key (entry c e), le_value (entry c e))) (lst c)"

definition lru_inv :: "'v LruCache \<Rightarrow> bool" where
  "lru_inv c \<longleftrightarrow> distinct (lst c) \<and> (\<forall>e\<in>set (lst c). e < length (elems c)) \<and>
     (\<forall>k e. items c k = Some e \<longleftrightarrow> e \<in> set (lst c) \<and> key_at c e = k)"

lemma lru_invD:
  assumes "lru_inv c"
  shows "distinct (lst c)" "e \<in> set (lst c) \<Longrightarrow> e < length (elems c)"
    "items c k = Some e \<longleftrightarrow> e \<in> set (lst c) \<and> key_at c e = k"
  using assms unfolding lru_inv_def by blast+

lemma key_at_inj: "lru_inv c \<Longrightarrow> inj_on (key_at c) (set (lst c))"
  by (rule inj_onI) (metis lru_invD(3) option.inject)

lemma contents_keys: "map fst (contents c) = map (key_at c) (lst c)"
  by (simp add: contents_def key_at_def)

lemma contents_distinct: "lru_inv c \<Longrightarrow> distinct (map fst (contents c))"
  unfolding contents_keys by (simp add: distinct_map lru_invD(1) key_at_inj)

lemma contents_lookup:
  assumes "lru_inv c"
  shows "map_of (contents c) k = map_option (\<lambda>e. le_value (entry c e)) (items c k)"
proof (cases "items c k")
  case None
  then have "key_at c e \<noteq> k" if "e \<in> set (lst c)" for e
    using lru_invD(3) [OF assms, of k e] that by simp
  then have "k \<notin> fst ` set (contents c)" by (fastforce simp: contents_def key_at_def)
  then show ?thesis using None by (simp add: map_of_eq_None_iff)
next
  case (Some e)
  then have "e \<in> set (lst c)" "key_at c e = k" using lru_invD(3) [OF assms] by blast+
  then have "(k, le_value (entry c e)) \<in> set (contents c)" by (auto simp: contents_def key_at_def)
  then show ?thesis using Some map_of_is_SomeI [OF contents_distinct [OF assms]] by simp
qed

lemma contents_delete:
  assumes "lru_inv c" "e \<in> set (lst c)"
  shows "map (\<lambda>e. (le_key (entry c e), le_value (entry c e))) (remove1 e (lst c)) =
    AList.delete (key_at c e) (contents c)"
proof -
  have "remove1 e (lst c) = filter (\<lambda>x. x \<noteq> e) (lst c)"
    using lru_invD(1) [OF assms(1)]
    by (simp add: distinct_remove1_removeAll removeAll_filter_not_eq eq_commute [of e])
  also have "\<dots> = filter (\<lambda>x. key_at c e \<noteq> key_at c x) (lst c)"
    using key_at_inj [OF assms(1)] assms(2) by (intro filter_cong) (auto dest: inj_onD)
  finally show ?thesis
    by (simp add: AList.delete_eq contents_def filter_map comp_def key_at_def case_prod_beta)
qed

lemma new_inv: "lru_inv (newLRUCache opts)" "contents (newLRUCache opts) = []"
  by (simp_all add: newLRUCache_def lru_inv_def contents_def)

text \<open>Fields that do not matter for the invariant.\<close>

lemma lru_inv_cong:
  "lst c' = lst c \<Longrightarrow> elems c' = elems c \<Longrightarrow> items c' = items c \<Longrightarrow>
    lru_inv c' = lru_inv c \<and> contents c' = contents c"
  by (simp add: lru_inv_def contents_def key_at_def entry_def)

subsection \<open>Removal\<close>

lemma removeElement_fields [simp]:
  "elems (fst (removeElement vlen e c)) = elems c"
  "items (fst (removeElement vlen e c)) = (items c)(key_at c e := None)"
  "maxBytes (fst (removeElement vlen e c)) = maxBytes c"
  "usedBytes (fst (removeElement vlen e c)) = int64 (usedBytes c - int64 (entry_size vlen (entry c e)))"
  "has_onEvicted (fst (removeElement vlen e c)) = has_onEvicted c"
  "snd (removeElement vlen e c) =
     (if has_onEvicted c then [(key_at c e, le_value (entry c e))] else [])"
  "entry (fst (removeElement vlen e c)) = entry c"
  by (simp_all add: removeElement_def Let_def entry_def key_at_def fun_eq_iff)

lemma removeElement_inv:
  assumes "lru_inv c" "e \<in> set (lst c)"
  shows "lru_inv (fst (removeElement vlen e c))"
    "contents (fst (removeElement vlen e c)) = AList.delete (key_at c e) (contents c)"
proof -
  have k: "key_at (fst (removeElement vlen e c)) = key_at c" by (simp add: fun_eq_iff key_at_def)
  show "lru_inv (fst (removeElement vlen e c))"
    using lru_invD [OF assms(1)] assms(2) key_at_inj [OF assms(1)]
    by (auto simp: lru_inv_def k dest: inj_onD)
  show "contents (fst (removeElement vlen e c)) = AList.delete (key_at c e) (contents c)"
    using contents_delete [OF assms] by (simp add: contents_def)
qed

subsection \<open>Eviction\<close>

text \<open>\<open>evicts xs ys dropped\<close>: \<open>ys\<close> is what is left of \<open>xs\<close> when \<open>dropped\<close> is taken off its back, last
  entry first.\<close>

definition evicts :: "'a list \<Rightarrow> 'a list \<Rightarrow> 'a list \<Rightarrow> bool" where
  "evicts xs ys dropped \<longleftrightarrow> xs = ys @ rev dropped"

lemma delete_last:
  assumes "distinct (map fst (xs @ [(k, v)]))"
  shows "AList.delete k (xs @ [(k, v)]) = xs"
  using assms by (force simp: AList.delete_eq filter_id_conv)

lemma evict_loop_spec:
  assumes "lru_inv c"
  shows "lru_inv (fst (evict_loop vlen c)) \<and>
    (\<exists>dropped. evicts (contents c) (contents (fst (evict_loop vlen c))) dropped \<and>
      snd (evict_loop vlen c) = (if has_onEvicted c then dropped else []) \<and>
      (usedBytes c \<le> maxBytes c \<longrightarrow> dropped = [])) \<and>
    (usedBytes (fst (evict_loop vlen c)) \<le> maxBytes c \<or> contents (fst (evict_loop vlen c)) = [])"
  using assms
proof (induction vlen c rule: evict_loop.induct)
  case (1 vlen c)
  show ?case
  proof (cases "usedBytes c > maxBytes c \<and> length (lst c) > 0")
    case False
    then have "evict_loop vlen c = (c, [])" by (subst evict_loop.simps) (simp only: if_False)
    then show ?thesis using 1(2) False by (auto simp: evicts_def contents_def)
  next
    case True
    let ?e = "last (lst c)"
    let ?c = "c\<lparr>usedBytes := int64 (usedBytes c - int64 (entry_size vlen (entry c ?e)))\<rparr>"
    let ?r = "removeElement vlen ?e ?c" and ?x = "(key_at c ?e, le_value (entry c ?e))"
    have e: "?e \<in> set (lst c)" using True by auto
    have c: "lru_inv ?c" "contents ?c = contents c" using lru_inv_cong [of ?c c] 1(2) by simp_all
    have k: "key_at ?c ?e = key_at c ?e" "entry ?c ?e = entry c ?e" by (simp_all add: key_at_def entry_def)
    have e': "?e \<in> set (lst ?c)" using e by simp
    note R = removeElement_inv [OF c(1) e', of vlen, unfolded c(2) k]
    obtain ws where ws: "lst c = ws @ [?e]" using True by (metis append_butlast_last_id length_greater_0_conv)
    have last: "contents c = map (\<lambda>e. (le_key (entry c e), le_value (entry c e))) ws @ [?x]"
      unfolding contents_def by (subst ws) (simp add: key_at_def)
    have del: "AList.delete (key_at c ?e) (contents c) = map (\<lambda>e. (le_key (entry c e), le_value (entry c e))) ws"
      unfolding last by (rule delete_last) (use contents_distinct [OF 1(2)] in \<open>simp add: last\<close>)
    have step: "evict_loop vlen c =
        (fst (evict_loop vlen (fst ?r)), snd ?r @ snd (evict_loop vlen (fst ?r)))"
      using True by (subst evict_loop.simps) (simp add: Let_def)
    have IH: "lru_inv (fst (evict_loop vlen (fst ?r))) \<and>
        (\<exists>dropped. evicts (contents (fst ?r)) (contents (fst (evict_loop vlen (fst ?r)))) dropped \<and>
          snd (evict_loop vlen (fst ?r)) = (if has_onEvicted (fst ?r) then dropped else []) \<and>
          (usedBytes (fst ?r) \<le> maxBytes (fst ?r) \<longrightarrow> dropped = [])) \<and>
        (usedBytes (fst (evict_loop vlen (fst ?r))) \<le> maxBytes (fst ?r) \<or>
          contents (fst (evict_loop vlen (fst ?r))) = [])"
      by (rule 1(1) [OF True refl refl refl refl]) (rule R(1))
    then obtain d where d: "evicts (contents (fst ?r)) (contents (fst (evict_loop vlen (fst ?r)))) d"
      "snd (evict_loop vlen (fst ?r)) = (if has_onEvicted c then d else [])" by auto
    have "evicts (contents c) (contents (fst (evict_loop vlen (fst ?r)))) (?x # d)"
      using d(1) R(2) del last by (simp add: evicts_def)
    moreover have "snd ?r = (if has_onEvicted c then [?x] else [])" by (simp add: k)
    ultimately show ?thesis using IH d(2) True unfolding step
      by (intro conjI exI [of _ "?x # d"]) auto
  qed
qed

lemma evict_spec:
  assumes "lru_inv c"
  obtains dropped where "lru_inv (fst (evict vlen c))"
    "evicts (contents c) (contents (fst (evict vlen c))) dropped"
    "snd (evict vlen c) = (if has_onEvicted c then dropped else [])"
    "maxBytes c \<le> 0 \<or> usedBytes c \<le> maxBytes c \<longrightarrow> dropped = []"
    "0 < maxBytes c \<longrightarrow> usedBytes (fst (evict vlen c)) \<le> maxBytes c \<or> contents (fst (evict vlen c)) = []"
proof (cases "0 < maxBytes c")
  case True
  then have "evict vlen c = evict_loop vlen c" by (simp add: evict_def)
  then show thesis using evict_loop_spec [OF assms, of vlen] that True by auto
next
  case False
  then show thesis using that [of "[]"] assms by (simp add: evict_def evicts_def)
qed

subsection \<open>Set and Get\<close>

text \<open>Overwriting the entry of a known key and moving it to the front.\<close>

lemma overwrite_front:
  assumes inv: "lru_inv c" and it: "items c key = Some e"
    and c': "lst c' = MoveToFront e (lst c)" "elems c' = (elems c)[e := (entry c e)\<lparr>le_value := v\<rparr>]"
      "items c' = items c"
  shows "lru_inv c' \<and> contents c' = (key, v) # AList.delete key (contents c)"
proof -
  have e: "e \<in> set (lst c)" "key_at c e = key" using lru_invD(3) [OF inv] it by blast+
  have el: "e < length (elems c)" using lru_invD(2) [OF inv e(1)] .
  have l: "lst c' = e # remove1 e (lst c)" using c'(1) e(1) by (simp add: MoveToFront_def)
  have ent: "entry c' x = (if x = e then (entry c e)\<lparr>le_value := v\<rparr> else entry c x)" for x
    using el by (simp add: entry_def c'(2) nth_list_update)
  have k: "key_at c' = key_at c" by (simp add: fun_eq_iff key_at_def ent)
  have s: "set (lst c') = set (lst c)" using l e(1) lru_invD(1) [OF inv] by auto
  have "lru_inv c'"
    using lru_invD [OF inv] unfolding lru_inv_def k s c'(3) by (simp add: l c'(2))
  moreover have "contents c' = (key, v) # map (\<lambda>x. (le_key (entry c x), le_value (entry c x))) (remove1 e (lst c))"
    using e(2) lru_invD(1) [OF inv] by (auto simp: contents_def l ent key_at_def)
  ultimately show ?thesis using contents_delete [OF inv e(1)] e(2) by simp
qed

lemma insert_front:
  assumes inv: "lru_inv c" and it: "items c key = None"
    and c': "lst c' = length (elems c) # lst c" "elems c' = elems c @ [\<lparr>le_key = key, le_value = v\<rparr>]"
      "items c' = (items c)(key \<mapsto> length (elems c))"
  shows "lru_inv c' \<and> contents c' = (key, v) # AList.delete key (contents c)"
proof -
  have lt: "x < length (elems c)" if "x \<in> set (lst c)" for x using lru_invD(2) [OF inv that] .
  have new: "length (elems c) \<notin> set (lst c)" using lt by blast
  have ent: "entry c' (length (elems c)) = \<lparr>le_key = key, le_value = v\<rparr>"
    "\<And>x. x \<in> set (lst c) \<Longrightarrow> entry c' x = entry c x"
    using lt by (simp_all add: entry_def c'(2) nth_append)
  have nk: "key_at c x \<noteq> key" if "x \<in> set (lst c)" for x using lru_invD(3) [OF inv, of key x] it that by simp
  have "items c' k = Some x \<longleftrightarrow> x \<in> set (lst c') \<and> key_at c' x = k" for k x
    using lru_invD(3) [OF inv, of k x] nk new ent
    by (cases "x = length (elems c)") (auto simp: c'(1,3) key_at_def)
  then have "lru_inv c'" using lru_invD(1) [OF inv] lt new
    by (auto simp: lru_inv_def c'(1,2) less_Suc_eq)
  moreover have "contents c' = (key, v) # contents c" by (simp add: contents_def c'(1) ent cong: map_cong)
  moreover have "key \<notin> fst ` set (contents c)" using nk by (fastforce simp: contents_def key_at_def)
  ultimately show ?thesis by simp
qed

lemma insert_new_spec:
  assumes "lru_inv c" "items c key = None"
  obtains c1 where "insert_new vlen key v c = evict vlen c1" "lru_inv c1"
    "contents c1 = (key, v) # AList.delete key (contents c)" "maxBytes c1 = maxBytes c"
    "has_onEvicted c1 = has_onEvicted c"
    "usedBytes c1 = int64 (usedBytes c + int64 (int (length key) + vlen v))" "expires c1 = expires c"
proof -
  let ?c = "c\<lparr>elems := elems c @ [\<lparr>le_key = key, le_value = v\<rparr>], lst := length (elems c) # lst c,
    items := (items c)(key \<mapsto> length (elems c)),
    usedBytes := int64 (usedBytes c + int64 (int (length key) + vlen v))\<rparr>"
  have "insert_new vlen key v c = evict vlen ?c" by (simp add: insert_new_def PushFront_def Let_def)
  then show thesis using that [of ?c] insert_front [OF assms, of ?c v] by simp
qed

lemma Lru_Set_spec:
  assumes inv: "lru_inv c"
  obtains c1 where "Lru_Set vlen key v c = evict vlen c1" "lru_inv c1"
    "contents c1 = (key, v) # AList.delete key (contents c)" "maxBytes c1 = maxBytes c"
    "has_onEvicted c1 = has_onEvicted c" "expires c1 = expires c"
proof (cases "items c key")
  case None
  obtain c1 where "insert_new vlen key v c = evict vlen c1" "lru_inv c1"
    "contents c1 = (key, v) # AList.delete key (contents c)" "maxBytes c1 = maxBytes c"
    "has_onEvicted c1 = has_onEvicted c"
    "usedBytes c1 = int64 (usedBytes c + int64 (int (length key) + vlen v))" "expires c1 = expires c"
    by (rule insert_new_spec [OF inv None])
  then show thesis using that [of c1] None by (simp add: Lru_Set_def)
next
  case (Some e)
  let ?u = "int64 (int64 (usedBytes c - int64 (int (length key) + vlen (le_value (entry c e)))) +
    int64 (int (length key) + vlen v))"
  let ?c = "c\<lparr>usedBytes := ?u, elems := (elems c)[e := (entry c e)\<lparr>le_value := v\<rparr>],
    lst := MoveToFront e (lst c)\<rparr>"
  have "Lru_Set vlen key v c = evict vlen ?c" using Some by (simp add: Lru_Set_def Let_def)
  then show thesis using that [of ?c] overwrite_front [OF inv Some, of ?c v] by simp
qed

lemma get_touch_spec:
  assumes inv: "lru_inv c" and it: "items c key = Some e"
  shows "lru_inv (get_touch key e c) \<and>
    contents (get_touch key e c) = (key, le_value (entry c e)) # AList.delete key (contents c) \<and>
    get_value e (get_touch key e c) = le_value (entry c e)"
proof -
  have "e < length (elems c)" using lru_invD(2,3) [OF inv] it by blast
  then have "(elems c)[e := (entry c e)\<lparr>le_value := le_value (entry c e)\<rparr>] = elems c"
    by (simp add: entry_def)
  then show ?thesis using overwrite_front [OF inv it, of "get_touch key e c" "le_value (entry c e)"] it
    by (simp add: get_touch_def get_value_def entry_def)
qed

lemma Lru_Delete_spec:
  assumes inv: "lru_inv c"
  shows "lru_inv (fst (fst (Lru_Delete vlen key c))) \<and>
    contents (fst (fst (Lru_Delete vlen key c))) = AList.delete key (contents c) \<and>
    snd (fst (Lru_Delete vlen key c)) = (map_of (contents c) key \<noteq> None)"
proof (cases "items c key")
  case None
  then have m: "map_of (contents c) key = None" by (simp add: contents_lookup [OF inv])
  then have "AList.delete key (contents c) = contents c" by (simp add: map_of_eq_None_iff)
  then show ?thesis using None inv m by (simp add: Lru_Delete_def del: map_of_eq_None_iff)
next
  case (Some e)
  then have e: "e \<in> set (lst c)" "key_at c e = key" using lru_invD(3) [OF inv] by blast+
  have "map_of (contents c) key \<noteq> None" by (simp add: contents_lookup [OF inv] Some)
  then show ?thesis using Some removeElement_inv [OF inv e(1), of vlen] e(2)
    by (simp add: Lru_Delete_def Let_def del: map_of_eq_None_iff)
qed

end
