(* ===== verification/Lru_Concurrent.thy ===== *)
theory Lru_Concurrent
  imports Lru_Cache_Refine
begin

text \<open>
  Concurrent callers of the list-based cache. \<open>Set\<close>, \<open>SetWithExpiration\<close>, \<open>Delete\<close>, \<open>Clear\<close> and the
  rounds of \<open>cleanupLoop\<close> hold the lock from beginning to end. \<open>Get\<close> takes it up to three times and
  reads the value after the last one, so other goroutines may act in between: a goroutine stands at a
  \<open>get_pc\<close>, and an execution is the list of sections in the order in which they run.
\<close>

subsection \<open>Sections of Get\<close>

datatype 'v get_pc =
    Called string
  | Found string nat
  | Expired string
  | Fresh string nat
  | Touched string nat
  | Got string "'v option"

text \<open>The clock is read after the section that looks the expiry up.\<close>

fun get_section :: "('v \<Rightarrow> int) \<Rightarrow> int \<Rightarrow> 'v get_pc \<Rightarrow> 'v LruCache \<Rightarrow> 'v get_pc \<times> 'v LruCache" where
  "get_section vlen now (Called key) c =
     (case get_lookup key c of None \<Rightarrow> (Got key None, c) | Some elem \<Rightarrow> (Found key elem, c))"
| "get_section vlen now (Found key elem) c =
     (if get_expired key now c then (Expired key, c) else (Fresh key elem, c))"
| "get_section vlen now (Expired key) c = (Got key None, fst (fst (Lru_Delete vlen key c)))"
| "get_section vlen now (Fresh key elem) c = (Touched key elem, get_touch key elem c)"
| "get_section vlen now (Touched key elem) c = (Got key (Some (get_value elem c)), c)"
| "get_section vlen now (Got key v) c = (Got key v, c)"

subsection \<open>Executions\<close>

datatype 'v lru_action =
    Act_Get nat string
  | Act_Section nat int
  | Act_Set string 'v
  | Act_SetWithExpiration string 'v int int
  | Act_Delete string
  | Act_Clear
  | Act_Cleanup "cleanup_event list"

type_synonym 'v lru_sys = "'v LruCache \<times> (nat \<rightharpoonup> 'v get_pc)"

fun lru_act :: "('v \<Rightarrow> int) \<Rightarrow> 'v lru_action \<Rightarrow> 'v lru_sys \<Rightarrow> 'v lru_sys" where
  "lru_act vlen (Act_Get t key) (c, pcs) = (c, pcs(t \<mapsto> Called key))"
| "lru_act vlen (Act_Section t now) (c, pcs) =
     (case pcs t of None \<Rightarrow> (c, pcs)
      | Some pc \<Rightarrow> let (pc, c) = get_section vlen now pc c in (c, pcs(t \<mapsto> pc)))"
| "lru_act vlen (Act_Set key v) (c, pcs) = (fst (Lru_Set vlen key v c), pcs)"
| "lru_act vlen (Act_SetWithExpiration key v d now) (c, pcs) =
     (fst (Lru_SetWithExpiration vlen key v d now c), pcs)"
| "lru_act vlen (Act_Delete key) (c, pcs) = (fst (fst (Lru_Delete vlen key c)), pcs)"
| "lru_act vlen Act_Clear (c, pcs) = (Lru_Clear c, pcs)"
| "lru_act vlen (Act_Cleanup evs) (c, pcs) = (fst (fst (cleanupLoop vlen evs c)), pcs)"

definition lru_execute :: "('v \<Rightarrow> int) \<Rightarrow> 'v lru_action list \<Rightarrow> 'v lru_sys \<Rightarrow> 'v lru_sys" where
  "lru_execute vlen acts s = fold (lru_act vlen) acts s"

text \<open>What an execution writes.\<close>

fun written :: "'v lru_action list \<Rightarrow> (string \<times> 'v) set" where
  "written [] = {}"
| "written (Act_Set key v # acts) = insert (key, v) (written acts)"
| "written (Act_SetWithExpiration key v d now # acts) = insert (key, v) (written acts)"
| "written (act # acts) = written acts"

subsection \<open>The arena\<close>

text \<open>An element keeps its key for ever, and its value is one that was written to that key.\<close>

definition arena_ok :: "(string \<times> 'v) set \<Rightarrow> 'v LruCache \<Rightarrow> bool" where
  "arena_ok W c \<longleftrightarrow> (\<forall>x\<in>set (elems c). (le_key x, le_value x) \<in> W)"

definition grows :: "'v LruCache \<Rightarrow> 'v LruCache \<Rightarrow> bool" where
  "grows c c' \<longleftrightarrow> length (elems c) \<le> length (elems c') \<and> (\<forall>e<length (elems c). key_at c' e = key_at c e)"

lemma grows_refl: "elems c' = elems c \<Longrightarrow> grows c c'"
  by (simp add: grows_def key_at_def entry_def)

lemma evict_loop_elems: "elems (fst (evict_loop vlen c)) = elems c"
proof (induction vlen c rule: evict_loop.induct)
  case (1 vlen c)
  then show ?case by (subst evict_loop.simps) (auto simp: Let_def)
qed

lemma evict_elems [simp]: "elems (fst (evict vlen c)) = elems c"
  by (simp add: evict_def evict_loop_elems)

lemma Delete_elems [simp]: "elems (fst (fst (Lru_Delete vlen key c))) = elems c"
  by (simp add: Lru_Delete_def Let_def split: option.split)

lemma touch_elems [simp]: "elems (get_touch key e c) = elems c"
  by (simp add: get_touch_def)

lemma cleanupExpired_elems: "elems (fst (cleanupExpired vlen now visits c)) = elems c"
  by (induction vlen now visits c rule: cleanupExpired.induct) (simp_all add: Let_def split: option.split)

lemma cleanupLoop_elems [simp]: "elems (fst (fst (cleanupLoop vlen evs c))) = elems c"
  by (induction vlen evs c rule: cleanupLoop.induct) (simp_all add: Let_def cleanupExpired_elems case_prod_beta)

definition written_elems :: "string \<Rightarrow> 'v \<Rightarrow> 'v LruCache \<Rightarrow> 'v lru_entry list" where
  "written_elems key v c =
     (case items c key of
        Some e \<Rightarrow> (elems c)[e := (entry c e)\<lparr>le_value := v\<rparr>]
      | None \<Rightarrow> elems c @ [\<lparr>le_key = key, le_value = v\<rparr>])"

lemma Set_elems:
  "elems (fst (Lru_Set vlen key v c)) = written_elems key v c"
  "elems (fst (Lru_SetWithExpiration vlen key v d now c)) = written_elems key v c"
  by (simp_all add: Lru_Set_def Lru_SetWithExpiration_def insert_new_def PushFront_def written_elems_def Let_def
      entry_def split: option.split)

lemma written_elems_ok:
  assumes inv: "lru_inv c" and ok: "arena_ok W c" and e: "elems c' = written_elems key v c"
  shows "arena_ok (insert (key, v) W) c' \<and> grows c c'"
proof (cases "items c key")
  case None
  then show ?thesis using e ok
    by (auto simp: written_elems_def arena_ok_def grows_def key_at_def entry_def nth_append)
next
  case (Some i)
  then have i: "i < length (elems c)" "key_at c i = key" using lru_invD(2,3) [OF inv] by blast+
  have e': "elems c' = (elems c)[i := (entry c i)\<lparr>le_value := v\<rparr>]" using e Some by (simp add: written_elems_def)
  have "set (elems c') \<subseteq> insert ((entry c i)\<lparr>le_value := v\<rparr>) (set (elems c))"
    unfolding e' by (rule set_update_subset_insert)
  then have "arena_ok (insert (key, v) W) c'" using ok i(2) by (fastforce simp: arena_ok_def key_at_def)
  moreover have "grows c c'" using i(1) by (auto simp: grows_def key_at_def entry_def e' nth_list_update)
  ultimately show ?thesis ..
qed

subsection \<open>The invariant of executions\<close>

lemma SetWithExpiration_spec:
  assumes "lru_inv c"
  obtains c1 where "Lru_SetWithExpiration vlen key v d now c = evict vlen c1" "lru_inv c1"
    "contents c1 = (key, v) # AList.delete key (contents c)" "maxBytes c1 = maxBytes c"
    "expires c1 = (if d > 0 then AList.update key (now + d) (expires c) else AList.delete key (expires c))"
proof -
  define c0 where "c0 = (if d > 0 then c\<lparr>expires := AList.update key (now + d) (expires c)\<rparr>
    else c\<lparr>expires := AList.delete key (expires c)\<rparr>)"
  have c0: "lru_inv c0" "contents c0 = contents c" "items c0 = items c" "maxBytes c0 = maxBytes c"
    "expires c0 = (if d > 0 then AList.update key (now + d) (expires c) else AList.delete key (expires c))"
    using lru_inv_cong [of c0 c] assms by (simp_all add: c0_def)
  show thesis
  proof (cases "items c0 key")
    case None
    obtain c1 where "insert_new vlen key v c0 = evict vlen c1" "lru_inv c1"
      "contents c1 = (key, v) # AList.delete key (contents c0)" "maxBytes c1 = maxBytes c0"
      "expires c1 = expires c0"
      by (rule insert_new_spec [OF c0(1) None]) (rule that)
    then show thesis using None c0 that [of c1]
      by (simp add: Lru_SetWithExpiration_def Let_def flip: c0_def)
  next
    case (Some e)
    let ?c = "c0\<lparr>usedBytes := int64 (usedBytes c0 + int64 (vlen v - vlen (le_value (entry c0 e)))),
      elems := (elems c0)[e := (entry c0 e)\<lparr>le_value := v\<rparr>], lst := MoveToFront e (lst c0)\<rparr>"
    have "Lru_SetWithExpiration vlen key v d now c = evict vlen ?c"
      using Some by (simp add: Lru_SetWithExpiration_def Let_def entry_def flip: c0_def)
    then show thesis using overwrite_front [OF c0(1) Some, of ?c v] c0 that [of ?c] by simp
  qed
qed

lemma SetWithExpiration_inv:
  assumes "lru_inv c"
  shows "lru_inv (fst (Lru_SetWithExpiration vlen key v d now c))"
proof -
  obtain c1 where "Lru_SetWithExpiration vlen key v d now c = evict vlen c1" "lru_inv c1"
    by (rule SetWithExpiration_spec [OF assms])
  then show ?thesis using evict_spec [of c1 vlen] by auto
qed

lemma Set_inv: "lru_inv c \<Longrightarrow> lru_inv (fst (Lru_Set vlen key v c))"
  using Lru_Set_spec [of c vlen key v] evict_spec [of _ vlen] by metis

lemma cleanupExpired_inv: "lru_inv c \<Longrightarrow> lru_inv (fst (cleanupExpired vlen now visits c))"
proof (induction vlen now visits c rule: cleanupExpired.induct)
  case (2 vlen now key visits c)
  have "lru_inv (fst (removeElement vlen e c))" if "items c key = Some e" for e
    using removeElement_inv(1) [OF 2(2)] lru_invD(3) [OF 2(2)] that by blast
  then show ?case using 2 by (auto simp: Let_def split: option.split)
qed simp

lemma cleanupLoop_inv: "lru_inv c \<Longrightarrow> lru_inv (fst (fst (cleanupLoop vlen evs c)))"
  by (induction vlen evs c rule: cleanupLoop.induct) (simp_all add: Let_def case_prod_beta cleanupExpired_inv)

lemma touch_inv: "lru_inv c \<Longrightarrow> lru_inv (get_touch key e c)"
  by (auto simp: get_touch_def MoveToFront_def lru_inv_def key_at_def entry_def)

fun pc_ok :: "(string \<times> 'v) set \<Rightarrow> 'v LruCache \<Rightarrow> 'v get_pc \<Rightarrow> bool" where
  "pc_ok W c (Found key e) = (e < length (elems c) \<and> key_at c e = key)"
| "pc_ok W c (Fresh key e) = (e < length (elems c) \<and> key_at c e = key)"
| "pc_ok W c (Touched key e) = (e < length (elems c) \<and> key_at c e = key)"
| "pc_ok W c (Got key (Some v)) = ((key, v) \<in> W)"
| "pc_ok W c pc = True"

lemma pc_ok_mono: "pc_ok W c pc \<Longrightarrow> W \<subseteq> W' \<Longrightarrow> grows c c' \<Longrightarrow> pc_ok W' c' pc"
  by (cases "(W, c, pc)" rule: pc_ok.cases) (auto simp: grows_def)

definition sys_ok :: "(string \<times> 'v) set \<Rightarrow> 'v lru_sys \<Rightarrow> bool" where
  "sys_ok W s \<longleftrightarrow> lru_inv (fst s) \<and> arena_ok W (fst s) \<and> (\<forall>t pc. snd s t = Some pc \<longrightarrow> pc_ok W (fst s) pc)"

text \<open>A change of the cache alone.\<close>

lemma sys_ok_cache:
  assumes "sys_ok W (c, pcs)" "W \<subseteq> W'" "lru_inv c'" "arena_ok W' c'" "grows c c'"
  shows "sys_ok W' (c', pcs)"
  using assms pc_ok_mono [OF _ assms(2,5)] by (auto simp: sys_ok_def)

lemma arena_ok_mono: "arena_ok W c \<Longrightarrow> W \<subseteq> W' \<Longrightarrow> elems c' = elems c \<Longrightarrow> arena_ok W' c'"
  by (auto simp: arena_ok_def)

lemma get_section_ok:
  assumes "lru_inv c" "arena_ok W c" "pc_ok W c pc" "get_section vlen now pc c = (pc', c')"
  shows "lru_inv c' \<and> elems c' = elems c \<and> pc_ok W c' pc'"
proof (cases pc)
  case (Called key)
  show ?thesis
  proof (cases "items c key")
    case (Some e)
    then have "e < length (elems c)" "key_at c e = key" using lru_invD(2,3) [OF assms(1)] by blast+
    then show ?thesis using Some Called assms by (auto simp: get_lookup_def)
  qed (use Called assms in \<open>auto simp: get_lookup_def\<close>)
next
  case (Expired key)
  then show ?thesis using assms Lru_Delete_spec [OF assms(1), of vlen key] by auto
next
  case (Touched key e)
  then have "entry c e \<in> set (elems c)" "key_at c e = key" using assms(3) by (simp_all add: entry_def)
  then show ?thesis using Touched assms by (auto simp: arena_ok_def key_at_def get_value_def)
qed (use assms in \<open>auto simp: touch_inv key_at_def entry_def split: if_splits\<close>)

lemma lru_act_ok:
  assumes "sys_ok W s"
  shows "sys_ok (W \<union> written [act]) (lru_act vlen act s)"
proof -
  obtain c pcs where s: "s = (c, pcs)" by force
  have ok: "lru_inv c" "arena_ok W c" "\<And>t pc. pcs t = Some pc \<Longrightarrow> pc_ok W c pc"
    using assms by (auto simp: sys_ok_def s)
  note cache = sys_ok_cache [OF assms [unfolded s]]
  have same: "sys_ok W (c', pcs)" if "lru_inv c'" "elems c' = elems c" for c'
    using cache [OF _ that(1) _ grows_refl [OF that(2)], of W] arena_ok_mono [OF ok(2) _ that(2)] by simp
  show ?thesis
  proof (cases act)
    case (Act_Get t key)
    then show ?thesis using ok by (auto simp: s sys_ok_def)
  next
    case (Act_Section t now)
    show ?thesis
    proof (cases "pcs t")
      case (Some pc)
      obtain pc' c' where g: "get_section vlen now pc c = (pc', c')" by force
      note G = get_section_ok [OF ok(1,2) ok(3) [OF Some] g]
      then have "sys_ok W (c', pcs)" by (intro same) simp_all
      then show ?thesis using G Act_Section Some g by (auto simp: s sys_ok_def)
    qed (use Act_Section assms in \<open>simp add: s\<close>)
  next
    case (Act_Set key v)
    note E = written_elems_ok [OF ok(1,2) Set_elems(1), of key v vlen]
    show ?thesis using cache [OF _ Set_inv [OF ok(1)] _ conjunct2 [OF E]] E Act_Set by (auto simp: s)
  next
    case (Act_SetWithExpiration key v d now)
    note E = written_elems_ok [OF ok(1,2) Set_elems(2), of key v vlen d now]
    show ?thesis
      using cache [OF _ SetWithExpiration_inv [OF ok(1)] _ conjunct2 [OF E]] E Act_SetWithExpiration by (auto simp: s)
  next
    case (Act_Delete key)
    then show ?thesis using same Lru_Delete_spec [OF ok(1), of vlen key] by (simp add: s)
  next
    case Act_Clear
    then show ?thesis using same [of "Lru_Clear c"] by (simp add: s Lru_Clear_def lru_inv_def)
  next
    case (Act_Cleanup evs)
    then show ?thesis using same cleanupLoop_inv [OF ok(1)] by (simp add: s)
  qed
qed

lemma written_Cons: "written (act # acts) = written [act] \<union> written acts"
  by (cases act) auto

lemma lru_execute_ok: "sys_ok W s \<Longrightarrow> sys_ok (W \<union> written acts) (lru_execute vlen acts s)"
proof (induction acts arbitrary: W s)
  case (Cons act acts)
  then show ?case using Cons.IH [OF lru_act_ok [OF Cons.prems]]
    by (simp add: lru_execute_def written_Cons [of act acts] Un_assoc)
qed (simp add: lru_execute_def)

lemma start_ok: "sys_ok {} (newLRUCache opts, Map.empty)"
  using new_inv(1) [of opts] by (simp add: sys_ok_def arena_ok_def newLRUCache_def)

end
