(* ===== verification/Lru_Cache_Properties.thy ===== *)
theory Lru_Cache_Properties
  imports Lru_Concurrent
begin

text \<open>The properties of the list-based cache (\<open>pkg/store/lru.go\<close>), with instances.\<close>

definition text_len :: "string \<Rightarrow> int" where
  "text_len v = int (length v)"

definition two_entries :: "string LruCache" where
  "two_entries = fst (Lru_Set text_len ''b'' ''2'' (fst (Lru_Set text_len ''a'' ''1''
     (newLRUCache (NewOptions\<lparr>MaxBytes := 5, OnEvicted := True\<rparr>)))))"

lemma two_entries_inv: "lru_inv two_entries"
proof -
  have set_inv: "lru_inv (fst (Lru_Set text_len k v c))" if inv: "lru_inv c" for k v and c :: "string LruCache"
  proof -
    obtain c1 where "Lru_Set text_len k v c = evict text_len c1" "lru_inv c1"
      using Lru_Set_spec [OF inv, of text_len k v] by blast
    then show ?thesis using evict_spec [of c1 text_len] by auto
  qed
  show ?thesis unfolding two_entries_def by (intro set_inv new_inv)
qed

text \<open>
  C32. \<open>Set\<close> refines the list of entries from most to least recently used: the key goes to the front
  with the new value, then entries are dropped off the back, and exactly those, last first, are
  reported to \<open>onEvicted\<close>. With a byte limit the eviction loop ends with the counter within the
  limit or the cache empty; without one, nothing is dropped. The invariant is kept.
\<close>
theorem Lru_Set_effect:
  assumes "lru_inv c"
  shows "\<exists>dropped. (key, v) # AList.delete key (contents c) =
      contents (fst (Lru_Set vlen key v c)) @ rev dropped \<and>
    snd (Lru_Set vlen key v c) = (if has_onEvicted c then dropped else []) \<and>
    lru_inv (fst (Lru_Set vlen key v c)) \<and>
    (if 0 < maxBytes c
     then usedBytes (fst (Lru_Set vlen key v c)) \<le> maxBytes c \<or> contents (fst (Lru_Set vlen key v c)) = []
     else dropped = [])"
proof -
  obtain c1 where S: "Lru_Set vlen key v c = evict vlen c1" "lru_inv c1"
    "contents c1 = (key, v) # AList.delete key (contents c)" "maxBytes c1 = maxBytes c"
    "has_onEvicted c1 = has_onEvicted c"
    using Lru_Set_spec [OF assms, of vlen key v] by blast
  obtain d where "lru_inv (fst (evict vlen c1))" "evicts (contents c1) (contents (fst (evict vlen c1))) d"
    "snd (evict vlen c1) = (if has_onEvicted c1 then d else [])"
    "maxBytes c1 \<le> 0 \<or> usedBytes c1 \<le> maxBytes c1 \<longrightarrow> d = []"
    "0 < maxBytes c1 \<longrightarrow> usedBytes (fst (evict vlen c1)) \<le> maxBytes c1 \<or> contents (fst (evict vlen c1)) = []"
    by (rule evict_spec [OF S(2)])
  then show ?thesis by (intro exI [of _ d]) (simp add: S evicts_def)
qed

theorem Lru_Set_effect_witness:
  "\<exists>dropped. (''c'', ''33'') # AList.delete ''c'' (contents two_entries) =
      contents (fst (Lru_Set text_len ''c'' ''33'' two_entries)) @ rev dropped \<and>
    snd (Lru_Set text_len ''c'' ''33'' two_entries) = dropped \<and>
    lru_inv (fst (Lru_Set text_len ''c'' ''33'' two_entries)) \<and>
    contents (fst (Lru_Set text_len ''c'' ''33'' two_entries)) = [(''c'', ''33''), (''b'', ''2'')]"
proof -
  have "has_onEvicted two_entries"
    "contents (fst (Lru_Set text_len ''c'' ''33'' two_entries)) = [(''c'', ''33''), (''b'', ''2'')]" by code_simp+
  then show ?thesis using Lru_Set_effect [OF two_entries_inv, of "''c''" "''33''" text_len] by auto
qed

text \<open>
  \<open>Get\<close> on its own: a key that is there and not past its expiry is returned with the value the
  list holds and moved to the front; one past its expiry is removed and misses; one that is not
  there misses; no other entry moves. \<open>Delete\<close> says whether the key was there and removes it.
\<close>
lemma Lru_Get_effect:
  assumes "lru_inv c"
  shows "snd (fst (Lru_Get vlen key now c)) = (if get_expired key now c then None else map_of (contents c) key) \<and>
    contents (fst (fst (Lru_Get vlen key now c))) =
      (case map_of (contents c) key of
         None \<Rightarrow> contents c
       | Some v \<Rightarrow> if get_expired key now c then AList.delete key (contents c)
           else (key, v) # AList.delete key (contents c)) \<and>
    lru_inv (fst (fst (Lru_Get vlen key now c)))"
proof (cases "items c key")
  case None
  then have "map_of (contents c) key = None" by (simp add: contents_lookup [OF assms])
  then show ?thesis using None assms by (simp add: Lru_Get_def get_lookup_def del: map_of_eq_None_iff)
next
  case (Some e)
  then have m: "map_of (contents c) key = Some (le_value (entry c e))" by (simp add: contents_lookup [OF assms])
  show ?thesis using Some m get_touch_spec [OF assms Some] Lru_Delete_spec [OF assms, of vlen key]
    by (simp add: Lru_Get_def get_lookup_def Let_def case_prod_beta)
qed

lemma Lru_Get_effect_witness:
  "snd (fst (Lru_Get text_len ''a'' 0 two_entries)) = Some ''1'' \<and>
   contents (fst (fst (Lru_Get text_len ''a'' 0 two_entries))) = [(''a'', ''1''), (''b'', ''2'')]"
proof -
  have "contents two_entries = [(''b'', ''2''), (''a'', ''1'')]" "\<not> get_expired ''a'' 0 two_entries" by code_simp+
  with Lru_Get_effect [OF two_entries_inv, of text_len "''a''" 0] show ?thesis by simp
qed

text \<open>
  The byte limit does not hold: an eviction subtracts the size of the dropped entry twice, so the
  counter falls below the true size and later entries are admitted over the limit. With a limit of
  4 bytes, five \<open>Set\<close>s of two bytes each leave three entries of two bytes each.
\<close>
lemma byte_limit_is_exceeded:
  "let c0 = newLRUCache (NewOptions\<lparr>MaxBytes := 4\<rparr>) :: string LruCache;
       put = (\<lambda>k c. fst (Lru_Set text_len k ''x'' c));
       c = put ''e'' (put ''d'' (put ''c'' (put ''b'' (put ''a'' c0))))
   in maxBytes c = 4 \<and> usedBytes c \<le> 4 \<and> (\<Sum>(k, v)\<leftarrow>contents c. int (length k) + text_len v) = 6"
  by code_simp

text \<open>
  C22. Concurrent callers: however the sections of any number of \<open>Get\<close>s, the writes, deletions, clears
  and rounds of the cleanup loop follow each other on a new cache, list, map and elements stay
  consistent, and a \<open>Get\<close> that hits returns a value that was written to its own key, also when the key
  has been deleted, evicted or written again between its sections.
\<close>
theorem concurrent_Get_is_sane:
  assumes "lru_execute vlen acts (newLRUCache opts, Map.empty) = (c, pcs)"
  shows "lru_inv c \<and> (\<forall>t key v. pcs t = Some (Got key (Some v)) \<longrightarrow> (key, v) \<in> written acts)"
proof -
  have "sys_ok ({} \<union> written acts) (c, pcs)" using lru_execute_ok [OF start_ok] assms by metis
  then show ?thesis by (fastforce simp: sys_ok_def)
qed

definition raced_acts :: "string lru_action list" where
  "raced_acts = [Act_Set ''k'' ''old'', Act_Get 1 ''k'', Act_Section 1 0, Act_Section 1 0, Act_Delete ''k'',
     Act_Set ''k'' ''new'', Act_Section 1 0, Act_Section 1 0]"

theorem concurrent_Get_is_sane_witness:
  "\<exists>c pcs. lru_execute text_len raced_acts (newLRUCache NewOptions, Map.empty) = (c, pcs) \<and> lru_inv c \<and>
     pcs 1 = Some (Got ''k'' (Some ''old'')) \<and> (''k'', ''old'') \<in> written raced_acts"
proof -
  obtain c pcs where r: "lru_execute text_len raced_acts (newLRUCache NewOptions, Map.empty) = (c, pcs)" by force
  have "snd (lru_execute text_len raced_acts (newLRUCache NewOptions, Map.empty)) 1 = Some (Got ''k'' (Some ''old''))"
    by code_simp
  then have "pcs 1 = Some (Got ''k'' (Some ''old''))" by (simp add: r)
  with concurrent_Get_is_sane [OF r] r show ?thesis by blast
qed

text \<open>
  A \<open>Get\<close> that has seen an expired entry deletes the key in a later section: when another goroutine
  writes the key in between, the fresh, unexpired value is lost, in every cache without a byte limit.
\<close>
lemma expired_Get_deletes_fresh_value:
  fixes vlen :: "'v \<Rightarrow> int"
  assumes "lru_inv c" "maxBytes c \<le> 0" "map_of (contents c) key \<noteq> None" "get_expired key now c" "0 < d"
    and r_def: "r = lru_execute vlen
      [Act_Get t key, Act_Section t now, Act_Section t now, Act_SetWithExpiration key v d now] (c, pcs)"
  shows "map_of (contents (fst r)) key = Some v \<and> \<not> get_expired key (now + d) (fst r) \<and>
    map_of (contents (fst (lru_act vlen (Act_Section t now) r))) key = None"
proof -
  obtain e where e: "items c key = Some e" using assms(3) by (auto simp: contents_lookup [OF assms(1)])
  obtain c1 where c1: "Lru_SetWithExpiration vlen key v d now c = evict vlen c1" "lru_inv c1"
    "contents c1 = (key, v) # AList.delete key (contents c)" "maxBytes c1 = maxBytes c"
    "expires c1 = (if d > 0 then AList.update key (now + d) (expires c) else AList.delete key (expires c))"
    by (rule SetWithExpiration_spec [OF assms(1)])
  have "r = (c1, (pcs(t \<mapsto> Expired key)))"
    using e assms(2,4) c1(1,4)
    by (simp add: r_def lru_execute_def get_lookup_def evict_def)
  moreover have "\<not> get_expired key (now + d) c1"
    using assms(5) by (simp add: get_expired_def c1(5) update_conv')
  moreover have "map_of (contents (fst (fst (Lru_Delete vlen key c1)))) key = None"
    using Lru_Delete_spec [OF c1(2), of vlen key] by (simp add: delete_conv' del: map_of_eq_None_iff)
  ultimately show ?thesis by (simp add: c1(3) del: map_of_eq_None_iff)
qed

definition expired_cache :: "string LruCache" where
  "expired_cache = fst (Lru_SetWithExpiration text_len ''k'' ''old'' 5 0 (newLRUCache (NewOptions\<lparr>MaxBytes := 0\<rparr>)))"

lemma expired_Get_deletes_fresh_value_witness:
  "map_of (contents (fst (lru_execute text_len [Act_Get 1 ''k'', Act_Section 1 9, Act_Section 1 9,
      Act_SetWithExpiration ''k'' ''new'' 5 9, Act_Section 1 9] (expired_cache, Map.empty)))) ''k'' = None"
proof -
  have "lru_inv expired_cache" unfolding expired_cache_def by (intro SetWithExpiration_inv new_inv)
  moreover have "maxBytes expired_cache \<le> 0" "map_of (contents expired_cache) ''k'' = Some ''old''"
    "get_expired ''k'' 9 expired_cache" by code_simp+
  ultimately show ?thesis
    using expired_Get_deletes_fresh_value [of expired_cache "''k''" 9 5 _ text_len 1 "''new''" Map.empty, OF _ _ _ _ _ refl]
    by (simp add: lru_execute_def del: map_of_eq_None_iff)
qed

end
