(* ===== verification/Byte_View.thy ===== *)
theory Byte_View
  imports Prelude
begin

text \<open>
  Byte views, \<open>pkg/store/view.go\<close>, on an explicit memory: a \<open>ByteView\<close> is a slice, that is an array
  shared with whoever holds another slice of it, an offset, a length and a capacity, or nil. Arrays
  live at addresses; a new array gets the next one. Go strings are immutable and are values.
\<close>

subsection \<open>Memory and slices\<close>

record memory =
  arrays :: "nat \<Rightarrow> char list"
  next_addr :: nat

record slice =
  s_arr :: nat
  s_off :: nat
  s_len :: nat
  s_cap :: nat

type_synonym byte_view = "slice option"

definition view_length :: "byte_view \<Rightarrow> nat" where
  "view_length v = (case v of None \<Rightarrow> 0 | Some s \<Rightarrow> s_len s)"

definition view_bytes :: "memory \<Rightarrow> byte_view \<Rightarrow> char list" where
  "view_bytes h v =
     (case v of None \<Rightarrow> [] | Some s \<Rightarrow> take (s_len s) (drop (s_off s) (arrays h (s_arr s))))"

text \<open>The builtins: \<open>make\<close> zeroes a new array, \<open>copy\<close> writes the shorter of the two lengths (and reads
  the source before it writes), an assignment out of range panics.\<close>

definition make_view :: "nat \<Rightarrow> memory \<Rightarrow> memory \<times> byte_view" where
  "make_view n h =
     (h\<lparr>arrays := (arrays h)(next_addr h := replicate n (char_of (0::nat))), next_addr := Suc (next_addr h)\<rparr>,
      Some \<lparr>s_arr = next_addr h, s_off = 0, s_len = n, s_cap = n\<rparr>)"

definition copy_view :: "byte_view \<Rightarrow> byte_view \<Rightarrow> memory \<Rightarrow> memory" where
  "copy_view dst src h =
     (case dst of
        None \<Rightarrow> h
      | Some d \<Rightarrow>
          let n = min (s_len d) (view_length src); a = arrays h (s_arr d); bs = take n (view_bytes h src)
          in h\<lparr>arrays := (arrays h)(s_arr d := take (s_off d) a @ bs @ drop (s_off d + n) a)\<rparr>)"

definition write_view :: "byte_view \<Rightarrow> nat \<Rightarrow> char \<Rightarrow> memory \<Rightarrow> memory option" where
  "write_view v i b h =
     (case v of
        None \<Rightarrow> None
      | Some s \<Rightarrow>
          if i < s_len s then Some (h\<lparr>arrays := (arrays h)(s_arr s := (arrays h (s_arr s))[s_off s + i := b])\<rparr>)
          else None)"

fun write_all :: "byte_view \<Rightarrow> (nat \<times> char) list \<Rightarrow> memory \<Rightarrow> memory option" where
  "write_all v [] h = Some h"
| "write_all v ((i, b) # ws) h = (case write_view v i b h of None \<Rightarrow> None | Some h \<Rightarrow> write_all v ws h)"

subsection \<open>The methods of a view\<close>

definition view_Len :: "byte_view \<Rightarrow> int" where
  "view_Len v = int (view_length v)"

definition view_String :: "memory \<Rightarrow> byte_view \<Rightarrow> string" where
  "view_String h v = view_bytes h v"

definition cloneByteView :: "byte_view \<Rightarrow> memory \<Rightarrow> memory \<times> byte_view" where
  "cloneByteView v h =
     (let (h, clone) = make_view (view_length v) h;
          h = copy_view clone v h
      in (h, clone))"

definition view_Slice :: "byte_view \<Rightarrow> memory \<Rightarrow> memory \<times> byte_view" where
  "view_Slice v h = cloneByteView v h"

subsection \<open>Lemmas\<close>

text \<open>A slice that the program can hold: its array exists and it lies within it.\<close>

definition view_ok :: "memory \<Rightarrow> byte_view \<Rightarrow> bool" where
  "view_ok h v \<longleftrightarrow>
     (case v of None \<Rightarrow> True
      | Some s \<Rightarrow> s_arr s < next_addr h \<and> s_len s \<le> s_cap s \<and> s_off s + s_cap s \<le> length (arrays h (s_arr s)))"

lemma view_bytes_length: "view_ok h v \<Longrightarrow> length (view_bytes h v) = view_length v"
  by (auto simp: view_ok_def view_bytes_def view_length_def split: option.splits)

lemma cloneByteView_simps:
  assumes "view_ok h v"
  shows "cloneByteView v h =
    (h\<lparr>arrays := (arrays h)(next_addr h := view_bytes h v), next_addr := Suc (next_addr h)\<rparr>,
     Some \<lparr>s_arr = next_addr h, s_off = 0, s_len = view_length v, s_cap = view_length v\<rparr>)"
proof -
  have "view_bytes (h\<lparr>arrays := (arrays h)(next_addr h := xs), next_addr := Suc (next_addr h)\<rparr>) v = view_bytes h v" for xs
    using assms by (auto simp: view_bytes_def view_ok_def split: option.split)
  then show ?thesis
    using view_bytes_length [OF assms]
    by (simp add: cloneByteView_def make_view_def copy_view_def Let_def fun_upd_idem)
qed

text \<open>Writing through one slice does not touch what lies in other arrays, and keeps every slice valid.\<close>

lemma write_view_other:
  assumes "write_view (Some s) i b h = Some h'" "s_arr t \<noteq> s_arr s"
  shows "view_bytes h' (Some t) = view_bytes h (Some t)"
  using assms by (auto simp: write_view_def view_bytes_def split: if_splits)

lemma write_all_other:
  assumes "write_all (Some s) ws h = Some h'" "s_arr t \<noteq> s_arr s"
  shows "view_bytes h' (Some t) = view_bytes h (Some t)"
  using assms(1)
proof (induction "Some s" ws h rule: write_all.induct)
  case (2 i b ws h)
  then obtain h1 where h1: "write_view (Some s) i b h = Some h1" "write_all (Some s) ws h1 = Some h'"
    by (auto split: option.splits)
  then show ?case using 2 write_view_other [OF h1(1) assms(2)] by simp
qed simp

lemma write_all_nil: "write_all None ws h = Some h' \<Longrightarrow> h' = h"
  by (cases ws) (auto simp: write_view_def)

subsection \<open>Properties\<close>

text \<open>
  C33. \<open>Slice\<close> returns an independent copy: it has the length and the bytes of the view, the view still
  reads the same, and afterwards no sequence of writes through the original (or through any other
  slice that existed before) changes the copy, and no writes through the copy change any of them.
\<close>
theorem Slice_is_an_independent_copy:
  assumes "view_ok h v" "view_ok h u" "view_Slice v h = (h', c)"
  shows "view_String h' c = view_String h v \<and> view_Len c = view_Len v \<and> view_String h' u = view_String h u \<and>
    (\<forall>ws h2. write_all u ws h' = Some h2 \<longrightarrow> view_String h2 c = view_String h v) \<and>
    (\<forall>ws h2. write_all c ws h' = Some h2 \<longrightarrow> view_String h2 u = view_String h u)"
proof -
  let ?c = "\<lparr>s_arr = next_addr h, s_off = 0, s_len = view_length v, s_cap = view_length v\<rparr>"
  have h': "h' = h\<lparr>arrays := (arrays h)(next_addr h := view_bytes h v), next_addr := Suc (next_addr h)\<rparr>"
    and c: "c = Some ?c"
    using assms(3) cloneByteView_simps [OF assms(1)] by (simp_all add: view_Slice_def)
  have bytes: "view_bytes h' c = view_bytes h v"
    using view_bytes_length [OF assms(1)] by (simp add: h' c view_bytes_def)
  have old: "view_bytes h' u = view_bytes h u"
    using assms(2) by (auto simp: h' view_bytes_def view_ok_def split: option.split)
  have "view_bytes h2 c = view_bytes h v" if w: "write_all u ws h' = Some h2" for ws h2
  proof (cases u)
    case None
    then show ?thesis using w write_all_nil bytes by blast
  next
    case (Some s)
    then have "s_arr ?c \<noteq> s_arr s" using assms(2) by (simp add: view_ok_def)
    from write_all_other [OF w [unfolded Some] this] show ?thesis using bytes c by simp
  qed
  moreover have "view_bytes h2 u = view_bytes h u" if w: "write_all c ws h' = Some h2" for ws h2
  proof (cases u)
    case (Some s)
    then have "s_arr s \<noteq> s_arr ?c" using assms(2) by (simp add: view_ok_def)
    from write_all_other [OF w [unfolded c] this] show ?thesis using old Some by simp
  qed (simp add: view_bytes_def)
  ultimately show ?thesis using bytes old by (simp add: view_String_def view_Len_def c view_length_def)
qed

theorem Slice_is_an_independent_copy_witness:
  "\<exists>h c h2. view_Slice (Some \<lparr>s_arr = 0, s_off = 1, s_len = 2, s_cap = 3\<rparr>)
      \<lparr>arrays = (\<lambda>_. ''abcd''), next_addr = 1\<rparr> = (h, c) \<and>
    write_all (Some \<lparr>s_arr = 0, s_off = 1, s_len = 2, s_cap = 3\<rparr>) [(0, CHR ''x'')] h = Some h2 \<and>
    view_String h2 c = ''bc''"
proof -
  let ?v = "Some \<lparr>s_arr = 0, s_off = 1, s_len = 2, s_cap = 3\<rparr>"
  let ?h = "\<lparr>arrays = (\<lambda>_. ''abcd''), next_addr = 1\<rparr>"
  have ok: "view_ok ?h ?v" by (simp add: view_ok_def)
  obtain h c where s: "view_Slice ?v ?h = (h, c)" by force
  obtain h2 where w: "write_all ?v [(0, CHR ''x'')] h = Some h2" by (simp add: write_view_def)
  have "view_String ?h ?v = ''bc''" by (simp add: view_String_def view_bytes_def)
  then show ?thesis using Slice_is_an_independent_copy [OF ok ok s] s w by metis
qed

text \<open>Without the copy, slices share their bytes: a write through one shows in the other.\<close>

lemma shared_write:
  assumes "view_ok h (Some s)" "i < s_len s" "write_view (Some s) i b h = Some h'"
  shows "view_String h' (Some s) = (view_String h (Some s))[i := b]"
  using assms by (auto simp: write_view_def view_String_def view_bytes_def view_ok_def drop_update_swap
      take_update_swap)

end
