(* ===== verification/Peer_Picker.thy ===== *)
theory Peer_Picker
  imports Con_Hash_Run
begin

text \<open>
  The peer picker of \<open>internal/server/peer.go\<close>: the hash ring together with one gRPC client per
  remote node, kept up to date from the service registrations in etcd.

  \<open>grpc.NewClient\<close> is a third-party function, so it is a parameter \<open>newCli\<close>: it gives a client of
  any type \<open>'c\<close> for an address, or an error. What etcd answers is an input: a list of key-value
  pairs, or batches of events. Contexts, the goroutines that close connections and what is printed are left
  out. \<open>handle_event\<close> composes the two critical sections of an event; \<open>client_section\<close> and \<open>ring_section\<close>
  are these sections.
\<close>

subsection \<open>State\<close>

record 'c picker =
  pk_selfAddr :: string
  pk_svcName :: string
  consHash :: con_hash
  grpcCli :: "string \<rightharpoonup> 'c"

datatype service_event = EventPut string string | EventDelete string string

text \<open>\<open>NewClientPicker\<close> with no ring given; its error is the one of the etcd client.\<close>

definition NewClientPicker :: "string \<Rightarrow> string \<Rightarrow> con_hash option \<Rightarrow> ('c picker \<Rightarrow> 'c picker) list \<Rightarrow> bool \<Rightarrow> 'c picker option" where
  "NewClientPicker self svcName ch opts etcd_ok =
     (let ch = (case ch of None \<Rightarrow> NewConsistentHash self [] | Some c \<Rightarrow> c);
          p = \<lparr>pk_selfAddr = self, pk_svcName = svcName, consHash = ch, grpcCli = Map.empty\<rparr>;
          p = foldl (\<lambda>p opt. opt p) p opts
      in if etcd_ok then Some p else None)"

subsection \<open>Discovery\<close>

text \<open>The loop of \<open>fetchAllServices\<close>; the flag is False when it returns an error.\<close>

fun fetch_services :: "(string \<Rightarrow> 'c option) \<Rightarrow> (string \<times> string) list \<Rightarrow> 'c picker \<Rightarrow> 'c picker \<times> bool" where
  "fetch_services newCli [] p = (p, True)"
| "fetch_services newCli ((k, v) # kvs) p =
     (let addr = v
      in if addr \<noteq> [] \<and> addr \<noteq> pk_selfAddr p then
           let p = p\<lparr>consHash := Map_Add addr (consHash p)\<rparr>
           in case newCli addr of
                None \<Rightarrow> (p, False)
              | Some cli \<Rightarrow> fetch_services newCli kvs (p\<lparr>grpcCli := (grpcCli p)(addr \<mapsto> cli)\<rparr>)
         else fetch_services newCli kvs p)"

definition fetchAllServices :: "(string \<Rightarrow> 'c option) \<Rightarrow> (string \<times> string) list option \<Rightarrow> 'c picker \<Rightarrow> 'c picker \<times> bool" where
  "fetchAllServices newCli resp p =
     (case resp of None \<Rightarrow> (p, False) | Some kvs \<Rightarrow> fetch_services newCli kvs p)"

definition handle_event :: "(string \<Rightarrow> 'c option) \<Rightarrow> service_event \<Rightarrow> 'c picker \<Rightarrow> 'c picker" where
  "handle_event newCli ev p =
     (case ev of
        EventPut k v \<Rightarrow>
          let addr = v
          in if addr \<noteq> [] \<and> addr \<noteq> pk_selfAddr p then
               (case newCli addr of
                  None \<Rightarrow> p
                | Some cli \<Rightarrow>
                    let p = p\<lparr>grpcCli := (grpcCli p)(addr \<mapsto> cli)\<rparr>
                    in p\<lparr>consHash := Map_Add addr (consHash p)\<rparr>)
             else p
      | EventDelete k v \<Rightarrow>
          let addr = trim_prefix k (''/services/'' @ pk_svcName p @ ''/'')
          in if addr \<noteq> [] \<and> addr \<noteq> pk_selfAddr p then
               let p = p\<lparr>grpcCli := (grpcCli p)(addr := None)\<rparr>
               in p\<lparr>consHash := Map_Remove addr (consHash p)\<rparr>
             else p)"

text \<open>\<open>handle_event\<close> takes two locks, one after the other: \<open>p.mu\<close> for the client and then the mutex of
  the ring. Requests can come in between; these are the two critical sections.\<close>

definition client_section :: "(string \<Rightarrow> 'c option) \<Rightarrow> service_event \<Rightarrow> 'c picker \<Rightarrow> 'c picker" where
  "client_section newCli ev p =
     (case ev of
        EventPut k addr \<Rightarrow>
          if addr \<noteq> [] \<and> addr \<noteq> pk_selfAddr p then
            (case newCli addr of None \<Rightarrow> p | Some cli \<Rightarrow> p\<lparr>grpcCli := (grpcCli p)(addr \<mapsto> cli)\<rparr>)
          else p
      | EventDelete k v \<Rightarrow>
          let addr = trim_prefix k (''/services/'' @ pk_svcName p @ ''/'')
          in if addr \<noteq> [] \<and> addr \<noteq> pk_selfAddr p then p\<lparr>grpcCli := (grpcCli p)(addr := None)\<rparr> else p)"

definition ring_section :: "(string \<Rightarrow> 'c option) \<Rightarrow> service_event \<Rightarrow> 'c picker \<Rightarrow> 'c picker" where
  "ring_section newCli ev p =
     (case ev of
        EventPut k addr \<Rightarrow>
          if addr \<noteq> [] \<and> addr \<noteq> pk_selfAddr p then
            (case newCli addr of None \<Rightarrow> p | Some cli \<Rightarrow> p\<lparr>consHash := Map_Add addr (consHash p)\<rparr>)
          else p
      | EventDelete k v \<Rightarrow>
          let addr = trim_prefix k (''/services/'' @ pk_svcName p @ ''/'')
          in if addr \<noteq> [] \<and> addr \<noteq> pk_selfAddr p then p\<lparr>consHash := Map_Remove addr (consHash p)\<rparr> else p)"

lemma handle_event_sections: "handle_event newCli ev p = ring_section newCli ev (client_section newCli ev p)"
  by (auto simp: handle_event_def client_section_def ring_section_def Let_def split: service_event.split option.split)

definition handleWatchEvents :: "(string \<Rightarrow> 'c option) \<Rightarrow> service_event list \<Rightarrow> 'c picker \<Rightarrow> 'c picker" where
  "handleWatchEvents newCli events p = fold (handle_event newCli) events p"

text \<open>The channel delivers batches of events until it is closed or the context is done.\<close>

definition watchServiceChanges :: "(string \<Rightarrow> 'c option) \<Rightarrow> service_event list list \<Rightarrow> 'c picker \<Rightarrow> 'c picker" where
  "watchServiceChanges newCli resps p = fold (handleWatchEvents newCli) resps p"

text \<open>The full update comes first; the watch only starts when it succeeds.\<close>

definition startServiceDiscovery ::
  "(string \<Rightarrow> 'c option) \<Rightarrow> (string \<times> string) list option \<Rightarrow> service_event list list \<Rightarrow> 'c picker \<Rightarrow> 'c picker"
where
  "startServiceDiscovery newCli resp resps p =
     (let (p, ok) = fetchAllServices newCli resp p
      in if ok then watchServiceChanges newCli resps p else p)"

subsection \<open>Picking\<close>

definition PickPeer :: "string \<Rightarrow> 'c picker \<Rightarrow> 'c picker \<times> string \<times> bool \<times> bool" where
  "PickPeer key p =
     (let (ch, peer) = Map_Get key (consHash p);
          p = p\<lparr>consHash := ch\<rparr>
      in if peer = [] then (p, [], False, False) else (p, peer, True, peer = pk_selfAddr p))"

subsection \<open>Every remote member has a client\<close>

definition picker_ok :: "'c picker \<Rightarrow> bool" where
  "picker_ok p \<longleftrightarrow> ring_inv (consHash p) \<and>
     members (consHash p) \<subseteq> insert (pk_selfAddr p) (dom (grpcCli p))"

lemma picker_ok_add:
  "picker_ok p \<Longrightarrow> picker_ok (p\<lparr>grpcCli := (grpcCli p)(a \<mapsto> cli), consHash := Map_Add a (consHash p)\<rparr>)"
  using ring.add_law [of "consHash p" a "[]"] by (auto simp: picker_ok_def)

lemma picker_ok_remove:
  "picker_ok p \<Longrightarrow> picker_ok (p\<lparr>grpcCli := (grpcCli p)(a := None), consHash := Map_Remove a (consHash p)\<rparr>)"
  using ring.remove_law [of "consHash p" a] by (auto simp: picker_ok_def)

lemma handle_event_ok: "picker_ok p \<Longrightarrow> picker_ok (handle_event newCli ev p)"
  using picker_ok_add picker_ok_remove
  by (auto simp: handle_event_def Let_def split: service_event.split option.split)

lemma handleWatchEvents_ok: "picker_ok p \<Longrightarrow> picker_ok (handleWatchEvents newCli evs p)"
  unfolding handleWatchEvents_def by (induction evs arbitrary: p) (auto intro: handle_event_ok)

lemma watchServiceChanges_ok: "picker_ok p \<Longrightarrow> picker_ok (watchServiceChanges newCli resps p)"
  unfolding watchServiceChanges_def by (induction resps arbitrary: p) (auto intro: handleWatchEvents_ok)

lemma fetch_services_ok:
  assumes "\<forall>(k, v)\<in>set kvs. newCli v \<noteq> None" "picker_ok p"
  shows "picker_ok (fst (fetch_services newCli kvs p)) \<and> snd (fetch_services newCli kvs p)"
  using assms
proof (induction newCli kvs p rule: fetch_services.induct)
  case (2 newCli k v kvs p)
  obtain cli where cli: "newCli v = Some cli" using "2.prems"(1) by auto
  have "picker_ok (p\<lparr>consHash := Map_Add v (consHash p), grpcCli := (grpcCli p)(v \<mapsto> cli)\<rparr>)"
    using picker_ok_add [OF "2.prems"(2), of v cli] by (simp add: picker_ok_def)
  then show ?case using "2.prems" "2.IH" cli by (simp add: Let_def)
qed simp

lemma new_picker_ok:
  assumes "NewClientPicker self svcName None [] True = Some p"
  shows "picker_ok p"
proof -
  have "sound (NewConsistentHash self [])" using new_sound [of self "[]"] by simp
  moreover have "members (NewConsistentHash self []) = {}" by (simp add: members_def NewConsistentHash_def)
  ultimately show ?thesis using assms by (auto simp: NewClientPicker_def sound_def picker_ok_def)
qed

text \<open>Between the two sections of an event, only the address that just lost its client can be a member
  without one.\<close>

definition losing :: "service_event \<Rightarrow> 'c picker \<Rightarrow> string option" where
  "losing ev p = (case ev of EventPut k v \<Rightarrow> None
     | EventDelete k v \<Rightarrow> Some (trim_prefix k (''/services/'' @ pk_svcName p @ ''/'')))"

definition picker_ok_but :: "string option \<Rightarrow> 'c picker \<Rightarrow> bool" where
  "picker_ok_but b p \<longleftrightarrow> ring_inv (consHash p) \<and>
     members (consHash p) \<subseteq> insert (pk_selfAddr p) (dom (grpcCli p) \<union> set_option b)"

lemma client_section_ok: "picker_ok p \<Longrightarrow> picker_ok_but (losing ev p) (client_section newCli ev p)"
  by (auto simp: picker_ok_def picker_ok_but_def losing_def client_section_def Let_def
      split: service_event.split option.split)

lemma PickPeer_client:
  assumes "picker_ok_but b p" "PickPeer key p = (p', peer, ok, self)" "ok" "\<not> self"
  shows "peer \<noteq> [] \<and> (grpcCli p peer \<noteq> None \<or> b = Some peer)"
proof -
  have peer: "peer = route (consHash p) key" "peer \<noteq> []" "peer \<noteq> pk_selfAddr p"
    using assms(2-4) by (auto simp: PickPeer_def route_def case_prod_beta Let_def split: if_splits)
  have inv: "ring_inv (consHash p)" using assms(1) by (simp add: picker_ok_but_def)
  have ne: "keys (consHash p) \<noteq> []" using peer route_empty by metis
  obtain x where "route (consHash p) key = owner_of (consHash p) x"
    by (rule route_next [OF ring_invD(1) [OF inv] ne, of key])
  then have "hashMap (consHash p) x = Some peer" using peer by (auto simp: owner_of_def split: option.splits)
  then have "peer \<in> members (consHash p)" using ring_invD(4) [OF inv] by blast
  then show ?thesis using assms(1) peer by (auto simp: picker_ok_but_def)
qed


definition small_picker :: "unit picker" where
  "small_picker =
     \<lparr>pk_selfAddr = ''a'', pk_svcName = ''cache'',
      consHash = NewConsistentHash ''a'' [\<lambda>m. m\<lparr>config := DefaultConfig\<lparr>DefaultReplicas := 2, HashFunc := \<lambda>_. 9\<rparr>\<rparr>],
      grpcCli = Map.empty\<rparr>"


text \<open>A failing client creation during the initial fetch leaves a member without a client: it was
  added to the ring before, and the fetch returns there.\<close>

lemma fetch_error_leaves_member:
  assumes "v \<noteq> []" "v \<noteq> pk_selfAddr p" "newCli v = None" "ring_inv (consHash p)"
  shows "v \<in> members (consHash (fst (fetchAllServices newCli (Some ((k, v) # kvs)) p)))"
    "grpcCli (fst (fetchAllServices newCli (Some ((k, v) # kvs)) p)) = grpcCli p"
  using assms ring.add_law [of "consHash p" v "[]"] by (simp_all add: fetchAllServices_def Let_def)

end
