(* ===== verification/Registry.thy ===== *)
theory Registry
  imports Go_Std
begin

text \<open>
  Service registration, \<open>internal/registry/registry.go\<close>: \<open>Register\<close> with the goroutine that keeps the
  lease, and \<open>getLocalIP\<close>.

  The etcd client and the network interfaces are outside of the program. What they answer is an
  input, the record \<open>reg_env\<close>; the calls the code makes are a result, in order. \<^term>\<open>None\<close> is a panic.
\<close>

subsection \<open>The local address\<close>

text \<open>Interface addresses: IP networks, with the bytes of their address, or something else.\<close>

datatype iface_addr = IPNet "nat list" | Other_addr

text \<open>The methods \<open>To4\<close>, \<open>IsLoopback\<close> and \<open>String\<close> (of an IPv4 address) of \<open>net.IP\<close>.\<close>

definition To4 :: "nat list \<Rightarrow> nat list option" where
  "To4 ip =
     (if length ip = 4 then Some ip
      else if length ip = 16 \<and> take 12 ip = replicate 10 0 @ [255, 255] then Some (drop 12 ip)
      else None)"

definition IsLoopback :: "nat list \<Rightarrow> bool" where
  "IsLoopback ip = (case To4 ip of Some ip4 \<Rightarrow> hd ip4 = 127 | None \<Rightarrow> ip = replicate 15 0 @ [1])"

definition IP_String :: "nat list \<Rightarrow> string" where
  "IP_String ip4 = dec (ip4 ! 0) @ ''.'' @ dec (ip4 ! 1) @ ''.'' @ dec (ip4 ! 2) @ ''.'' @ dec (ip4 ! 3)"

fun first_ip :: "iface_addr list \<Rightarrow> string option" where
  "first_ip [] = None"
| "first_ip (IPNet ip # addrs) =
     (if \<not> IsLoopback ip then
        (case To4 ip of Some ip4 \<Rightarrow> Some (IP_String ip4) | None \<Rightarrow> first_ip addrs)
      else first_ip addrs)"
| "first_ip (Other_addr # addrs) = first_ip addrs"

definition getLocalIP :: "iface_addr list option \<Rightarrow> string option" where
  "getLocalIP addrs = (case addrs of None \<Rightarrow> None | Some as \<Rightarrow> first_ip as)"

subsection \<open>Registration\<close>

record registry_config =
  Endpoints :: "string list"
  DialTimeout :: int

definition registry_DefaultConfig :: registry_config where
  "registry_DefaultConfig = \<lparr>Endpoints = [''localhost:2379''], DialTimeout = 5 * 1000000000\<rparr>"

datatype etcd_call =
    Etcd_New "string list" int
  | Etcd_Grant int
  | Etcd_Put string string int
  | Etcd_KeepAlive int
  | Etcd_Revoke int
  | Etcd_Close

record reg_env =
  new_ok :: bool
  interface_addrs :: "iface_addr list option"
  grant :: "int option"
  put_ok :: bool
  keepalive_ok :: bool

datatype reg_error = New_failed | Local_ip_failed | Lease_failed | Put_failed | KeepAlive_failed

definition service_key :: "string \<Rightarrow> string \<Rightarrow> string" where
  "service_key svcName addr = ''/services/'' @ svcName @ ''/'' @ addr"

text \<open>The address under which a node registers: the local IP completes one that is only a port.\<close>

definition full_addr :: "string \<Rightarrow> string \<Rightarrow> string" where
  "full_addr localIP addr = (if hd addr = CHR '':'' then localIP @ addr else addr)"

text \<open>The calls made, and an error or the lease that the goroutine keeps. Reading \<open>addr[0]\<close> of an
  empty address panics.\<close>

definition Register :: "reg_env \<Rightarrow> string \<Rightarrow> string \<Rightarrow> (etcd_call list \<times> (reg_error + int)) option" where
  "Register env svcName addr =
     (let c1 = [Etcd_New (Endpoints registry_DefaultConfig) (DialTimeout registry_DefaultConfig)]
      in if \<not> new_ok env then Some (c1, Inl New_failed)
         else case getLocalIP (interface_addrs env) of
           None \<Rightarrow> Some (c1 @ [Etcd_Close], Inl Local_ip_failed)
         | Some localIP \<Rightarrow>
             if addr = [] then None
             else let addr = full_addr localIP addr; c2 = c1 @ [Etcd_Grant 10]
                  in (case grant env of
                        None \<Rightarrow> Some (c2 @ [Etcd_Close], Inl Lease_failed)
                      | Some lease \<Rightarrow>
                          let key = service_key svcName addr; c3 = c2 @ [Etcd_Put key addr lease]
                          in if \<not> put_ok env then Some (c3 @ [Etcd_Close], Inl Put_failed)
                             else let c4 = c3 @ [Etcd_KeepAlive lease]
                                  in if \<not> keepalive_ok env then Some (c4 @ [Etcd_Close], Inl KeepAlive_failed)
                                     else Some (c4, Inr lease)))"

text \<open>The goroutine, one event per round; the flag says that it has returned (its deferred \<open>Close\<close>
  included).\<close>

datatype keep_event = Stop_closed | Lease_renewed int | KeepAlive_closed

fun keep_loop :: "int \<Rightarrow> keep_event list \<Rightarrow> etcd_call list \<times> bool" where
  "keep_loop lease [] = ([], False)"
| "keep_loop lease (Stop_closed # evs) = ([Etcd_Revoke lease, Etcd_Close], True)"
| "keep_loop lease (KeepAlive_closed # evs) = ([Etcd_Close], True)"
| "keep_loop lease (Lease_renewed i # evs) = keep_loop lease evs"

subsection \<open>Lemmas\<close>

text \<open>The local address is the first IPv4 address that is not a loopback address.\<close>

fun usable_ip :: "iface_addr \<Rightarrow> string option" where
  "usable_ip (IPNet ip) = (if IsLoopback ip then None else map_option IP_String (To4 ip))"
| "usable_ip Other_addr = None"

lemma first_ip_usable:
  "first_ip addrs = (case List.map_filter usable_ip addrs of [] \<Rightarrow> None | a # _ \<Rightarrow> Some a)"
  by (induction addrs rule: first_ip.induct) (auto simp: map_filter_simps split: option.split)

lemma first_ip_Some: "first_ip addrs = Some a \<Longrightarrow> \<exists>ip. a = IP_String ip"
  by (induction addrs rule: first_ip.induct) (auto split: if_splits option.splits)

lemma IP_String_nonempty: "IP_String ip \<noteq> []"
  by (simp add: IP_String_def)

lemma getLocalIP_nonempty: "getLocalIP a = Some ip \<Longrightarrow> ip \<noteq> []"
  by (auto simp: getLocalIP_def IP_String_nonempty dest!: first_ip_Some split: option.splits)

lemma full_addr_nonempty: "addr \<noteq> [] \<Longrightarrow> full_addr ip addr \<noteq> []"
  by (simp add: full_addr_def)

text \<open>The shape of a successful registration.\<close>

lemma Register_ok:
  assumes "Register env svc addr = Some (calls, Inr lease)"
  obtains ip where "getLocalIP (interface_addrs env) = Some ip" "addr \<noteq> []" "grant env = Some lease"
    "calls = [Etcd_New (Endpoints registry_DefaultConfig) (DialTimeout registry_DefaultConfig), Etcd_Grant 10,
       Etcd_Put (service_key svc (full_addr ip addr)) (full_addr ip addr) lease, Etcd_KeepAlive lease]"
  using assms by (auto simp: Register_def Let_def split: if_splits option.splits)

lemma keep_loop_calls:
  "keep_loop lease evs = (calls, fin) \<Longrightarrow>
     (if fin then calls = [Etcd_Close] \<or> calls = [Etcd_Revoke lease, Etcd_Close] else calls = [])"
  by (induction lease evs rule: keep_loop.induct) auto

end
