(* ===== verification/Redis.thy ===== *)
theory Redis
  imports Prelude
begin

text \<open>
  The redis client of \<open>internal/database\<close>: its configuration, \<open>NewRedis\<close> and the three commands.

  The go-redis client is a third-party package. A client is known by the options it was made with,
  and its commands are functions on a world \<open>'w\<close>, the record \<open>redis_cmds\<close>: \<open>Get\<close> answers a value or an
  error (a missing key is the error \<open>redis.Nil\<close>), \<open>Set\<close> takes an expiration, \<open>Del\<close> a list of keys.
\<close>

record db_config =
  RedisHost :: string
  RedisPort :: string
  RedisPassword :: string
  RedisDB :: int

definition db_DefaultConfig :: db_config where
  "db_DefaultConfig = \<lparr>RedisHost = ''localhost'', RedisPort = ''6379'', RedisPassword = [], RedisDB = 0\<rparr>"

record redis_options =
  Addr :: string
  Password :: string
  DB :: int

record redis = db_config +
  RedisClient :: redis_options

definition NewRedis :: "db_config \<Rightarrow> redis" where
  "NewRedis cfg =
     (let redisClient =
            \<lparr>Addr = RedisHost db_DefaultConfig @ '':'' @ RedisPort db_DefaultConfig,
             Password = RedisPassword db_DefaultConfig, DB = RedisDB db_DefaultConfig\<rparr>
      in \<lparr>RedisHost = RedisHost db_DefaultConfig, RedisPort = RedisPort db_DefaultConfig,
          RedisPassword = RedisPassword db_DefaultConfig, RedisDB = RedisDB db_DefaultConfig,
          RedisClient = redisClient\<rparr>)"

record 'w redis_cmds =
  cmd_Get :: "redis_options \<Rightarrow> string \<Rightarrow> 'w \<Rightarrow> 'w \<times> string option"
  cmd_Set :: "redis_options \<Rightarrow> string \<Rightarrow> string \<Rightarrow> int \<Rightarrow> 'w \<Rightarrow> 'w \<times> bool"
  cmd_Del :: "redis_options \<Rightarrow> string list \<Rightarrow> 'w \<Rightarrow> 'w \<times> int option"

definition Redis_Get :: "'w redis_cmds \<Rightarrow> redis \<Rightarrow> string \<Rightarrow> 'w \<Rightarrow> 'w \<times> string option" where
  "Redis_Get cmds r key w = cmd_Get cmds (RedisClient r) key w"

definition Redis_Set :: "'w redis_cmds \<Rightarrow> redis \<Rightarrow> string \<Rightarrow> string \<Rightarrow> 'w \<Rightarrow> 'w \<times> bool" where
  "Redis_Set cmds r key val w = cmd_Set cmds (RedisClient r) key val 0 w"

definition Redis_Delete :: "'w redis_cmds \<Rightarrow> redis \<Rightarrow> string \<Rightarrow> 'w \<Rightarrow> 'w \<times> bool" where
  "Redis_Delete cmds r key w =
     (let (w, n) = cmd_Del cmds (RedisClient r) [key] w in (w, n \<noteq> None))"

text \<open>What the commands of the client promise: a read changes nothing, a write without expiration
  stays, and a deletion takes the keys away. \<open>rmap\<close> is what the server holds.\<close>

definition client_laws :: "'w redis_cmds \<Rightarrow> redis_options \<Rightarrow> ('w \<Rightarrow> string \<rightharpoonup> string) \<Rightarrow> bool" where
  "client_laws cmds opts rmap \<longleftrightarrow>
     (\<forall>k w. cmd_Get cmds opts k w = (w, rmap w k)) \<and>
     (\<forall>k v w. rmap (fst (cmd_Set cmds opts k v 0 w)) = (rmap w)(k \<mapsto> v)) \<and>
     (\<forall>ks w. rmap (fst (cmd_Del cmds opts ks w)) = (\<lambda>k. if k \<in> set ks then None else rmap w k))"

lemma Redis_laws:
  assumes "client_laws cmds (RedisClient r) rmap"
  shows "Redis_Get cmds r k w = (w, rmap w k)" "rmap (fst (Redis_Set cmds r k v w)) = (rmap w)(k \<mapsto> v)"
    "rmap (fst (Redis_Delete cmds r k w)) = (rmap w)(k := None)"
  using assms by (auto simp: client_laws_def Redis_Get_def Redis_Set_def Redis_Delete_def case_prod_beta fun_eq_iff)

lemma NewRedis_ignores_config: "NewRedis cfg = NewRedis cfg'"
  by (simp add: NewRedis_def)

end
