(* ===== verification/Cache_Server.thy ===== *)
theory Cache_Server
  imports Peer_Picker Lru2_Run Registry Redis
begin

text \<open>
  The request handlers of \<open>internal/server/server.go\<close> and the cache group of \<open>group.go\<close>.

  Redis and the remote nodes are outside of the program: \<open>env\<close> holds what the handlers call, as
  functions on a world \<open>'w\<close>, and \<open>'c\<close> is the type of the gRPC clients. A handler answers \<open>None\<close> on a
  runtime panic (a nil picker, group or client, or a nil value in the cache), otherwise with the new
  server, the new world and the response: a value, or \<open>None\<close> for an error. \<open>singleflight.Do\<close> without
  other callers runs its function (\<open>Single_Flight\<close> has the general case). The clock readings of the
  store are parameters, the calls of \<open>OnEvicted\<close> are dropped. The line that \<open>Get\<close> prints after \<open>PickPeer\<close> is
  modelled where standard output is (\<open>print_get\<close> of \<open>Console\<close>).
\<close>

subsection \<open>State and environment\<close>

record ('w, 'c) env =
  redis_Get :: "string \<Rightarrow> 'w \<Rightarrow> 'w \<times> string option"
  redis_Set :: "string \<Rightarrow> string \<Rightarrow> 'w \<Rightarrow> 'w \<times> bool"
  redis_Delete :: "string \<Rightarrow> 'w \<Rightarrow> 'w \<times> bool"
  peer_Get :: "'c \<Rightarrow> string \<Rightarrow> 'w \<Rightarrow> 'w \<times> string option"
  peer_Set :: "'c \<Rightarrow> string \<Rightarrow> string \<Rightarrow> 'w \<Rightarrow> 'w \<times> string option"
  peer_Delete :: "'c \<Rightarrow> string \<Rightarrow> 'w \<Rightarrow> 'w \<times> bool option"

text \<open>The redis entries of the environment are the wrapper of \<open>internal/database\<close> around a client.\<close>

definition server_env :: "'w redis_cmds \<Rightarrow> redis \<Rightarrow> ('w, 'c) env \<Rightarrow> ('w, 'c) env" where
  "server_env cmds r env =
     env\<lparr>redis_Get := Redis_Get cmds r, redis_Set := Redis_Set cmds r, redis_Delete := Redis_Delete cmds r\<rparr>"

text \<open>\<open>stopCh_closed\<close>: the stop channel has been closed; \<open>grpcServer\<close>: the field is not nil; \<open>health\<close>: the
  statuses set on the health service, which only \<open>Start\<close> creates. \<open>singleflight\<close> is modelled in
  \<open>Single_Flight\<close>.\<close>

text \<open>The cache of a \<open>Group\<close> is a \<open>Store\<close>, and \<open>NewStore\<close> makes only two-level stores.\<close>

record cache_group =
  gr_svcName :: string
  gr_selfAddr :: string
  gr_cache :: "string lru2"
  gr_opts :: options

datatype serving_status = SERVING | NOT_SERVING

record 'c server =
  sv_svcName :: string
  sv_selfAddr :: string
  clientPicker :: "'c picker option"
  groups :: "cache_group option"
  stopCh_closed :: bool
  sv_redis :: redis
  grpcServer :: bool
  health :: "string \<rightharpoonup> serving_status"

definition NewServer :: "string \<Rightarrow> string \<Rightarrow> 'c server" where
  "NewServer self svcName =
     \<lparr>sv_svcName = svcName, sv_selfAddr = self, clientPicker = None, groups = None, stopCh_closed = False,
      sv_redis = NewRedis db_DefaultConfig, grpcServer = False, health = Map.empty\<rparr>"

definition NewGroup :: "string \<Rightarrow> string \<Rightarrow> options \<Rightarrow> cache_type \<Rightarrow> cache_group" where
  "NewGroup svcName self opts cacheType =
     \<lparr>gr_svcName = svcName, gr_selfAddr = self, gr_cache = NewStore cacheType opts, gr_opts = opts\<rparr>"

definition RegisterPeersToServer :: "'c picker option \<Rightarrow> 'c server \<Rightarrow> 'c server" where
  "RegisterPeersToServer picker s = s\<lparr>clientPicker := picker\<rparr>"

definition RegisterGroupToServer :: "cache_group \<Rightarrow> 'c server \<Rightarrow> 'c server" where
  "RegisterGroupToServer grp s = s\<lparr>groups := Some grp\<rparr>"

text \<open>The node puts itself on its own ring.\<close>

definition join_ring :: "'c server \<Rightarrow> 'c server" where
  "join_ring s =
     s\<lparr>clientPicker := map_option (\<lambda>p. p\<lparr>consHash := Map_Add (sv_selfAddr s) (consHash p)\<rparr>) (clientPicker s)\<rparr>"

text \<open>\<open>Start\<close>: the answers of etcd to the registration and whether \<open>net.Listen\<close> succeeds are inputs. It
  returns the server, the calls made to etcd and the error, if any.\<close>

datatype start_error = Picker_nil | Groups_nil | Listen_failed

definition Start ::
  "reg_env \<Rightarrow> bool \<Rightarrow> 'c server \<Rightarrow> ('c server \<times> etcd_call list \<times> start_error option) option"
where
  "Start renv listen_ok s =
     (if clientPicker s = None then Some (s, [], Some Picker_nil)
      else if groups s = None then Some (s, [], Some Groups_nil)
      else do {
        (calls, ignored) \<leftarrow> Register renv (sv_svcName s) (sv_selfAddr s);
        let s = join_ring s;
        if \<not> listen_ok then Some (s, calls, Some Listen_failed)
        else do {
          let s = s\<lparr>grpcServer := True, health := Map.empty\<rparr>;
          let s = s\<lparr>health := (health s)(sv_svcName s \<mapsto> SERVING)\<rparr>;
          let s = s\<lparr>health := (health s)(sv_svcName s \<mapsto> NOT_SERVING)\<rparr>;
          Some (s, calls, None) } })"

definition pick :: "string \<Rightarrow> 'c server \<Rightarrow> ('c server \<times> string \<times> bool \<times> bool) option" where
  "pick key s = do {
     p \<leftarrow> clientPicker s;
     let (p, peer, ok, self) = PickPeer key p;
     Some (s\<lparr>clientPicker := Some p\<rparr>, peer, ok, self) }"

definition client_of :: "'c server \<Rightarrow> string \<Rightarrow> 'c option" where
  "client_of s peer = do { p \<leftarrow> clientPicker s; grpcCli p peer }"

subsection \<open>Get\<close>

text \<open>Filling the cache after a load.\<close>

definition get_fill :: "string \<Rightarrow> string \<Rightarrow> int \<Rightarrow> 'c server \<Rightarrow> 'c server option" where
  "get_fill key val now s = do {
     g \<leftarrow> groups s;
     (st, evs) \<leftarrow> Set (gr_cache g) key (Some val) now;
     Some (s\<lparr>groups := Some (g\<lparr>gr_cache := st\<rparr>)\<rparr>) }"

definition Server_Get ::
  "('w, 'c) env \<Rightarrow> string \<Rightarrow> int \<times> int \<times> int \<Rightarrow> 'c server \<Rightarrow> 'w \<Rightarrow> ('c server \<times> 'w \<times> string option) option"
where
  "Server_Get env key clk s w = do {
     let (now, now', now'') = clk;
     (s, peer, ok, self) \<leftarrow> pick key s;
     if \<not> ok \<or> peer = [] then Some (s, w, None)
     else if self then do {
       g \<leftarrow> groups s;
       (st, (v, ok), evs) \<leftarrow> Get (gr_cache g) key now now';
       let s = s\<lparr>groups := Some (g\<lparr>gr_cache := st\<rparr>)\<rparr>;
       if \<not> ok then
         (case redis_Get env key w of
            (w, None) \<Rightarrow> Some (s, w, None)
          | (w, Some val) \<Rightarrow> do { s \<leftarrow> get_fill key val now'' s; Some (s, w, Some val) })
       else do { val \<leftarrow> v; Some (s, w, Some val) } }
     else do {
       cli \<leftarrow> client_of s peer;
       let (w, resp) = peer_Get env cli key w;
       Some (s, w, resp) } }"

subsection \<open>Set and Delete\<close>

definition Server_Set ::
  "('w, 'c) env \<Rightarrow> string \<Rightarrow> string \<Rightarrow> 'c server \<Rightarrow> 'w \<Rightarrow> ('c server \<times> 'w \<times> string option) option"
where
  "Server_Set env key val s w = do {
     (s, peer, ok, self) \<leftarrow> pick key s;
     if \<not> ok \<or> peer = [] then Some (s, w, None)
     else if self then do {
       let (w, ignored) = redis_Set env key val w;
       g \<leftarrow> groups s;
       (st, deleted, evs) \<leftarrow> Delete (gr_cache g) key;
       Some (s\<lparr>groups := Some (g\<lparr>gr_cache := st\<rparr>)\<rparr>, w, Some val) }
     else do {
       cli \<leftarrow> client_of s peer;
       let (w, ignored) = peer_Set env cli key val w;
       Some (s, w, Some val) } }"

definition Server_Delete ::
  "('w, 'c) env \<Rightarrow> string \<Rightarrow> 'c server \<Rightarrow> 'w \<Rightarrow> ('c server \<times> 'w \<times> bool option) option"
where
  "Server_Delete env key s w = do {
     (s, peer, ok, self) \<leftarrow> pick key s;
     if \<not> ok \<or> peer = [] then Some (s, w, None)
     else if self then do {
       let (w, ignored) = redis_Delete env key w;
       g \<leftarrow> groups s;
       (st, deleted, evs) \<leftarrow> Delete (gr_cache g) key;
       Some (s\<lparr>groups := Some (g\<lparr>gr_cache := st\<rparr>)\<rparr>, w, Some True) }
     else do {
       cli \<leftarrow> client_of s peer;
       let (w, ignored) = peer_Delete env cli key w;
       Some (s, w, Some True) } }"

subsection \<open>Local entry points\<close>

definition SetToCache :: "string \<Rightarrow> string \<Rightarrow> int \<Rightarrow> 'c server \<Rightarrow> 'c server option" where
  "SetToCache key val now s = get_fill key val now s"

definition SetToCacheAndRedis ::
  "('w, 'c) env \<Rightarrow> string \<Rightarrow> string \<Rightarrow> 'c server \<Rightarrow> 'w \<Rightarrow> ('c server \<times> 'w \<times> bool) option"
where
  "SetToCacheAndRedis env key val s w = do {
     (s, w, flag) \<leftarrow> Server_Set env key val s w;
     Some (s, w, flag \<noteq> None \<and> flag \<noteq> Some []) }"

definition DeleteCacheAndRedis ::
  "('w, 'c) env \<Rightarrow> string \<Rightarrow> 'c server \<Rightarrow> 'w \<Rightarrow> ('c server \<times> 'w \<times> bool) option"
where
  "DeleteCacheAndRedis env key s w = do {
     (s, w, flag) \<leftarrow> Server_Delete env key s w;
     Some (s, w, flag = Some True) }"

definition GetFromCacheAndRedis ::
  "('w, 'c) env \<Rightarrow> string \<Rightarrow> int \<times> int \<times> int \<Rightarrow> 'c server \<Rightarrow> 'w \<Rightarrow> ('c server \<times> 'w \<times> string option) option"
where
  "GetFromCacheAndRedis env key clk s w = Server_Get env key clk s w"

subsection \<open>The store of a server\<close>

text \<open>The handlers over the store inside of the group, for the proofs.\<close>

definition store_of :: "'c server \<Rightarrow> string lru2 option" where
  "store_of s = map_option gr_cache (groups s)"

definition put_store :: "string lru2 \<Rightarrow> 'c server \<Rightarrow> 'c server" where
  "put_store st s = s\<lparr>groups := Some ((the (groups s))\<lparr>gr_cache := st\<rparr>)\<rparr>"

lemma put_store_simps [simp]:
  "store_of (put_store st s) = Some st" "clientPicker (put_store st s) = clientPicker s"
  "sv_svcName (put_store st s) = sv_svcName s" "sv_selfAddr (put_store st s) = sv_selfAddr s"
  "stopCh_closed (put_store st s) = stopCh_closed s" "grpcServer (put_store st s) = grpcServer s"
  by (simp_all add: put_store_def store_of_def)

lemma put_store_twice [simp]: "put_store st (put_store st' s) = put_store st s"
  by (simp add: put_store_def)

lemma store_ofD: "store_of s = Some st \<Longrightarrow> \<exists>g. groups s = Some g \<and> gr_cache g = st"
  by (auto simp: store_of_def)

lemma store_of_same: "groups s' = groups s \<Longrightarrow> store_of s' = store_of s"
  by (simp add: store_of_def)

lemma store_of_simps [simp]:
  "store_of (s\<lparr>clientPicker := p\<rparr>) = store_of s" "store_of (s\<lparr>grpcServer := b\<rparr>) = store_of s"
  "store_of (s\<lparr>health := h\<rparr>) = store_of s" "store_of (s\<lparr>groups := g\<rparr>) = map_option gr_cache g"
  "store_of (s\<lparr>stopCh_closed := b\<rparr>) = store_of s"
  by (simp_all add: store_of_def)

lemma get_fill_store:
  "get_fill key val now s = do {
     st \<leftarrow> store_of s;
     (st, evs) \<leftarrow> Set st key (Some val) now;
     Some (put_store st s) }"
  by (cases "groups s") (simp_all add: get_fill_def store_of_def put_store_def)

lemma Server_Get_store:
  "Server_Get env key clk s w = do {
     let (now, now', now'') = clk;
     (s, peer, ok, self) \<leftarrow> pick key s;
     if \<not> ok \<or> peer = [] then Some (s, w, None)
     else if self then do {
       st \<leftarrow> store_of s;
       (st, (v, ok), evs) \<leftarrow> Get st key now now';
       let s = put_store st s;
       if \<not> ok then
         (case redis_Get env key w of
            (w, None) \<Rightarrow> Some (s, w, None)
          | (w, Some val) \<Rightarrow> do { s \<leftarrow> get_fill key val now'' s; Some (s, w, Some val) })
       else do { val \<leftarrow> v; Some (s, w, Some val) } }
     else do {
       cli \<leftarrow> client_of s peer;
       let (w, resp) = peer_Get env cli key w;
       Some (s, w, resp) } }"
  unfolding Server_Get_def
  by (cases "pick key s", simp_all split: prod.split)
    (auto simp: store_of_def put_store_def split: Option.bind_split)

lemma Server_Set_store:
  "Server_Set env key val s w = do {
     (s, peer, ok, self) \<leftarrow> pick key s;
     if \<not> ok \<or> peer = [] then Some (s, w, None)
     else if self then do {
       let (w, ignored) = redis_Set env key val w;
       st \<leftarrow> store_of s;
       (st, deleted, evs) \<leftarrow> Delete st key;
       Some (put_store st s, w, Some val) }
     else do {
       cli \<leftarrow> client_of s peer;
       let (w, ignored) = peer_Set env cli key val w;
       Some (s, w, Some val) } }"
  unfolding Server_Set_def
  by (cases "pick key s", simp_all split: prod.split)
    (auto simp: store_of_def put_store_def split: Option.bind_split)

lemma Server_Delete_store:
  "Server_Delete env key s w = do {
     (s, peer, ok, self) \<leftarrow> pick key s;
     if \<not> ok \<or> peer = [] then Some (s, w, None)
     else if self then do {
       let (w, ignored) = redis_Delete env key w;
       st \<leftarrow> store_of s;
       (st, deleted, evs) \<leftarrow> Delete st key;
       Some (put_store st s, w, Some True) }
     else do {
       cli \<leftarrow> client_of s peer;
       let (w, ignored) = peer_Delete env cli key w;
       Some (s, w, Some True) } }"
  unfolding Server_Delete_def
  by (cases "pick key s", simp_all split: prod.split)
    (auto simp: store_of_def put_store_def split: Option.bind_split)

end
