(* ===== verification/Cache_Server_Correct.thy ===== *)
theory Cache_Server_Correct
  imports Cache_Server
begin

text \<open>
  A node in front of redis. For the keys it owns, the cache is transparent: as long as requests are
  handled one after the other, a client sees what redis alone would answer. The second result
  shows that concurrent requests can break that.
\<close>

subsection \<open>What redis promises\<close>

definition redis_laws :: "('w, 'c) env \<Rightarrow> ('w \<Rightarrow> string \<rightharpoonup> string) \<Rightarrow> bool" where
  "redis_laws env rmap \<longleftrightarrow>
     (\<forall>k w. redis_Get env k w = (w, rmap w k)) \<and>
     (\<forall>k v w. rmap (fst (redis_Set env k v w)) = (rmap w)(k \<mapsto> v)) \<and>
     (\<forall>k w. rmap (fst (redis_Delete env k w)) = (rmap w)(k := None))"

lemma redis_lawsD:
  assumes "redis_laws env rmap"
  shows "redis_Get env k w = (w, rmap w k)" "rmap (fst (redis_Set env k v w)) = (rmap w)(k \<mapsto> v)"
    "rmap (fst (redis_Delete env k w)) = (rmap w)(k := None)"
  using assms by (simp_all add: redis_laws_def)

text \<open>The wrapper around a client that keeps its promises keeps these.\<close>

lemma redis_laws_client: "client_laws cmds (RedisClient r) rmap \<Longrightarrow> redis_laws (server_env cmds r env) rmap"
  by (auto simp: redis_laws_def server_env_def Redis_laws fun_eq_iff)

subsection \<open>A node and its keys\<close>

text \<open>\<open>owns K s\<close>: the ring of the node routes the keys of \<open>K\<close> to the node itself. \<open>coherent_on K m s\<close>: of
  these keys, every visible cache entry holds what redis, \<open>m\<close>, holds.\<close>

definition owns :: "string set \<Rightarrow> 'c server \<Rightarrow> bool" where
  "owns K s \<longleftrightarrow> (\<exists>p. clientPicker s = Some p \<and> pk_selfAddr p \<noteq> [] \<and>
     (\<forall>k\<in>K. route (consHash p) k = pk_selfAddr p))"

definition cached :: "'c server \<Rightarrow> string \<Rightarrow> (string option \<times> int) option" where
  "cached s k = (case store_of s of Some st \<Rightarrow> sview st k | None \<Rightarrow> None)"

definition coherent_on :: "string set \<Rightarrow> (string \<rightharpoonup> string) \<Rightarrow> 'c server \<Rightarrow> bool" where
  "coherent_on K m s \<longleftrightarrow> owns K s \<and> (\<exists>st. store_of s = Some st \<and> store_inv st) \<and>
     (\<forall>k\<in>K. \<forall>v e. cached s k = Some (v, e) \<longrightarrow> (\<exists>x. v = Some x \<and> m k = Some x))"

abbreviation coherent :: "(string \<rightharpoonup> string) \<Rightarrow> 'c server \<Rightarrow> bool" where
  "coherent m s \<equiv> coherent_on UNIV m s"

lemma route_same_ring: "same_ring m m' \<Longrightarrow> route m' k = route m k"
  by (simp add: same_ring_def route_def Map_Get_def Let_def owner_of_def)

lemma pick_self:
  assumes "owns K s" "k \<in> K"
  obtains s' self where "pick k s = Some (s', self, True, True)" "self \<noteq> []" "owns K s'" "store_of s' = store_of s"
proof -
  obtain p where p: "clientPicker s = Some p" "pk_selfAddr p \<noteq> []" "\<forall>k\<in>K. route (consHash p) k = pk_selfAddr p"
    using assms by (auto simp: owns_def)
  let ?p = "p\<lparr>consHash := fst (Map_Get k (consHash p))\<rparr>"
  have "PickPeer k p = (?p, pk_selfAddr p, True, True)"
    using p(2,3) assms(2) by (simp add: PickPeer_def route_def case_prod_beta Let_def)
  moreover have "route (consHash ?p) k' = pk_selfAddr ?p" if "k' \<in> K" for k'
    using p(3) that route_same_ring [OF Map_Get_same [of "consHash p" k]] by simp
  ultimately show thesis
    using that [of "s\<lparr>clientPicker := Some ?p\<rparr>" "pk_selfAddr p"] p(1,2) by (simp add: pick_def owns_def)
qed

subsection \<open>Set and Delete\<close>

lemma coherent_forget:
  assumes "coherent_on K m s" "owns K s'" "store_of s' = Some st" "store_inv st" "m' = m(k := x)"
    and "sview st k = None" "\<forall>k'. k' \<noteq> k \<longrightarrow> sview st k' = cached s k'"
  shows "coherent_on K m' s'"
  unfolding coherent_on_def
proof (intro conjI ballI allI impI)
  fix k' v e assume k': "k' \<in> K" "cached s' k' = Some (v, e)"
  then have c: "sview st k' = Some (v, e)" using assms(3) by (simp add: cached_def)
  then have "k' \<noteq> k" using assms(6) by auto
  then show "\<exists>x. v = Some x \<and> m' k' = Some x"
    using c k'(1) assms(1,5,7) by (simp add: coherent_on_def)
qed (use assms in auto)

lemma delete_coherent:
  assumes "coherent_on K m s" "owns K s1" "store_of s1 = store_of s"
  obtains st st' b evs where "store_of s1 = Some st" "Delete st k = Some (st', b, evs)"
    "coherent_on K (m(k := x)) (put_store st' s1)"
proof -
  obtain st where st: "store_of s = Some st" "store_inv st" using assms(1) by (auto simp: coherent_on_def)
  obtain st' evs where D: "Delete st k = Some (st', sview st k \<noteq> None, evs)" "store_inv st'"
    "sview st' = (sview st)(k := None)"
    by (rule delete_spec [OF st(2), of k])
  have "coherent_on K (m(k := x)) (put_store st' s1)"
    by (rule coherent_forget [OF assms(1), where k = k])
       (use D(2,3) assms(2) st(1) in \<open>auto simp: owns_def cached_def\<close>)
  then show thesis using that D(1) st(1) assms(3) by simp
qed

lemma Server_Set_coherent:
  assumes "redis_laws env rmap" "coherent_on K (rmap w) s" "k \<in> K"
  obtains s' w' where "Server_Set env k v s w = Some (s', w', Some v)" "coherent_on K (rmap w') s'"
    "rmap w' = (rmap w)(k \<mapsto> v)" "cached s' k = None"
proof -
  obtain s1 self where P: "pick k s = Some (s1, self, True, True)" "self \<noteq> []" "owns K s1" "store_of s1 = store_of s"
    using pick_self [of K s k] assms(2,3) by (auto simp: coherent_on_def)
  obtain st st' b evs where D: "store_of s1 = Some st" "Delete st k = Some (st', b, evs)"
    "coherent_on K ((rmap w)(k := Some v)) (put_store st' s1)"
    by (rule delete_coherent [OF assms(2) P(3,4), of k "Some v"])
  have "store_inv st" using assms(2) D(1) P(4) by (simp add: coherent_on_def)
  then have "sview st' k = None" using delete_spec [of st k] D(2) by (metis fun_upd_same option.inject prod.inject)
  then show thesis
    using that [of "put_store st' s1" "fst (redis_Set env k v w)"] P(1-3) D redis_lawsD(2) [OF assms(1)]
    by (simp add: Server_Set_store case_prod_beta cached_def)
qed

lemma Server_Delete_coherent:
  assumes "redis_laws env rmap" "coherent_on K (rmap w) s" "k \<in> K"
  obtains s' w' where "Server_Delete env k s w = Some (s', w', Some True)" "coherent_on K (rmap w') s'"
    "rmap w' = (rmap w)(k := None)"
proof -
  obtain s1 self where P: "pick k s = Some (s1, self, True, True)" "self \<noteq> []" "owns K s1" "store_of s1 = store_of s"
    using pick_self [of K s k] assms(2,3) by (auto simp: coherent_on_def)
  obtain st st' b evs where D: "store_of s1 = Some st" "Delete st k = Some (st', b, evs)"
    "coherent_on K ((rmap w)(k := None)) (put_store st' s1)"
    by (rule delete_coherent [OF assms(2) P(3,4), of k None])
  show thesis
    using that [of "put_store st' s1" "fst (redis_Delete env k w)"] P(1-3) D redis_lawsD(3) [OF assms(1)]
    by (simp add: Server_Delete_store case_prod_beta)
qed

subsection \<open>Get\<close>

definition long_lived :: "int \<Rightarrow> bool" where
  "long_lived now \<longleftrightarrow> 0 < expiry now 9999999999999999"

lemma get_fill_spec:
  assumes "store_of s = Some st" "store_inv st" "long_lived now"
  obtains st' where "get_fill k v now s = Some (put_store st' s)" "store_inv st'"
    "sview st' k = Some (Some v, expiry now 9999999999999999)"
    "\<forall>k'. k' \<noteq> k \<longrightarrow> sview st' k' = sview st k' \<or> sview st' k' = None"
proof -
  obtain st' evs where S: "SetWithExpiration st k (Some v) 9999999999999999 now = Some (st', evs)" "store_inv st'"
    "0 < expiry now 9999999999999999 \<longrightarrow> sview st' k = Some (Some v, expiry now 9999999999999999)"
    "\<forall>k'. k' \<noteq> k \<longrightarrow> sview st' k' = sview st k' \<or> sview st' k' = None"
    using lru2_store.set_law [OF assms(2), of k "Some v" 9999999999999999 now] by blast
  then show thesis using that [of st'] assms(1,3) by (simp add: get_fill_store Set_def long_lived_def)
qed

lemma coherent_shrink:
  assumes "coherent_on K m s" "owns K s'" "store_of s' = Some st" "store_inv st"
    and "\<forall>k. sview st k = cached s k \<or> sview st k = None \<or> (\<exists>x e. sview st k = Some (Some x, e) \<and> m k = Some x)"
  shows "coherent_on K m s'"
  unfolding coherent_on_def
proof (intro conjI ballI allI impI)
  fix k v e assume k: "k \<in> K" "cached s' k = Some (v, e)"
  then have "sview st k = Some (v, e)" using assms(3) by (simp add: cached_def)
  then consider "cached s k = Some (v, e)" | x where "v = Some x" "m k = Some x"
    using assms(5) [rule_format, of k] by auto
  then show "\<exists>x. v = Some x \<and> m k = Some x"
    using assms(1) k(1) by cases (auto simp: coherent_on_def)
qed (use assms in auto)

lemma Server_Get_coherent:
  assumes "redis_laws env rmap" "coherent_on K (rmap w) s" "k \<in> K" "long_lived now''"
  obtains s' where "Server_Get env k (now, now', now'') s w = Some (s', w, rmap w k)" "coherent_on K (rmap w) s'"
proof -
  obtain s1 self where P: "pick k s = Some (s1, self, True, True)" "self \<noteq> []" "owns K s1" "store_of s1 = store_of s"
    using pick_self [of K s k] assms(2,3) by (auto simp: coherent_on_def)
  obtain st where st: "store_of s = Some st" "store_inv st" using assms(2) by (auto simp: coherent_on_def)
  have c: "cached s k' = sview st k'" for k' using st(1) by (simp add: cached_def)
  obtain st1 v ok evs where G: "Get st k now now' = Some (st1, (v, ok), evs)" "store_inv st1"
    "\<forall>k'. sview st1 k' = sview st k' \<or> sview st1 k' = None"
    "ok \<longrightarrow> (\<exists>e. sview st k = Some (v, e) \<and> now < e)" "\<not> ok \<longrightarrow> v = None"
    using lru2_store.get_law [OF st(2), of k now now'] by blast
  let ?s1 = "put_store st1 s1"
  have o1: "owns K ?s1" using P(3) by (simp add: owns_def)
  have coh1: "coherent_on K (rmap w) ?s1"
    by (rule coherent_shrink [OF assms(2) o1 _ G(2)]) (use G(3) c in auto)
  show thesis
  proof (cases ok)
    case True
    then obtain e where "cached s k = Some (v, e)" using G(4) c by auto
    then obtain x where x: "v = Some x" "rmap w k = Some x" using assms(2,3) by (auto simp: coherent_on_def)
    have "Server_Get env k (now, now', now'') s w = Some (?s1, w, rmap w k)"
      using P(1,2,4) st(1) G(1) True x by (simp add: Server_Get_store)
    then show thesis using that coh1 by blast
  next
    case False
    show thesis
    proof (cases "rmap w k")
      case None
      have "Server_Get env k (now, now', now'') s w = Some (?s1, w, rmap w k)"
        using P(1,2,4) st(1) G(1) False None by (simp add: Server_Get_store redis_lawsD(1) [OF assms(1)])
      then show thesis using that coh1 by blast
    next
      case (Some x)
      have g: "store_of ?s1 = Some st1" by simp
      obtain st2 where F: "get_fill k x now'' ?s1 = Some (put_store st2 ?s1)" "store_inv st2"
        "sview st2 k = Some (Some x, expiry now'' 9999999999999999)"
        "\<forall>k'. k' \<noteq> k \<longrightarrow> sview st2 k' = sview st1 k' \<or> sview st2 k' = None"
        by (rule get_fill_spec [OF g G(2) assms(4), of k x])
      let ?s2 = "put_store st2 ?s1"
      have o2: "owns K ?s2" using P(3) by (simp add: owns_def)
      have "\<forall>k'. sview st2 k' = cached ?s1 k' \<or> sview st2 k' = None \<or>
          (\<exists>x e. sview st2 k' = Some (Some x, e) \<and> rmap w k' = Some x)"
      proof
        fix k'
        show "sview st2 k' = cached ?s1 k' \<or> sview st2 k' = None \<or>
            (\<exists>x e. sview st2 k' = Some (Some x, e) \<and> rmap w k' = Some x)"
          using F(3,4) Some by (cases "k' = k") (auto simp: cached_def)
      qed
      then have "coherent_on K (rmap w) ?s2" using coherent_shrink [OF coh1 o2 _ F(2)] by simp
      moreover have "Server_Get env k (now, now', now'') s w = Some (?s2, w, rmap w k)"
        using P(1,2,4) st(1) G(1) False Some F(1) by (simp add: Server_Get_store redis_lawsD(1) [OF assms(1)])
      ultimately show thesis using that by blast
    qed
  qed
qed

subsection \<open>Sequences of requests\<close>

datatype request = Req_Get string "int \<times> int \<times> int" | Req_Set string string | Req_Delete string

datatype response = Resp_Get "string option" | Resp_Set "string option" | Resp_Delete "bool option"

fun serve ::
  "('w, 'c) env \<Rightarrow> request list \<Rightarrow> 'c server \<Rightarrow> 'w \<Rightarrow> ('c server \<times> 'w \<times> response list) option"
where
  "serve env [] s w = Some (s, w, [])"
| "serve env (Req_Get k clk # rs) s w = do {
     (s, w, r) \<leftarrow> Server_Get env k clk s w;
     (s, w, as) \<leftarrow> serve env rs s w;
     Some (s, w, Resp_Get r # as) }"
| "serve env (Req_Set k v # rs) s w = do {
     (s, w, r) \<leftarrow> Server_Set env k v s w;
     (s, w, as) \<leftarrow> serve env rs s w;
     Some (s, w, Resp_Set r # as) }"
| "serve env (Req_Delete k # rs) s w = do {
     (s, w, r) \<leftarrow> Server_Delete env k s w;
     (s, w, as) \<leftarrow> serve env rs s w;
     Some (s, w, Resp_Delete r # as) }"

text \<open>What a map without a cache answers.\<close>

fun answers :: "(string \<rightharpoonup> string) \<Rightarrow> request list \<Rightarrow> response list" where
  "answers m [] = []"
| "answers m (Req_Get k clk # rs) = Resp_Get (m k) # answers m rs"
| "answers m (Req_Set k v # rs) = Resp_Set (Some v) # answers (m(k \<mapsto> v)) rs"
| "answers m (Req_Delete k # rs) = Resp_Delete (Some True) # answers (m(k := None)) rs"

definition clocks_ok :: "request list \<Rightarrow> bool" where
  "clocks_ok rs \<longleftrightarrow> (\<forall>k n n' n''. Req_Get k (n, n', n'') \<in> set rs \<longrightarrow> long_lived n'')"

lemma clocks_ok_Cons: "clocks_ok (r # rs) \<Longrightarrow> clocks_ok rs"
  by (simp add: clocks_ok_def)

lemma serve_answers:
  assumes "redis_laws env rmap" "coherent (rmap w) s" "clocks_ok rs"
  shows "\<exists>s' w'. serve env rs s w = Some (s', w', answers (rmap w) rs) \<and> coherent (rmap w') s'"
  using assms(2,3)
proof (induction rs arbitrary: s w)
  case (Cons r rs)
  note ok = clocks_ok_Cons [OF Cons.prems(2)]
  show ?case
  proof (cases r)
    case (Req_Get k clk)
    obtain n n' n'' where clk: "clk = (n, n', n'')" by (cases clk)
    have "long_lived n''" using Cons.prems(2) by (simp add: clocks_ok_def Req_Get clk)
    then obtain s1 where S: "Server_Get env k (n, n', n'') s w = Some (s1, w, rmap w k)" "coherent (rmap w) s1"
      by (rule Server_Get_coherent [OF assms(1) Cons.prems(1) UNIV_I])
    then show ?thesis using Cons.IH [OF S(2) ok] by (auto simp: Req_Get clk)
  next
    case (Req_Set k v)
    obtain s1 w1 where S: "Server_Set env k v s w = Some (s1, w1, Some v)" "coherent (rmap w1) s1"
      "rmap w1 = (rmap w)(k \<mapsto> v)" "cached s1 k = None"
      by (rule Server_Set_coherent [OF assms(1) Cons.prems(1) UNIV_I])
    obtain s' w' where "serve env rs s1 w1 = Some (s', w', answers (rmap w1) rs)" "coherent (rmap w') s'"
      using Cons.IH [OF S(2) ok] by blast
    then show ?thesis using S(1) by (simp add: Req_Set S(3))
  next
    case (Req_Delete k)
    obtain s1 w1 where S: "Server_Delete env k s w = Some (s1, w1, Some True)" "coherent (rmap w1) s1"
      "rmap w1 = (rmap w)(k := None)"
      by (rule Server_Delete_coherent [OF assms(1) Cons.prems(1) UNIV_I])
    obtain s' w' where "serve env rs s1 w1 = Some (s', w', answers (rmap w1) rs)" "coherent (rmap w') s'"
      using Cons.IH [OF S(2) ok] by blast
    then show ?thesis using S(1) by (simp add: Req_Delete S(3))
  qed
qed simp

subsection \<open>Properties\<close>

text \<open>A small node: one member, a map as redis, no remote nodes.\<close>

definition redis_only :: "((string \<rightharpoonup> string), 'c) env" where
  "redis_only =
     \<lparr>redis_Get = (\<lambda>k w. (w, w k)), redis_Set = (\<lambda>k v w. (w(k \<mapsto> v), True)),
      redis_Delete = (\<lambda>k w. (w(k := None), True)), peer_Get = (\<lambda>c k w. (w, None)),
      peer_Set = (\<lambda>c k v w. (w, None)), peer_Delete = (\<lambda>c k w. (w, None))\<rparr>"

definition lone_picker :: "unit picker" where
  "lone_picker =
     \<lparr>pk_selfAddr = ''a'', pk_svcName = ''cache'',
      consHash = NewConsistentHash ''a'' [\<lambda>m. m\<lparr>config := DefaultConfig\<lparr>DefaultReplicas := 2, HashFunc := \<lambda>_. 9\<rparr>\<rparr>],
      grpcCli = Map.empty\<rparr>"

definition small_store_options :: options where
  "small_store_options = NewOptions\<lparr>BucketCount := 1, CapPerBucket := 2, Level2Cap := 2\<rparr>"

definition small_server :: "unit server" where
  "small_server = join_ring (RegisterPeersToServer (Some lone_picker)
     (RegisterGroupToServer (NewGroup ''cache'' ''a'' small_store_options LRU) (NewServer ''a'' ''cache'')))"

abbreviation map_env :: "((string \<rightharpoonup> string), unit) env" where
  "map_env \<equiv> redis_only"

lemma map_env_laws: "redis_laws redis_only (\<lambda>w. w)"
  by (simp add: redis_laws_def redis_only_def)

text \<open>A node alone on its ring owns every key, whatever the hash function.\<close>

lemma lone_route:
  assumes "keys m = []" "members m = {}" "0 < DefaultReplicas (config m)"
  shows "route (Map_Add a m) k = a"
proof -
  let ?m = "Map_Add a m"
  have ks: "set (keys ?m) = set (vhashes (config m) a (DefaultReplicas (config m)))" "sorted (keys ?m)"
    "\<forall>h\<in>set (keys ?m). hashMap ?m h = Some a"
    using assms(1,2) by (simp_all add: Map_Add_cases)
  have "set (keys ?m) \<noteq> {}" using assms by (simp add: Map_Add_cases vhashes_def)
  then have "keys ?m \<noteq> []" by auto
  then obtain x where "is_next (set (keys ?m)) (key_hash ?m k) x" "route ?m k = owner_of ?m x"
    using route_next [OF ks(2)] by blast
  then show ?thesis using ks(3) by (simp add: is_next_def owner_of_def)
qed

lemma lone_server_coherent:
  assumes "clientPicker s = Some p" "pk_selfAddr p = sv_selfAddr s" "sv_selfAddr s \<noteq> []"
    and "keys (consHash p) = []" "members (consHash p) = {}" "0 < DefaultReplicas (config (consHash p))"
    and "store_of s = Some (newLRU2Cache opts)" "good_options opts"
  shows "coherent m (join_ring s)"
proof -
  have "owns UNIV (join_ring s)"
    using assms(1-3) lone_route [OF assms(4-6)] by (simp add: owns_def join_ring_def)
  moreover have "store_of (join_ring s) = Some (newLRU2Cache opts)" using assms(7) by (simp add: join_ring_def)
  ultimately show ?thesis by (simp add: newLRU2Cache_spec [OF assms(8)] coherent_on_def cached_def)
qed

lemma small_server_coherent: "coherent m small_server"
proof -
  have "good_options small_store_options" by code_simp
  then show ?thesis
    unfolding small_server_def
    by (intro lone_server_coherent [where opts = small_store_options and p = lone_picker])
      (simp_all add: RegisterPeersToServer_def RegisterGroupToServer_def NewServer_def NewGroup_def NewStore_def store_of_def
        lone_picker_def NewConsistentHash_def members_def DefaultConfig_def)
qed

text \<open>
  C5. The cache is transparent: a node that owns the keys, handling requests one after the other with
  a redis that keeps what it is given, answers every sequence of gets, sets and deletes exactly as
  a plain map would, never panics, and leaves redis with that map. It holds whatever
  the cache evicts or expires, for all clock readings at which the lifetime of a cached load does
  not overflow.
\<close>
theorem server_is_transparent:
  assumes "redis_laws env rmap" "coherent (rmap w) s" "clocks_ok rs"
  shows "\<exists>s' w'. serve env rs s w = Some (s', w', answers (rmap w) rs) \<and> coherent (rmap w') s'"
  by (rule serve_answers [OF assms])

theorem server_is_transparent_witness:
  "\<exists>s' w'. serve map_env [Req_Set ''k'' ''v'', Req_Get ''k'' (1, 1, 1), Req_Delete ''k'', Req_Get ''k'' (2, 2, 2)]
      small_server Map.empty =
    Some (s', w', [Resp_Set (Some ''v''), Resp_Get (Some ''v''), Resp_Delete (Some True), Resp_Get None])"
proof -
  let ?rs = "[Req_Set ''k'' ''v'', Req_Get ''k'' (1, 1, 1), Req_Delete ''k'', Req_Get ''k'' (2, 2, 2)]"
  have c: "clocks_ok ?rs" by (simp add: clocks_ok_def long_lived_def expiry_def int64_def)
  have "answers Map.empty ?rs =
      [Resp_Set (Some ''v''), Resp_Get (Some ''v''), Resp_Delete (Some True), Resp_Get None]" by simp
  with server_is_transparent [OF map_env_laws small_server_coherent c, of Map.empty] show ?thesis by auto
qed

text \<open>
  A load that races with a write caches the old value: when a \<open>Get\<close> has missed and loaded \<open>old\<close>,
  a \<open>Set\<close> of the key to \<open>new\<close> runs, and then the \<open>Get\<close> fills the cache, redis holds \<open>new\<close>, but
  every later \<open>Get\<close> answers \<open>old\<close> until the entry expires, 115 days later, or leaves the cache.
\<close>
lemma racing_load_caches_stale_value:
  assumes "redis_laws env rmap" "coherent (rmap w) s" "long_lived now"
    and "t < expiry now 9999999999999999" "t' < expiry now 9999999999999999"
  shows "\<exists>s1 w1 s2 s3. Server_Set env k new s w = Some (s1, w1, Some new) \<and>
    get_fill k old now s1 = Some s2 \<and>
    Server_Get env k (t, t', t'') s2 w1 = Some (s3, w1, Some old) \<and> rmap w1 k = Some new"
proof -
  obtain s1 w1 where S: "Server_Set env k new s w = Some (s1, w1, Some new)" "coherent (rmap w1) s1"
    "rmap w1 = (rmap w)(k \<mapsto> new)" "cached s1 k = None"
    by (rule Server_Set_coherent [OF assms(1,2) UNIV_I])
  obtain st where st: "store_of s1 = Some st" "store_inv st" "owns UNIV s1" using S(2) by (auto simp: coherent_on_def)
  obtain st2 where F: "get_fill k old now s1 = Some (put_store st2 s1)" "store_inv st2"
    "sview st2 k = Some (Some old, expiry now 9999999999999999)"
    "\<forall>k'. k' \<noteq> k \<longrightarrow> sview st2 k' = sview st k' \<or> sview st2 k' = None"
    by (rule get_fill_spec [OF st(1,2) assms(3), of k old])
  let ?s2 = "put_store st2 s1"
  have "owns UNIV ?s2" using st(3) by (simp add: owns_def)
  then obtain s3 self where P: "pick k ?s2 = Some (s3, self, True, True)" "self \<noteq> []" "owns UNIV s3" "store_of s3 = Some st2"
    using pick_self [of UNIV ?s2 k] by auto
  obtain st3 evs where "Get st2 k t t' = Some (st3, (Some old, True), evs)"
    using lru2_store.get_law [OF F(2), of k t t'] F(3) assms(4,5) by auto
  then have "Server_Get env k (t, t', t'') ?s2 w1 = Some (put_store st3 s3, w1, Some old)"
    using P by (simp add: Server_Get_store)
  then show ?thesis using S(1,3) F(1) by auto
qed

lemma racing_load_caches_stale_value_witness:
  "\<exists>s1 w1 s2 s3. Server_Set map_env ''k'' ''new'' small_server Map.empty = Some (s1, w1, Some ''new'') \<and>
    get_fill ''k'' ''old'' 1 s1 = Some s2 \<and>
    Server_Get map_env ''k'' (2, 2, 2) s2 w1 = Some (s3, w1, Some ''old'') \<and> w1 ''k'' = Some ''new''"
  by (rule racing_load_caches_stale_value [OF map_env_laws small_server_coherent])
     (simp_all add: long_lived_def expiry_def int64_def)

end
