(* ===== verification/Single_Flight.thy ===== *)
theory Single_Flight
  imports Main
begin

text \<open>
  \<open>internal/singleflight\<close>: concurrent calls of \<open>Group.Do\<close>, as a step relation. A step is one access
  to shared state: the \<open>Load\<close> and the \<open>Store\<close> on the map, the return of \<open>fn\<close> with the assignment of
  its result to the call, \<open>wg.Done\<close>, the \<open>Delete\<close>, and the end of \<open>wg.Wait\<close>. Calls are numbered in the
  order in which they are stored. The result of \<open>fn\<close> (a value and an error) is any value of \<open>'r\<close>;
  \<open>ran\<close> records what \<open>fn\<close> returned for which key.
\<close>

subsection \<open>State\<close>

record 'r call =
  call_key :: string
  call_val :: "'r option"
  call_done :: bool

text \<open>Where a goroutine is in \<open>Do key\<close>.\<close>

datatype 'r pc =
    Outside
  | Missed string
  | Waiting string nat
  | Running string nat
  | Assigned string nat
  | Finished string nat
  | Returned string 'r

record 'r group =
  sf_m :: "string \<rightharpoonup> nat"
  sf_calls :: "'r call list"
  sf_pc :: "nat \<Rightarrow> 'r pc"
  ran :: "(string \<times> 'r) list"

definition sf_init :: "'r group" where
  "sf_init = \<lparr>sf_m = Map.empty, sf_calls = [], sf_pc = (\<lambda>_. Outside), ran = []\<rparr>"

definition goto :: "nat \<Rightarrow> 'r pc \<Rightarrow> 'r group \<Rightarrow> 'r group" where
  "goto t p s = s\<lparr>sf_pc := (sf_pc s)(t := p)\<rparr>"

definition upd_call :: "nat \<Rightarrow> ('r call \<Rightarrow> 'r call) \<Rightarrow> 'r group \<Rightarrow> 'r group" where
  "upd_call c f s = s\<lparr>sf_calls := (sf_calls s)[c := f (sf_calls s ! c)]\<rparr>"

subsection \<open>Steps\<close>

inductive sf_step :: "'r group \<Rightarrow> 'r group \<Rightarrow> bool" where
  load_hit: "sf_pc s t = Outside \<or> (\<exists>k' r. sf_pc s t = Returned k' r) \<Longrightarrow> sf_m s k = Some c \<Longrightarrow>
     sf_step s (goto t (Waiting k c) s)"
| load_miss: "sf_pc s t = Outside \<or> (\<exists>k' r. sf_pc s t = Returned k' r) \<Longrightarrow> sf_m s k = None \<Longrightarrow>
     sf_step s (goto t (Missed k) s)"
| store: "sf_pc s t = Missed k \<Longrightarrow>
     sf_step s (goto t (Running k (length (sf_calls s)))
       (s\<lparr>sf_m := (sf_m s)(k \<mapsto> length (sf_calls s)),
          sf_calls := sf_calls s @ [\<lparr>call_key = k, call_val = None, call_done = False\<rparr>]\<rparr>))"
| fn_returns: "sf_pc s t = Running k c \<Longrightarrow>
     sf_step s (goto t (Assigned k c)
       (upd_call c (\<lambda>x. x\<lparr>call_val := Some r\<rparr>) (s\<lparr>ran := ran s @ [(k, r)]\<rparr>)))"
| wg_done: "sf_pc s t = Assigned k c \<Longrightarrow>
     sf_step s (goto t (Finished k c) (upd_call c (\<lambda>x. x\<lparr>call_done := True\<rparr>) s))"
| delete: "sf_pc s t = Finished k c \<Longrightarrow> call_val (sf_calls s ! c) = Some r \<Longrightarrow>
     sf_step s (goto t (Returned k r) (s\<lparr>sf_m := (sf_m s)(k := None)\<rparr>))"
| wait_ends: "sf_pc s t = Waiting k c \<Longrightarrow> call_done (sf_calls s ! c) \<Longrightarrow> call_val (sf_calls s ! c) = Some r \<Longrightarrow>
     sf_step s (goto t (Returned k r) s)"

inductive sf_reachable :: "'r group \<Rightarrow> bool" where
  init: "sf_reachable sf_init"
| step: "sf_reachable s \<Longrightarrow> sf_step s s' \<Longrightarrow> sf_reachable s'"

subsection \<open>The invariant\<close>

fun runs :: "'r pc \<Rightarrow> nat option" where
  "runs (Running k c) = Some c"
| "runs (Assigned k c) = Some c"
| "runs (Finished k c) = Some c"
| "runs _ = None"

text \<open>What the position of a goroutine says about the call it works on or waits for.\<close>

fun pc_ok :: "'r group \<Rightarrow> 'r pc \<Rightarrow> bool" where
  "pc_ok s Outside = True"
| "pc_ok s (Missed k) = True"
| "pc_ok s (Waiting k c) \<longleftrightarrow> c < length (sf_calls s) \<and> call_key (sf_calls s ! c) = k"
| "pc_ok s (Running k c) \<longleftrightarrow> c < length (sf_calls s) \<and> call_key (sf_calls s ! c) = k \<and>
     call_val (sf_calls s ! c) = None \<and> \<not> call_done (sf_calls s ! c)"
| "pc_ok s (Assigned k c) \<longleftrightarrow> c < length (sf_calls s) \<and> call_key (sf_calls s ! c) = k \<and>
     call_val (sf_calls s ! c) \<noteq> None \<and> \<not> call_done (sf_calls s ! c)"
| "pc_ok s (Finished k c) \<longleftrightarrow> c < length (sf_calls s) \<and> call_key (sf_calls s ! c) = k \<and>
     call_done (sf_calls s ! c)"
| "pc_ok s (Returned k r) \<longleftrightarrow> (k, r) \<in> set (ran s)"

definition pcs_ok :: "'r group \<Rightarrow> bool" where
  "pcs_ok s \<longleftrightarrow> (\<forall>t. pc_ok s (sf_pc s t))"

definition map_ok :: "'r group \<Rightarrow> bool" where
  "map_ok s \<longleftrightarrow> (\<forall>k c. sf_m s k = Some c \<longrightarrow> c < length (sf_calls s) \<and> call_key (sf_calls s ! c) = k)"

text \<open>A call has one goroutine that runs it, and until it is done there is one.\<close>

definition runners_unique :: "'r group \<Rightarrow> bool" where
  "runners_unique s \<longleftrightarrow>
     (\<forall>t t' c. runs (sf_pc s t) = Some c \<longrightarrow> runs (sf_pc s t') = Some c \<longrightarrow> t = t')"

definition has_runner :: "'r group \<Rightarrow> bool" where
  "has_runner s \<longleftrightarrow>
     (\<forall>c<length (sf_calls s). call_done (sf_calls s ! c) \<or> (\<exists>t. runs (sf_pc s t) = Some c))"

definition calls_ok :: "'r group \<Rightarrow> bool" where
  "calls_ok s \<longleftrightarrow> (\<forall>x\<in>set (sf_calls s). (call_done x \<longrightarrow> call_val x \<noteq> None) \<and>
     (\<forall>r. call_val x = Some r \<longrightarrow> (call_key x, r) \<in> set (ran s)))"

definition sf_inv :: "'r group \<Rightarrow> bool" where
  "sf_inv s \<longleftrightarrow> pcs_ok s \<and> map_ok s \<and> runners_unique s \<and> has_runner s \<and> calls_ok s"

lemmas sf_defs = pcs_ok_def map_ok_def runners_unique_def has_runner_def calls_ok_def

lemma goto_simps [simp]:
  "sf_pc (goto t p s) = (sf_pc s)(t := p)" "sf_m (goto t p s) = sf_m s"
  "sf_calls (goto t p s) = sf_calls s" "ran (goto t p s) = ran s"
  by (simp_all add: goto_def)

lemma upd_call_simps [simp]:
  "sf_pc (upd_call c f s) = sf_pc s" "sf_m (upd_call c f s) = sf_m s" "ran (upd_call c f s) = ran s"
  "length (sf_calls (upd_call c f s)) = length (sf_calls s)"
  "c < length (sf_calls s) \<Longrightarrow>
     sf_calls (upd_call c f s) ! d = (if d = c then f (sf_calls s ! c) else sf_calls s ! d)"
  by (simp_all add: upd_call_def nth_list_update)

lemma pc_ok_goto [simp]: "pc_ok (goto t p s) q = pc_ok s q"
  by (cases q) simp_all

lemma sf_inv_init: "sf_inv sf_init"
  by (simp add: sf_inv_def sf_defs sf_init_def)

text \<open>How the position of another goroutine survives a change of the calls.\<close>

lemma pc_ok_append:
  "pc_ok s q \<Longrightarrow> pc_ok (s\<lparr>sf_m := m, sf_calls := sf_calls s @ xs\<rparr>) q"
  by (cases q) (auto simp: nth_append)

lemma pc_ok_upd:
  assumes "pc_ok s q" "runs q \<noteq> Some c" "c < length (sf_calls s)" "call_key (f (sf_calls s ! c)) = call_key (sf_calls s ! c)"
    and "set (ran s) \<subseteq> set rs"
  shows "pc_ok (upd_call c f (s\<lparr>ran := rs\<rparr>)) q"
  using assms by (cases q) (auto simp: upd_call_def nth_list_update)

lemma pc_ok_m: "pc_ok (s\<lparr>sf_m := m\<rparr>) q = pc_ok s q"
  by (cases q) simp_all

text \<open>One goroutine moves, keeping the call it runs, if any; the calls are those of \<open>s1\<close>.\<close>

lemma sf_inv_move:
  assumes inv: "sf_inv s" and pc: "sf_pc s1 = sf_pc s"
    and p: "pc_ok s1 p" "runs p = runs (sf_pc s t)"
    and others: "\<forall>t'. t' \<noteq> t \<longrightarrow> pc_ok s1 (sf_pc s t')"
    and rest: "map_ok s1" "calls_ok s1" "length (sf_calls s1) = length (sf_calls s)"
      "\<forall>c<length (sf_calls s). call_done (sf_calls s ! c) \<longrightarrow> call_done (sf_calls s1 ! c)"
  shows "sf_inv (goto t p s1)"
proof -
  have r: "runs (sf_pc (goto t p s1) t') = runs (sf_pc s t')" for t' by (simp add: pc p(2))
  have "pcs_ok (goto t p s1)" using p(1) others by (simp add: pcs_ok_def pc)
  moreover have "runners_unique (goto t p s1)" using inv unfolding sf_inv_def runners_unique_def r by blast
  moreover have "has_runner (goto t p s1)"
    using inv rest(3,4) unfolding sf_inv_def has_runner_def r by auto
  moreover have "map_ok (goto t p s1)" "calls_ok (goto t p s1)" using rest(1,2) by (simp_all add: sf_defs)
  ultimately show ?thesis by (simp add: sf_inv_def)
qed

lemma sf_step_inv:
  assumes "sf_step s s'" "sf_inv s"
  shows "sf_inv s'"
proof -
  have pcs: "pc_ok s (sf_pc s t)" for t using assms(2) by (simp add: sf_inv_def pcs_ok_def)
  have parts: "map_ok s" "runners_unique s" "has_runner s" "calls_ok s"
    using assms(2) by (simp_all add: sf_inv_def)
  have move: "sf_inv (goto t p s)" if "pc_ok s p" "runs p = runs (sf_pc s t)" for t p
    by (rule sf_inv_move [OF assms(2) refl that]) (use pcs parts in simp_all)
  have other: "runs (sf_pc s t') \<noteq> Some c" if "runs (sf_pc s t) = Some c" "t' \<noteq> t" for t t' c
    using parts(2) that by (auto simp: runners_unique_def)
  from assms(1) show ?thesis
  proof cases
    case (load_hit t k c)
    have "pc_ok s (Waiting k c)" using parts(1) load_hit by (simp add: map_ok_def)
    then show ?thesis unfolding load_hit(1) by (rule move) (use load_hit in auto)
  next
    case (load_miss t k)
    show ?thesis unfolding load_miss(1) by (rule move) (use load_miss in auto)
  next
    case (wait_ends t k c r)
    have "c < length (sf_calls s)" "call_key (sf_calls s ! c) = k" using pcs [of t] wait_ends by simp_all
    then have "pc_ok s (Returned k r)" using parts(4) wait_ends by (auto simp: calls_ok_def)
    then show ?thesis unfolding wait_ends(1) by (rule move) (use wait_ends in auto)
  next
    case (store t k)
    let ?n = "length (sf_calls s)" and ?x = "\<lparr>call_key = k, call_val = None, call_done = False\<rparr> :: 'a call"
    let ?s = "s\<lparr>sf_m := (sf_m s)(k \<mapsto> ?n), sf_calls := sf_calls s @ [?x]\<rparr>"
    have lt: "c < ?n" if "runs (sf_pc s t') = Some c" for t' c
      using pcs [of t'] that by (cases "sf_pc s t'") auto
    have no: "runs (sf_pc s t') \<noteq> Some ?n" for t' using lt [of t' ?n] by auto
    have "pcs_ok (goto t (Running k ?n) ?s)" using pcs by (simp add: pcs_ok_def pc_ok_append)
    moreover have "map_ok (goto t (Running k ?n) ?s)" using parts(1) by (auto simp: map_ok_def nth_append less_Suc_eq)
    moreover have "runners_unique (goto t (Running k ?n) ?s)"
      using parts(2) no by (auto simp: runners_unique_def)
    moreover have "has_runner (goto t (Running k ?n) ?s)"
      unfolding has_runner_def
    proof (intro allI impI)
      fix c assume c: "c < length (sf_calls (goto t (Running k ?n) ?s))"
      show "call_done (sf_calls (goto t (Running k ?n) ?s) ! c) \<or>
          (\<exists>t'. runs (sf_pc (goto t (Running k ?n) ?s) t') = Some c)"
      proof (cases "c = ?n")
        case True
        then show ?thesis by (intro disjI2 exI [of _ t]) simp
      next
        case False
        then have "c < ?n" using c by simp
        then consider "call_done (sf_calls s ! c)" | t' where "runs (sf_pc s t') = Some c"
          using parts(3) by (auto simp: has_runner_def)
        then show ?thesis
        proof cases
          case 2
          then have "t' \<noteq> t" using store(2) by auto
          with 2 show ?thesis by (intro disjI2 exI [of _ t']) simp
        qed (simp add: nth_append \<open>c < ?n\<close>)
      qed
    qed
    moreover have "calls_ok (goto t (Running k ?n) ?s)" using parts(4) by (auto simp: calls_ok_def)
    ultimately show ?thesis unfolding store(1) by (simp add: sf_inv_def)
  next
    case (fn_returns t k c r)
    let ?s = "upd_call c (\<lambda>x. x\<lparr>call_val := Some r\<rparr>) (s\<lparr>ran := ran s @ [(k, r)]\<rparr>)"
    have c: "c < length (sf_calls s)" "call_key (sf_calls s ! c) = k" "\<not> call_done (sf_calls s ! c)"
      using pcs [of t] fn_returns by simp_all
    have "calls_ok ?s"
      using parts(4) c by (fastforce simp: calls_ok_def upd_call_def dest!: set_update_subset_insert [THEN subsetD])
    moreover have "map_ok ?s" using parts(1) c by (auto simp: map_ok_def upd_call_def nth_list_update)
    moreover have "pc_ok ?s (Assigned k c)" using c by (simp add: upd_call_def)
    moreover have "pc_ok ?s (sf_pc s t')" if "t' \<noteq> t" for t'
      by (rule pc_ok_upd [OF pcs other [OF _ that]]) (use c fn_returns(2) in auto)
    ultimately show ?thesis unfolding fn_returns(1) using c(1) fn_returns(2)
      by (intro sf_inv_move [OF assms(2)]) (auto simp: upd_call_def nth_list_update)
  next
    case (wg_done t k c)
    let ?s = "upd_call c (\<lambda>x. x\<lparr>call_done := True\<rparr>) s"
    have c: "c < length (sf_calls s)" "call_key (sf_calls s ! c) = k" "call_val (sf_calls s ! c) \<noteq> None"
      using pcs [of t] wg_done by simp_all
    have s: "?s = upd_call c (\<lambda>x. x\<lparr>call_done := True\<rparr>) (s\<lparr>ran := ran s\<rparr>)" by (simp add: upd_call_def)
    have "calls_ok ?s"
      using parts(4) c by (fastforce simp: calls_ok_def upd_call_def dest!: set_update_subset_insert [THEN subsetD])
    moreover have "map_ok ?s" using parts(1) c by (auto simp: map_ok_def upd_call_def nth_list_update)
    moreover have "pc_ok ?s (Finished k c)" using c by (simp add: upd_call_def)
    moreover have "pc_ok ?s (sf_pc s t')" if "t' \<noteq> t" for t'
      unfolding s by (rule pc_ok_upd [OF pcs other [OF _ that]]) (use c wg_done(2) in auto)
    ultimately show ?thesis unfolding wg_done(1) using c(1) wg_done(2)
      by (intro sf_inv_move [OF assms(2)]) (auto simp: upd_call_def nth_list_update)
  next
    case (delete t k c r)
    let ?s = "s\<lparr>sf_m := (sf_m s)(k := None)\<rparr>"
    have c: "c < length (sf_calls s)" "call_key (sf_calls s ! c) = k" "call_done (sf_calls s ! c)"
      using pcs [of t] delete by simp_all
    have kr: "(k, r) \<in> set (ran s)" using parts(4) c delete(3) by (force simp: calls_ok_def)
    have "pcs_ok (goto t (Returned k r) ?s)" using pcs kr by (simp add: pcs_ok_def pc_ok_m)
    moreover have "map_ok (goto t (Returned k r) ?s)" "calls_ok (goto t (Returned k r) ?s)"
      using parts(1,4) by (simp_all add: sf_defs)
    moreover have "runners_unique (goto t (Returned k r) ?s)"
      using parts(2) by (simp add: runners_unique_def)
    moreover have "has_runner (goto t (Returned k r) ?s)"
    proof -
      have "call_done (sf_calls s ! d) \<or> (\<exists>t'. t' \<noteq> t \<and> runs (sf_pc s t') = Some d)" if "d < length (sf_calls s)" for d
        using parts(3) that c(3) delete(2) by (metis has_runner_def option.inject runs.simps(3))
      then show ?thesis by (fastforce simp: has_runner_def)
    qed
    ultimately show ?thesis unfolding delete(1) by (simp add: sf_inv_def)
  qed
qed

lemma sf_reachable_inv: "sf_reachable s \<Longrightarrow> sf_inv s"
  by (induction rule: sf_reachable.induct) (auto intro: sf_inv_init sf_step_inv)

text \<open>A goroutine that missed can run \<open>fn\<close> and return whatever it returns, no matter what the others do
  meanwhile.\<close>

lemma run_alone:
  fixes r :: 'r and s :: "'r group"
  assumes "sf_reachable s" "sf_pc s t = Missed k"
  shows "\<exists>s'. sf_reachable s' \<and> sf_pc s' t = Returned k r"
proof -
  let ?n = "length (sf_calls s)" and ?x = "\<lparr>call_key = k, call_val = None, call_done = False\<rparr> :: 'r call"
  let ?s1 = "goto t (Running k ?n) (s\<lparr>sf_m := (sf_m s)(k \<mapsto> ?n), sf_calls := sf_calls s @ [?x]\<rparr>)"
  let ?s2 = "goto t (Assigned k ?n) (upd_call ?n (\<lambda>x. x\<lparr>call_val := Some r\<rparr>) (?s1\<lparr>ran := ran ?s1 @ [(k, r)]\<rparr>))"
  let ?s3 = "goto t (Finished k ?n) (upd_call ?n (\<lambda>x. x\<lparr>call_done := True\<rparr>) ?s2)"
  let ?s4 = "goto t (Returned k r) (?s3\<lparr>sf_m := (sf_m ?s3)(k := None)\<rparr>)"
  have "sf_reachable ?s1" by (rule sf_reachable.step [OF assms(1)]) (rule sf_step.store [of s t k, OF assms(2)])
  then have "sf_reachable ?s2" by (rule sf_reachable.step) (rule sf_step.fn_returns, simp)
  then have "sf_reachable ?s3" by (rule sf_reachable.step) (rule sf_step.wg_done, simp)
  then have "sf_reachable ?s4"
    by (rule sf_reachable.step) (rule sf_step.delete [of ?s3 t k ?n r], simp_all)
  then show ?thesis by (intro exI [of _ ?s4]) simp
qed

subsection \<open>Properties\<close>

lemma Do_returns: "sf_reachable s \<Longrightarrow> sf_pc s t = Returned k r \<Longrightarrow> (k, r) \<in> set (ran s)"
  using sf_reachable_inv [of s] unfolding sf_inv_def pcs_ok_def by (metis pc_ok.simps(7))

text \<open>
  Every result that \<open>Do\<close> returns is one that \<open>fn\<close> returned for the same key, in every
  interleaving of concurrent calls, whether the caller ran \<open>fn\<close> or waited for another call.
\<close>
lemma Do_returns_what_fn_returned:
  assumes "sf_reachable s" "sf_pc s t = Returned k r"
  shows "(k, r) \<in> set (ran s)"
  by (rule Do_returns [OF assms])

lemma Do_returns_what_fn_returned_witness:
  "\<exists>s. sf_reachable s \<and> sf_pc s 0 = Returned ''k'' (7 :: nat) \<and> (''k'', 7) \<in> set (ran s)"
proof -
  have r0: "sf_reachable (goto 0 (Missed ''k'') (sf_init :: nat group))"
    by (rule sf_reachable.step [OF sf_reachable.init]) (rule sf_step.load_miss, simp_all add: sf_init_def)
  have p0: "sf_pc (goto 0 (Missed ''k'') (sf_init :: nat group)) 0 = Missed ''k''" by simp
  obtain s where "sf_reachable s" "sf_pc s 0 = Returned ''k'' (7 :: nat)"
    using run_alone [OF r0 p0, of 7] by blast
  with Do_returns_what_fn_returned [OF this] show ?thesis by blast
qed

text \<open>
  A waiting caller is never stranded: in every reachable state the call it waits for is done, and
  then its next step returns a result, or another goroutine is running the call.
\<close>
lemma waiters_are_served:
  assumes "sf_reachable s" "sf_pc s t = Waiting k c"
  shows "(\<exists>r. sf_step s (goto t (Returned k r) s)) \<or>
    (\<exists>t'. t' \<noteq> t \<and> (sf_pc s t' = Running k c \<or> sf_pc s t' = Assigned k c))"
proof -
  have inv: "sf_inv s" by (rule sf_reachable_inv [OF assms(1)])
  then have pcs: "pc_ok s (sf_pc s t')" for t' by (simp add: sf_inv_def pcs_ok_def)
  have c: "c < length (sf_calls s)" "call_key (sf_calls s ! c) = k" using pcs [of t] assms(2) by simp_all
  show ?thesis
  proof (cases "call_done (sf_calls s ! c)")
    case True
    then obtain r where "call_val (sf_calls s ! c) = Some r"
      using inv c by (fastforce simp: sf_inv_def calls_ok_def)
    then show ?thesis using sf_step.wait_ends [OF assms(2) True] by blast
  next
    case False
    then obtain t' where t': "runs (sf_pc s t') = Some c" using inv c by (auto simp: sf_inv_def has_runner_def)
    then have "sf_pc s t' = Running k c \<or> sf_pc s t' = Assigned k c"
      using pcs [of t'] c False by (cases "sf_pc s t'") auto
    moreover have "t' \<noteq> t" using t' assms(2) by auto
    ultimately show ?thesis by blast
  qed
qed

lemma waiters_are_served_witness:
  "\<exists>s :: nat group. sf_reachable s \<and> sf_pc s 1 = Waiting ''k'' 0 \<and>
    (\<exists>t'. t' \<noteq> 1 \<and> (sf_pc s t' = Running ''k'' 0 \<or> sf_pc s t' = Assigned ''k'' 0))"
proof -
  let ?s1 = "goto 0 (Missed ''k'') (sf_init :: nat group)"
  let ?s2 = "goto 0 (Running ''k'' (length (sf_calls ?s1))) (?s1\<lparr>sf_m := (sf_m ?s1)(''k'' \<mapsto> length (sf_calls ?s1)),
    sf_calls := sf_calls ?s1 @ [\<lparr>call_key = ''k'', call_val = None, call_done = False\<rparr>]\<rparr>)"
  let ?s3 = "goto 1 (Waiting ''k'' 0) ?s2"
  have "sf_reachable ?s1"
    by (rule sf_reachable.step [OF sf_reachable.init]) (rule sf_step.load_miss, simp_all add: sf_init_def)
  then have "sf_reachable ?s2" by (rule sf_reachable.step) (rule sf_step.store, simp)
  then have r: "sf_reachable ?s3" by (rule sf_reachable.step) (rule sf_step.load_hit, simp_all add: sf_init_def)
  moreover have w: "sf_pc ?s3 1 = Waiting ''k'' 0" by simp
  moreover have "\<not> sf_step ?s3 (goto 1 (Returned ''k'' r') ?s3)" for r'
  proof
    assume "sf_step ?s3 (goto 1 (Returned ''k'' r') ?s3)"
    then have "sf_reachable (goto 1 (Returned ''k'' r') ?s3)"
      by (rule sf_reachable.step [OF r])
    from Do_returns [OF this, of 1 "''k''" r'] show False by (simp add: sf_init_def)
  qed
  ultimately show ?thesis using waiters_are_served [OF r w] by blast
qed

text \<open>
  C38. \<open>Do\<close> does not guarantee a single flight: for every key a state is reachable in which two
  goroutines run \<open>fn\<close> for it at the same time, because both looked up the map before either of
  them stored its call.
\<close>
theorem two_flights_for_one_key:
  "\<exists>s :: 'r group. sf_reachable s \<and> sf_pc s 0 = Running k 0 \<and> sf_pc s 1 = Running k 1"
proof -
  let ?x = "\<lparr>call_key = k, call_val = None, call_done = False\<rparr> :: 'r call"
  let ?s1 = "goto 0 (Missed k) (sf_init :: 'r group)"
  let ?s2 = "goto 1 (Missed k) ?s1"
  let ?s3 = "goto 0 (Running k (length (sf_calls ?s2)))
    (?s2\<lparr>sf_m := (sf_m ?s2)(k \<mapsto> length (sf_calls ?s2)), sf_calls := sf_calls ?s2 @ [?x]\<rparr>)"
  let ?s4 = "goto 1 (Running k (length (sf_calls ?s3)))
    (?s3\<lparr>sf_m := (sf_m ?s3)(k \<mapsto> length (sf_calls ?s3)), sf_calls := sf_calls ?s3 @ [?x]\<rparr>)"
  have "sf_reachable ?s1"
    by (rule sf_reachable.step [OF sf_reachable.init]) (rule sf_step.load_miss, simp_all add: sf_init_def)
  then have "sf_reachable ?s2"
    by (rule sf_reachable.step) (rule sf_step.load_miss, simp_all add: sf_init_def)
  then have "sf_reachable ?s3" by (rule sf_reachable.step) (rule sf_step.store, simp)
  then have "sf_reachable ?s4" by (rule sf_reachable.step) (rule sf_step.store, simp)
  moreover have "sf_pc ?s4 0 = Running k 0" "sf_pc ?s4 1 = Running k 1" by (simp_all add: sf_init_def)
  ultimately show ?thesis by blast
qed

end
