(* ===== verification/Server_Concurrent.thy ===== *)
theory Server_Concurrent
  imports Cache_Server_Correct Single_Flight
begin

text \<open>
  Concurrent requests on one node that owns their keys: the handlers \<open>Get\<close>, \<open>Set\<close> and \<open>Delete\<close> of
  \<open>server.go\<close>, after \<open>PickPeer\<close> has answered the node itself, and \<open>SetToCache\<close>, as a step relation over
  goroutines. A step is one call of the cache
  (which holds the lock of a bucket), of redis, or a step of \<open>singleflight.Do\<close> as \<open>Single_Flight\<close> has
  them, whose \<open>fn\<close> reads redis. The cleanup of a bucket runs in between. A handler that would panic on a
  nil value has no step.
\<close>

subsection \<open>State\<close>

datatype req_pc =
    Idle
  | Looking string
  | Cache_missed string
  | In_Do string
  | Loaded string string
  | Answered string "string option"
  | Writing string string
  | Erasing string
  | Forgetting string
  | Heating string string
  | Acked

record 'w busy_node =
  the_cache :: "string lru2"
  the_redis :: 'w
  flight :: "string option group"
  stage :: "nat \<Rightarrow> req_pc"
  writes :: "(string \<times> string) list"

definition set_pc :: "nat \<Rightarrow> req_pc \<Rightarrow> 'w busy_node \<Rightarrow> 'w busy_node" where
  "set_pc t p n = n\<lparr>stage := (stage n)(t := p)\<rparr>"

fun free :: "req_pc \<Rightarrow> bool" where
  "free Idle = True"
| "free (Answered k r) = True"
| "free Acked = True"
| "free _ = False"

text \<open>The key of a goroutine that is inside of \<open>Do\<close>.\<close>

fun do_key :: "'r pc \<Rightarrow> string option" where
  "do_key Outside = None"
| "do_key (Returned k r) = None"
| "do_key (Missed k) = Some k"
| "do_key (Waiting k c) = Some k"
| "do_key (Running k c) = Some k"
| "do_key (Assigned k c) = Some k"
| "do_key (Finished k c) = Some k"

text \<open>A step of the group by the goroutine \<open>t\<close> alone.\<close>

definition sf_move :: "nat \<Rightarrow> 'r group \<Rightarrow> 'r group \<Rightarrow> bool" where
  "sf_move t g g' \<longleftrightarrow> sf_step g g' \<and> sf_pc g' t \<noteq> sf_pc g t \<and> (\<forall>t'. t' \<noteq> t \<longrightarrow> sf_pc g' t' = sf_pc g t')"

subsection \<open>Steps\<close>

inductive node_step :: "('w, 'c) env \<Rightarrow> 'w busy_node \<Rightarrow> 'w busy_node \<Rightarrow> bool" for env where
  ask_get: "free (stage n t) \<Longrightarrow> node_step env n (set_pc t (Looking k) n)"
| cache_hit: "stage n t = Looking k \<Longrightarrow> Get (the_cache n) k now now' = Some (st, (Some x, True), evs) \<Longrightarrow>
     node_step env n (set_pc t (Answered k (Some x)) (n\<lparr>the_cache := st\<rparr>))"
| cache_miss: "stage n t = Looking k \<Longrightarrow> Get (the_cache n) k now now' = Some (st, (v, False), evs) \<Longrightarrow>
     node_step env n (set_pc t (Cache_missed k) (n\<lparr>the_cache := st\<rparr>))"
| do_enter: "stage n t = Cache_missed k \<Longrightarrow> sf_move t (flight n) g \<Longrightarrow> do_key (sf_pc g t) = Some k \<Longrightarrow>
     ran g = ran (flight n) \<Longrightarrow> node_step env n (set_pc t (In_Do k) (n\<lparr>flight := g\<rparr>))"
| do_step: "stage n t = In_Do k \<Longrightarrow> do_key (sf_pc (flight n) t) = Some k \<Longrightarrow> sf_move t (flight n) g \<Longrightarrow>
     ran g = ran (flight n) \<Longrightarrow> node_step env n (n\<lparr>flight := g\<rparr>)"
| do_fn: "stage n t = In_Do k \<Longrightarrow> do_key (sf_pc (flight n) t) = Some k \<Longrightarrow> sf_move t (flight n) g \<Longrightarrow>
     redis_Get env k (the_redis n) = (w, r) \<Longrightarrow> ran g = ran (flight n) @ [(k, r)] \<Longrightarrow>
     node_step env n (n\<lparr>flight := g, the_redis := w\<rparr>)"
| do_value: "stage n t = In_Do k \<Longrightarrow> sf_pc (flight n) t = Returned k (Some x) \<Longrightarrow>
     node_step env n (set_pc t (Loaded k x) n)"
| do_error: "stage n t = In_Do k \<Longrightarrow> sf_pc (flight n) t = Returned k None \<Longrightarrow>
     node_step env n (set_pc t (Answered k None) n)"
| fill: "stage n t = Loaded k x \<Longrightarrow> long_lived now \<Longrightarrow> Set (the_cache n) k (Some x) now = Some (st, evs) \<Longrightarrow>
     node_step env n (set_pc t (Answered k (Some x)) (n\<lparr>the_cache := st\<rparr>))"
| ask_set: "free (stage n t) \<Longrightarrow> node_step env n (set_pc t (Writing k v) n)"
| set_redis: "stage n t = Writing k v \<Longrightarrow> redis_Set env k v (the_redis n) = (w, ok) \<Longrightarrow>
     node_step env n (set_pc t (Forgetting k) (n\<lparr>the_redis := w, writes := (k, v) # writes n\<rparr>))"
| ask_delete: "free (stage n t) \<Longrightarrow> node_step env n (set_pc t (Erasing k) n)"
| delete_redis: "stage n t = Erasing k \<Longrightarrow> redis_Delete env k (the_redis n) = (w, ok) \<Longrightarrow>
     node_step env n (set_pc t (Forgetting k) (n\<lparr>the_redis := w\<rparr>))"
| forget: "stage n t = Forgetting k \<Longrightarrow> Delete (the_cache n) k = Some (st, b, evs) \<Longrightarrow>
     node_step env n (set_pc t Acked (n\<lparr>the_cache := st\<rparr>))"
| ask_hot: "free (stage n t) \<Longrightarrow> node_step env n (set_pc t (Heating k v) n)"
| heat: "stage n t = Heating k v \<Longrightarrow> long_lived now \<Longrightarrow> Set (the_cache n) k (Some v) now = Some (st, evs) \<Longrightarrow>
     node_step env n (set_pc t Acked (n\<lparr>the_cache := st, writes := (k, v) # writes n\<rparr>))"
| cleanup: "i < length (caches (the_cache n)) \<Longrightarrow> cleanup_bucket (the_cache n) now i = Some (st, evs) \<Longrightarrow>
     node_step env n (n\<lparr>the_cache := st\<rparr>)"

inductive node_reaches :: "('w, 'c) env \<Rightarrow> 'w busy_node \<Rightarrow> 'w busy_node \<Rightarrow> bool" for env where
  refl: "node_reaches env n n"
| step: "node_reaches env n n' \<Longrightarrow> node_step env n' n'' \<Longrightarrow> node_reaches env n n''"

definition start_node :: "options \<Rightarrow> 'w \<Rightarrow> 'w busy_node" where
  "start_node opts w =
     \<lparr>the_cache = NewStore LRU opts, the_redis = w, flight = sf_init, stage = (\<lambda>_. Idle), writes = []\<rparr>"

lemma set_pc_simps [simp]:
  "stage (set_pc t p n) = (stage n)(t := p)" "the_cache (set_pc t p n) = the_cache n" "the_redis (set_pc t p n) = the_redis n"
  "flight (set_pc t p n) = flight n" "writes (set_pc t p n) = writes n"
  by (simp_all add: set_pc_def)

subsection \<open>The invariant\<close>

text \<open>\<open>H\<close> is what redis held at the start or what was written since.\<close>

definition cache_in :: "(string \<times> string) set \<Rightarrow> string lru2 \<Rightarrow> bool" where
  "cache_in H st \<longleftrightarrow> store_inv st \<and> (\<forall>k v e. sview st k = Some (v, e) \<longrightarrow> (\<exists>x. v = Some x \<and> (k, x) \<in> H))"

definition flight_in :: "(string \<times> string) set \<Rightarrow> string option group \<Rightarrow> bool" where
  "flight_in H g \<longleftrightarrow> sf_reachable g \<and> (\<forall>k x. (k, Some x) \<in> set (ran g) \<longrightarrow> (k, x) \<in> H)"

fun pc_in :: "(string \<times> string) set \<Rightarrow> req_pc \<Rightarrow> bool" where
  "pc_in H (Loaded k x) = ((k, x) \<in> H)"
| "pc_in H (Answered k (Some x)) = ((k, x) \<in> H)"
| "pc_in H _ = True"

text \<open>A goroutine is in \<open>Do\<close> with its key exactly at \<open>In_Do\<close>.\<close>

fun pc_agrees :: "req_pc \<Rightarrow> string option pc \<Rightarrow> bool" where
  "pc_agrees (In_Do k) p = (do_key p = Some k \<or> (\<exists>r. p = Returned k r))"
| "pc_agrees q p = (do_key p = None)"

definition node_inv :: "('w \<Rightarrow> string \<rightharpoonup> string) \<Rightarrow> (string \<times> string) set \<Rightarrow> 'w busy_node \<Rightarrow> bool" where
  "node_inv rmap H n \<longleftrightarrow> cache_in H (the_cache n) \<and> flight_in H (flight n) \<and>
     (\<forall>k x. rmap (the_redis n) k = Some x \<longrightarrow> (k, x) \<in> H) \<and>
     (\<forall>t. pc_in H (stage n t) \<and> pc_agrees (stage n t) (sf_pc (flight n) t))"

lemma pc_in_mono: "pc_in H p \<Longrightarrow> H \<subseteq> H' \<Longrightarrow> pc_in H' p"
  by (induction H p rule: pc_in.induct) auto

lemma node_inv_mono: "node_inv rmap H n \<Longrightarrow> H \<subseteq> H' \<Longrightarrow> node_inv rmap H' n"
  unfolding node_inv_def cache_in_def flight_in_def by (meson pc_in_mono subset_iff)

lemma cache_in_shrink:
  "cache_in H st \<Longrightarrow> store_inv st' \<Longrightarrow> \<forall>k. sview st' k = sview st k \<or> sview st' k = None \<Longrightarrow> cache_in H st'"
  unfolding cache_in_def by (metis option.distinct(1))

lemma cache_in_Get:
  assumes "cache_in H st" "Get st k now now' = Some (st', (v, ok), evs)"
  shows "cache_in H st'" "ok \<Longrightarrow> \<exists>x. v = Some x \<and> (k, x) \<in> H"
proof -
  have inv: "store_inv st" using assms(1) by (simp add: cache_in_def)
  have G: "store_inv st'" "\<forall>k'. sview st' k' = sview st k' \<or> sview st' k' = None"
    "ok \<longrightarrow> (\<exists>e. sview st k = Some (v, e) \<and> now < e)"
    using lru2_store.get_law [OF inv, of k now now'] assms(2) by auto
  show "cache_in H st'" by (rule cache_in_shrink [OF assms(1) G(1,2)])
  show "ok \<Longrightarrow> \<exists>x. v = Some x \<and> (k, x) \<in> H" using G(3) assms(1) by (auto simp: cache_in_def)
qed

lemma cache_in_Set:
  assumes "cache_in H st" "Set st k (Some x) now = Some (st', evs)" "long_lived now" "(k, x) \<in> H"
  shows "cache_in H st'"
proof -
  have inv: "store_inv st" using assms(1) by (simp add: cache_in_def)
  have S: "store_inv st'" "sview st' k = Some (Some x, expiry now 9999999999999999)"
    "\<forall>k'. k' \<noteq> k \<longrightarrow> sview st' k' = sview st k' \<or> sview st' k' = None"
    using lru2_store.set_law [OF inv, of k "Some x" 9999999999999999 now] assms(2,3)
    by (auto simp: Set_def long_lived_def)
  have "\<exists>x. v = Some x \<and> (k', x) \<in> H" if "sview st' k' = Some (v, e)" for k' v e
  proof (cases "k' = k")
    case True
    then show ?thesis using that S(2) assms(4) by auto
  next
    case False
    then have "sview st k' = Some (v, e)" using that S(3) by (metis option.distinct(1))
    then show ?thesis using assms(1) by (simp add: cache_in_def)
  qed
  then show ?thesis using S(1) by (simp add: cache_in_def)
qed

lemma cache_in_Delete:
  assumes "cache_in H st" "Delete st k = Some (st', b, evs)"
  shows "cache_in H st'"
proof -
  have inv: "store_inv st" using assms(1) by (simp add: cache_in_def)
  have D: "store_inv st'" "sview st' k = None" "\<forall>k'. k' \<noteq> k \<longrightarrow> sview st' k' = sview st k'"
    using lru2_store.delete_law [OF inv, of k] assms(2) by auto
  show ?thesis by (rule cache_in_shrink [OF assms(1) D(1)]) (use D(2,3) in metis)
qed

lemma cache_in_cleanup:
  assumes "cache_in H st" "i < length (caches st)" "cleanup_bucket st now i = Some (st', evs)"
  shows "cache_in H st'"
proof -
  have inv: "store_inv st" using assms(1) by (simp add: cache_in_def)
  let ?op = "Op_Cleanup now i :: string op"
  have ok: "op_ok (length (caches st)) ?op" using assms(2) by simp
  have m: "op_lasting ?op" "remembers (sview st) (note_op (sview st) ?op)" by (simp_all add: remembers_def)
  have "store_inv st' \<and> remembers (sview st') (sview st)"
    by (rule step_spec [OF inv ok, where m = "sview st"]) (use m assms(3) in simp)
  then show ?thesis using cache_in_shrink [OF assms(1)] by (simp add: remembers_def)
qed

text \<open>How a step of the group moves its goroutine.\<close>

lemma sf_move_key:
  assumes "sf_move t g g'" "do_key (sf_pc g t) = Some k"
  shows "do_key (sf_pc g' t) = Some k \<or> (\<exists>r. sf_pc g' t = Returned k r)"
proof -
  have "sf_step g g'" "sf_pc g' t \<noteq> sf_pc g t" using assms(1) by (simp_all add: sf_move_def)
  then show ?thesis using assms(2)
    by (cases rule: sf_step.cases) (auto split: if_splits)
qed

text \<open>A step that changes the stage of one goroutine and keeps its position in \<open>Do\<close>.\<close>

lemma node_inv_stage:
  assumes "node_inv rmap H n" "stage n' = (stage n)(t := p)" "flight n' = flight n"
    and "pc_in H p" "pc_agrees p (sf_pc (flight n) t)"
    and "cache_in H (the_cache n')" "\<forall>k x. rmap (the_redis n') k = Some x \<longrightarrow> (k, x) \<in> H"
  shows "node_inv rmap H n'"
  using assms by (simp add: node_inv_def)

lemma node_inv_flight:
  assumes "node_inv rmap H n" "stage n' = (stage n)(t := p)" "sf_move t (flight n) (flight n')" "flight_in H (flight n')"
    and "pc_in H p" "pc_agrees p (sf_pc (flight n') t)" "the_cache n' = the_cache n" "the_redis n' = the_redis n"
  shows "node_inv rmap H n'"
  using assms by (auto simp: node_inv_def sf_move_def)

lemma node_invD:
  assumes "node_inv rmap H n"
  shows "cache_in H (the_cache n)" "flight_in H (flight n)" "rmap (the_redis n) k = Some x \<Longrightarrow> (k, x) \<in> H"
    "pc_in H (stage n t)" "pc_agrees (stage n t) (sf_pc (flight n) t)"
  using assms by (auto simp: node_inv_def)

lemma flight_in_step:
  assumes "flight_in H g" "sf_move t g g'" "ran g' = ran g \<or> (\<exists>k r. ran g' = ran g @ [(k, r)] \<and> (\<forall>x. r = Some x \<longrightarrow> (k, x) \<in> H))"
  shows "flight_in H g'"
proof -
  have "sf_reachable g'" using assms(1,2) sf_reachable.step by (auto simp: flight_in_def sf_move_def)
  then show ?thesis using assms(1,3) by (auto simp: flight_in_def)
qed

lemma free_agrees: "free p \<Longrightarrow> pc_agrees p q \<Longrightarrow> do_key q = None"
  by (cases p) auto

lemma node_step_inv:
  assumes laws: "redis_laws env rmap" and start: "node_inv rmap H0 n" and st: "node_step env n n'"
    and H: "H = H0 \<union> set (writes n')"
  shows "node_inv rmap H n'"
proof -
  have inv: "node_inv rmap H n" using node_inv_mono [OF start] H by blast
  note D = node_invD [OF inv]
  have redis: "\<forall>k x. rmap (the_redis n) k = Some x \<longrightarrow> (k, x) \<in> H" using D(3) by blast
  note stage = node_inv_stage [OF inv]
  note L = redis_lawsD [OF laws]
  have idle: "do_key (sf_pc (flight n) t) = None" if "free (stage n t)" for t
    using free_agrees [OF that D(5)] .
  show ?thesis using st
  proof (cases rule: node_step.cases)
    case (ask_get t k)
    then show ?thesis using stage [of n' t "Looking k"] idle [of t] D(1) redis by simp
  next
    case (cache_hit t k now now' st x evs)
    then show ?thesis using stage [of n' t "Answered k (Some x)"] D(5) [of t] cache_in_Get [OF D(1) cache_hit(3)] redis by auto
  next
    case (cache_miss t k now now' st v evs)
    then show ?thesis using stage [of n' t "Cache_missed k"] D(5) [of t] cache_in_Get [OF D(1)] redis by auto
  next
    case (do_enter t k g)
    then show ?thesis
      using node_inv_flight [OF inv, of n' t "In_Do k"] flight_in_step [OF D(2)] by simp
  next
    case (do_step t k g)
    have "flight_in H g" by (rule flight_in_step [OF D(2) do_step(4)]) (simp add: do_step(5))
    then show ?thesis
      using do_step node_inv_flight [OF inv, of n' t "In_Do k"] sf_move_key [OF do_step(4,3)] by (simp add: fun_upd_idem)
  next
    case (do_fn t k g w r)
    then have "w = the_redis n" "r = rmap (the_redis n) k" using L(1) by auto
    moreover have "flight_in H g"
      by (rule flight_in_step [OF D(2) do_fn(4)]) (use do_fn(6) calculation redis in auto)
    ultimately show ?thesis
      using do_fn node_inv_flight [OF inv, of n' t "In_Do k"] sf_move_key [OF do_fn(4,3)] by (simp add: fun_upd_idem)
  next
    case (do_value t k x)
    then have "(k, Some x) \<in> set (ran (flight n))" using D(2) Do_returns by (auto simp: flight_in_def)
    then have "(k, x) \<in> H" using D(2) by (auto simp: flight_in_def)
    then show ?thesis using do_value stage [of n' t "Loaded k x"] D(1) redis by simp
  next
    case (do_error t k)
    then show ?thesis using stage [of n' t "Answered k None"] D(1) redis by simp
  next
    case (fill t k x now st evs)
    then have "(k, x) \<in> H" using D(4) [of t] by simp
    then show ?thesis
      using fill stage [of n' t "Answered k (Some x)"] D(5) [of t] cache_in_Set [OF D(1)] redis by simp
  next
    case (ask_set t k v)
    then show ?thesis using stage [of n' t "Writing k v"] idle [of t] D(1) redis by simp
  next
    case (set_redis t k v w ok)
    then have "rmap w = (rmap (the_redis n))(k \<mapsto> v)" using L(2) by (metis fst_conv)
    moreover have "(k, v) \<in> H" using set_redis(1) H by simp
    ultimately have "\<forall>k x. rmap (the_redis n') k = Some x \<longrightarrow> (k, x) \<in> H" using set_redis(1) redis by auto
    then show ?thesis using set_redis stage [of n' t "Forgetting k"] D(5) [of t] D(1) by simp
  next
    case (ask_delete t k)
    then show ?thesis using stage [of n' t "Erasing k"] idle [of t] D(1) redis by simp
  next
    case (delete_redis t k w ok)
    then have "rmap w = (rmap (the_redis n))(k := None)" using L(3) by (metis fst_conv)
    then show ?thesis using delete_redis stage [of n' t "Forgetting k"] D(5) [of t] D(1) redis by simp
  next
    case (forget t k st b evs)
    then show ?thesis using stage [of n' t Acked] D(5) [of t] cache_in_Delete [OF D(1)] redis by simp
  next
    case (ask_hot t k v)
    then show ?thesis using stage [of n' t "Heating k v"] idle [of t] D(1) redis by simp
  next
    case (heat t k v now st evs)
    then show ?thesis using stage [of n' t Acked] D(5) [of t] cache_in_Set [OF D(1)] redis H by simp
  next
    case (cleanup i now st evs)
    then show ?thesis using stage [of n' 0 "stage n 0"] D(4,5) [of 0] cache_in_cleanup [OF D(1)] redis by simp
  qed
qed

lemma writes_grow: "node_step env n n' \<Longrightarrow> set (writes n) \<subseteq> set (writes n')"
  by (cases rule: node_step.cases) auto

definition held_at_start :: "('w \<Rightarrow> string \<rightharpoonup> string) \<Rightarrow> 'w \<Rightarrow> (string \<times> string) set" where
  "held_at_start rmap w = {(k, x). rmap w k = Some x}"

lemma start_node_inv:
  assumes "good_options opts"
  shows "node_inv rmap (held_at_start rmap w) (start_node opts w)"
proof -
  have "store_inv (NewStore LRU opts :: string lru2)" "sview (NewStore LRU opts :: string lru2) = (\<lambda>_. None)"
    using newLRU2Cache_spec [OF assms] by (simp_all add: NewStore_def)
  moreover have "sf_reachable (sf_init :: string option group)" by (rule sf_reachable.init)
  ultimately show ?thesis
    by (simp add: node_inv_def start_node_def cache_in_def flight_in_def sf_init_def held_at_start_def)
qed

lemma node_reaches_inv:
  assumes "redis_laws env rmap" "good_options opts"
  shows "node_reaches env (start_node opts w) n \<Longrightarrow> node_inv rmap (held_at_start rmap w \<union> set (writes n)) n"
proof (induction "start_node opts w" n rule: node_reaches.induct)
  case refl
  then show ?case using start_node_inv [OF assms(2)] by (simp add: start_node_def)
next
  case (step n' n'')
  have "held_at_start rmap w \<union> set (writes n'') = (held_at_start rmap w \<union> set (writes n')) \<union> set (writes n'')"
    using writes_grow [OF step(3)] by auto
  then show ?case using node_step_inv [OF assms(1) step(2,3)] by metis
qed

definition concurrent_start :: "(string \<rightharpoonup> string) busy_node" where
  "concurrent_start = start_node small_store_options Map.empty"

text \<open>An execution in which a hot key is put into the cache and then read.\<close>

lemma hot_read:
  fixes w :: "string \<rightharpoonup> string"
  obtains n n' n'' e where "node_reaches map_env (start_node small_store_options w) n"
    "node_step map_env n n'" "node_step map_env n' n''" "the_redis n = w" "stage n = (\<lambda>_. Idle)(1 := Acked)"
    "sview (the_cache n) ''k'' = Some (Some ''v'', e)" "stage n' = (\<lambda>_. Idle)(1 := Looking ''k'')"
    "stage n'' 1 = Answered ''k'' (Some ''v'')"
proof -
  have o: "good_options small_store_options" by code_simp
  let ?n0 = "start_node small_store_options w"
  let ?st0 = "newLRU2Cache small_store_options :: string lru2"
  let ?e = "expiry 1 9999999999999999"
  have st0: "the_cache ?n0 = ?st0" by (simp add: start_node_def NewStore_def)
  have l: "0 < ?e" "2 < ?e" by (simp_all add: expiry_def int64_def)
  obtain st1 evs1 where S: "SetWithExpiration ?st0 ''k'' (Some ''v'') 9999999999999999 1 = Some (st1, evs1)" "store_inv st1"
    "sview st1 ''k'' = Some (Some ''v'', ?e)"
    using lru2_store.set_law [OF newLRU2Cache_spec(1) [OF o], of "''k''" "Some ''v''" 9999999999999999 1] l(1) by auto
  obtain st2 evs2 where G: "Get st1 ''k'' 2 2 = Some (st2, (Some ''v'', True), evs2)"
    using lru2_store.get_law [OF S(2), of "''k''" 2 2] S(3) l(2) by auto
  let ?n1 = "set_pc 1 (Heating ''k'' ''v'') ?n0"
  let ?n2 = "set_pc 1 Acked (?n1\<lparr>the_cache := st1, writes := (''k'', ''v'') # writes ?n1\<rparr>)"
  let ?n3 = "set_pc 1 (Looking ''k'') ?n2"
  let ?n4 = "set_pc 1 (Answered ''k'' (Some ''v'')) (?n3\<lparr>the_cache := st2\<rparr>)"
  have "node_reaches map_env ?n0 ?n1"
    by (rule node_reaches.step [OF node_reaches.refl], rule node_step.ask_hot) (simp add: start_node_def)
  then have r: "node_reaches map_env ?n0 ?n2"
    by (rule node_reaches.step, intro node_step.heat [where now = 1])
      (use S(1) l(1) in \<open>simp_all add: st0 Set_def long_lived_def\<close>)
  have s3: "node_step map_env ?n2 ?n3" by (rule node_step.ask_get) simp
  have s4: "node_step map_env ?n3 ?n4" by (rule node_step.cache_hit [where now = 2 and now' = 2]) (use G in simp_all)
  show thesis
    by (rule that [OF r s3 s4, where e = ?e]) (simp_all add: S(3), simp_all add: start_node_def fun_eq_iff)
qed

text \<open>
  C6. Concurrent requests: in every interleaving of gets, sets, deletes, hot writes and cleanups on one
  node, with the loads of concurrent gets shared through \<open>singleflight\<close>, a get that answers a value
  answers one that redis held for the key at the start or that a request wrote to the key. Late
  fills can make it an old value, but never a value of another key or one that nobody wrote.
\<close>
theorem concurrent_answers_were_written:
  assumes "redis_laws env rmap" "good_options opts" "node_reaches env (start_node opts w) n"
    and "stage n t = Answered k (Some x)"
  shows "rmap w k = Some x \<or> (k, x) \<in> set (writes n)"
  using node_invD(4) [OF node_reaches_inv [OF assms(1-3)], of t] assms(4) by (simp add: held_at_start_def)

theorem concurrent_answers_were_written_witness:
  "\<exists>n. node_reaches map_env concurrent_start n \<and> stage n 1 = Answered ''k'' (Some ''v'') \<and> (''k'', ''v'') \<in> set (writes n)"
proof -
  have o: "good_options small_store_options" by code_simp
  have laws: "redis_laws map_env (\<lambda>w. w)" by (rule map_env_laws)
  obtain n n' n'' where r: "node_reaches map_env (start_node small_store_options Map.empty) n"
    "node_step map_env n n'" "node_step map_env n' n''"
    and s: "stage n'' 1 = Answered ''k'' (Some ''v'')"
    by (rule hot_read [where w = "Map.empty :: string \<rightharpoonup> string"]) auto
  have r'': "node_reaches map_env (start_node small_store_options Map.empty) n''"
    using r by (blast intro: node_reaches.step)
  from concurrent_answers_were_written [OF laws o r'' s] show ?thesis
    using r'' s by (auto simp: concurrent_start_def)
qed

subsection \<open>Progress\<close>

definition can_move :: "('w, 'c) env \<Rightarrow> 'w busy_node \<Rightarrow> nat \<Rightarrow> bool" where
  "can_move env n t \<longleftrightarrow> (\<exists>n'. node_step env n n' \<and>
     (stage n' t \<noteq> stage n t \<or> sf_pc (flight n') t \<noteq> sf_pc (flight n) t))"

text \<open>A goroutine that is not in \<open>Do\<close> can enter it; one that runs a call can go on, whatever \<open>fn\<close> returns.\<close>

lemma sf_enters:
  assumes "do_key (sf_pc g t) = None"
  obtains g' where "sf_move t g g'" "do_key (sf_pc g' t) = Some k" "ran g' = ran g"
proof (cases "sf_m g k")
  case None
  have ne: "sf_pc g t \<noteq> Missed k" using assms by auto
  have "sf_pc g t = Outside \<or> (\<exists>k' r. sf_pc g t = Returned k' r)" using assms by (cases "sf_pc g t") auto
  then have "sf_step g (goto t (Missed k) g)" using None by (rule sf_step.load_miss)
  then show thesis using that [of "goto t (Missed k) g"] ne by (auto simp: sf_move_def)
next
  case (Some c)
  have ne: "sf_pc g t \<noteq> Waiting k c" using assms by auto
  have "sf_pc g t = Outside \<or> (\<exists>k' r. sf_pc g t = Returned k' r)" using assms by (cases "sf_pc g t") auto
  then have "sf_step g (goto t (Waiting k c) g)" using Some by (rule sf_step.load_hit)
  then show thesis using that [of "goto t (Waiting k c) g"] ne by (auto simp: sf_move_def)
qed

lemma sf_runs_on:
  assumes "sf_inv g" "do_key (sf_pc g t) = Some k" "\<nexists>c. sf_pc g t = Waiting k c"
  obtains g' where "sf_move t g g'" "ran g' = ran g \<or> ran g' = ran g @ [(k, r)]"
proof (cases "sf_pc g t")
  case (Missed k')
  from sf_step.store [OF this] show thesis using that assms(2) Missed by (fastforce simp: sf_move_def)
next
  case (Running k' c)
  from sf_step.fn_returns [OF this, of r] show thesis using that assms(2) Running by (fastforce simp: sf_move_def)
next
  case (Assigned k' c)
  from sf_step.wg_done [OF this] show thesis using that assms(2) Assigned by (fastforce simp: sf_move_def)
next
  case (Finished k' c)
  have "pc_ok g (sf_pc g t)" using assms(1) by (simp add: sf_inv_def pcs_ok_def)
  then obtain v where "call_val (sf_calls g ! c) = Some v"
    using assms(1) Finished by (fastforce simp: sf_inv_def calls_ok_def)
  from sf_step.delete [OF Finished this] show thesis using that assms(2) Finished by (fastforce simp: sf_move_def)
qed (use assms in auto)

lemma sf_waits:
  assumes "sf_inv g" "sf_pc g t = Waiting k c"
  shows "(\<exists>g'. sf_move t g g' \<and> ran g' = ran g) \<or> (\<exists>t'. runs (sf_pc g t') = Some c)"
proof -
  have c: "c < length (sf_calls g)" using assms by (force simp: sf_inv_def pcs_ok_def dest: spec [of _ t])
  show ?thesis
  proof (cases "call_done (sf_calls g ! c)")
    case True
    then obtain r where "call_val (sf_calls g ! c) = Some r"
      using assms(1) c by (fastforce simp: sf_inv_def calls_ok_def)
    from sf_step.wait_ends [OF assms(2) True this] show ?thesis
      using assms(2) by (intro disjI1 exI [of _ "goto t (Returned k r) g"]) (simp add: sf_move_def)
  next
    case False
    then show ?thesis using assms(1) c by (auto simp: sf_inv_def has_runner_def)
  qed
qed

lemma node_reaches_sf_inv:
  assumes "node_inv rmap H n"
  shows "sf_inv (flight n)"
  using node_invD(2) [OF assms] sf_reachable_inv by (auto simp: flight_in_def)

lemma move_in_Do:
  assumes "redis_laws env rmap" "stage n t = In_Do k" "do_key (sf_pc (flight n) t) = Some k"
    and "sf_move t (flight n) g" "ran g = ran (flight n) \<or> ran g = ran (flight n) @ [(k, rmap (the_redis n) k)]"
  shows "can_move env n t"
proof -
  have m: "sf_pc g t \<noteq> sf_pc (flight n) t" using assms(4) by (simp add: sf_move_def)
  have r: "redis_Get env k (the_redis n) = (the_redis n, rmap (the_redis n) k)" by (rule redis_lawsD(1) [OF assms(1)])
  show ?thesis using assms(5)
  proof
    assume "ran g = ran (flight n)"
    from node_step.do_step [OF assms(2,3,4) this] m show ?thesis unfolding can_move_def
      by (intro exI [of _ "n\<lparr>flight := g\<rparr>"]) simp
  next
    assume "ran g = ran (flight n) @ [(k, rmap (the_redis n) k)]"
    from node_step.do_fn [OF assms(2,3,4) r this] m show ?thesis unfolding can_move_def
      by (intro exI [of _ "n\<lparr>flight := g, the_redis := the_redis n\<rparr>"]) simp
  qed
qed

text \<open>A change of the stage is a move.\<close>

lemma stage_moves: "node_step env n n' \<Longrightarrow> stage n' t \<noteq> stage n t \<Longrightarrow> can_move env n t"
  by (auto simp: can_move_def)

lemma runner_can_move:
  assumes "redis_laws env rmap" "node_inv rmap H n" "runs (sf_pc (flight n) t) = Some c"
  shows "can_move env n t"
proof -
  obtain k where k: "do_key (sf_pc (flight n) t) = Some k" "\<nexists>c. sf_pc (flight n) t = Waiting k c"
    using assms(3) by (cases "sf_pc (flight n) t") auto
  have s: "stage n t = In_Do k" using node_invD(5) [OF assms(2), of t] k(1) by (cases "stage n t") auto
  obtain g where "sf_move t (flight n) g"
    "ran g = ran (flight n) \<or> ran g = ran (flight n) @ [(k, rmap (the_redis n) k)]"
    by (rule sf_runs_on [OF node_reaches_sf_inv [OF assms(2)] k])
  then show ?thesis by (rule move_in_Do [OF assms(1) s k(1)])
qed

lemma long_lived_now: "long_lived 0"
  by (simp add: long_lived_def expiry_def int64_def)

lemma Set_runs:
  assumes "cache_in H st"
  obtains st' evs where "Set st k v now = Some (st', evs)"
  using assms lru2_store.set_law [of st k v 9999999999999999 now] by (auto simp: cache_in_def Set_def)

lemma busy_moves:
  assumes laws: "redis_laws env rmap" and inv: "node_inv rmap H n" and busy: "\<not> free (stage n t)"
  shows "can_move env n t \<or> (\<exists>k c t'. sf_pc (flight n) t = Waiting k c \<and> runs (sf_pc (flight n) t') = Some c \<and> can_move env n t')"
proof (cases "stage n t")
  case (Looking k)
  have "store_inv (the_cache n)" using node_invD(1) [OF inv] by (simp add: cache_in_def)
  then obtain st v ok evs where G: "Get (the_cache n) k 0 0 = Some (st, (v, ok), evs)"
    using lru2_store.get_law [of "the_cache n" k 0 0] by blast
  show ?thesis
  proof (cases ok)
    case True
    then obtain x where "v = Some x" using cache_in_Get(2) [OF node_invD(1) [OF inv] G] by auto
    then have "node_step env n (set_pc t (Answered k (Some x)) (n\<lparr>the_cache := st\<rparr>))"
      using node_step.cache_hit [OF Looking] G True by simp
    from stage_moves [OF this, of t] Looking show ?thesis by simp
  next
    case False
    then have "node_step env n (set_pc t (Cache_missed k) (n\<lparr>the_cache := st\<rparr>))"
      using node_step.cache_miss [OF Looking] G by simp
    from stage_moves [OF this, of t] Looking show ?thesis by simp
  qed
next
  case (Cache_missed k)
  then have "do_key (sf_pc (flight n) t) = None" using node_invD(5) [OF inv, of t] by simp
  then obtain g where "sf_move t (flight n) g" "do_key (sf_pc g t) = Some k" "ran g = ran (flight n)"
    by (rule sf_enters)
  from stage_moves [OF node_step.do_enter [where env = env, OF Cache_missed this], of t] Cache_missed show ?thesis by simp
next
  case (In_Do k)
  then consider r where "sf_pc (flight n) t = Returned k r" | c where "sf_pc (flight n) t = Waiting k c"
    | "do_key (sf_pc (flight n) t) = Some k" "\<nexists>c. sf_pc (flight n) t = Waiting k c"
    using node_invD(5) [OF inv, of t] by auto
  then show ?thesis
  proof cases
    case (1 r)
    show ?thesis
    proof (cases r)
      case None
      from stage_moves [OF node_step.do_error [where env = env, OF In_Do 1 [unfolded None]], of t] In_Do show ?thesis by simp
    next
      case (Some x)
      from stage_moves [OF node_step.do_value [where env = env, OF In_Do 1 [unfolded Some]], of t] In_Do show ?thesis by simp
    qed
  next
    case (2 c)
    have d: "do_key (sf_pc (flight n) t) = Some k" using 2 by simp
    from sf_waits [OF node_reaches_sf_inv [OF inv] 2] show ?thesis
    proof
      assume "\<exists>g'. sf_move t (flight n) g' \<and> ran g' = ran (flight n)"
      then show ?thesis using move_in_Do [OF laws In_Do d] by blast
    next
      assume "\<exists>t'. runs (sf_pc (flight n) t') = Some c"
      then show ?thesis using runner_can_move [OF laws inv] 2 by blast
    qed
  next
    case 3
    obtain g where "sf_move t (flight n) g"
      "ran g = ran (flight n) \<or> ran g = ran (flight n) @ [(k, rmap (the_redis n) k)]"
      by (rule sf_runs_on [OF node_reaches_sf_inv [OF inv] 3])
    then show ?thesis using move_in_Do [OF laws In_Do 3(1)] by blast
  qed
next
  case (Loaded k x)
  obtain st evs where "Set (the_cache n) k (Some x) 0 = Some (st, evs)" by (rule Set_runs [OF node_invD(1) [OF inv]])
  from stage_moves [OF node_step.fill [where env = env, OF Loaded long_lived_now this], of t] Loaded show ?thesis by simp
next
  case (Writing k v)
  obtain w ok where "redis_Set env k v (the_redis n) = (w, ok)" by force
  from stage_moves [OF node_step.set_redis [where env = env, OF Writing this], of t] Writing show ?thesis by simp
next
  case (Erasing k)
  obtain w ok where "redis_Delete env k (the_redis n) = (w, ok)" by force
  from stage_moves [OF node_step.delete_redis [where env = env, OF Erasing this], of t] Erasing show ?thesis by simp
next
  case (Forgetting k)
  have "store_inv (the_cache n)" using node_invD(1) [OF inv] by (simp add: cache_in_def)
  then obtain st evs where "Delete (the_cache n) k = Some (st, sview (the_cache n) k \<noteq> None, evs)"
    using lru2_store.delete_law [of "the_cache n" k] by blast
  from stage_moves [OF node_step.forget [where env = env, OF Forgetting this], of t] Forgetting show ?thesis by simp
next
  case (Heating k v)
  obtain st evs where "Set (the_cache n) k (Some v) 0 = Some (st, evs)" by (rule Set_runs [OF node_invD(1) [OF inv]])
  from stage_moves [OF node_step.heat [where env = env, OF Heating long_lived_now this], of t] Heating show ?thesis by simp
qed (use busy in auto)

text \<open>
  No request gets stuck or panics: in every reachable state a goroutine that has not answered can
  take its next step, or it waits in \<open>Do\<close> for a call that another goroutine is running, and that one
  can take its next step.
\<close>
lemma requests_make_progress:
  assumes "redis_laws env rmap" "good_options opts" "node_reaches env (start_node opts w) n" "\<not> free (stage n t)"
  shows "can_move env n t \<or>
    (\<exists>k c t'. sf_pc (flight n) t = Waiting k c \<and> runs (sf_pc (flight n) t') = Some c \<and> can_move env n t')"
  by (rule busy_moves [OF assms(1) node_reaches_inv [OF assms(1-3)] assms(4)])

lemma requests_make_progress_witness:
  "can_move map_env (set_pc 3 (Looking ''k'') concurrent_start) 3"
proof -
  have o: "good_options small_store_options" by code_simp
  have laws: "redis_laws map_env (\<lambda>w. w)" by (rule map_env_laws)
  let ?n = "set_pc 3 (Looking ''k'') (start_node small_store_options (Map.empty :: string \<rightharpoonup> string))"
  have r: "node_reaches map_env (start_node small_store_options Map.empty) ?n"
    by (rule node_reaches.step [OF node_reaches.refl], rule node_step.ask_get) (simp add: start_node_def)
  have b: "\<not> free (stage ?n 3)" by simp
  have "sf_pc (flight ?n) 3 = Outside" by (simp add: start_node_def sf_init_def)
  with requests_make_progress [OF laws o r b] show ?thesis by (simp add: concurrent_start_def)
qed

end
