(* ===== verification/Server_Fresh.thy ===== *)
theory Server_Fresh
  imports Server_Concurrent
begin

text \<open>
  When the answers of concurrent gets are fresh: from a state in which nobody loads or writes a key
  and the cache does not contradict redis, every get of the key that is answered before the next
  write answers what redis holds. The loads of the group are told apart by the numbers of their
  calls: those from \<open>N\<close> on started after that state.
\<close>

subsection \<open>Calls that are in the map are running\<close>

definition map_runs :: "'r group \<Rightarrow> bool" where
  "map_runs g \<longleftrightarrow> (\<forall>k c. sf_m g k = Some c \<longrightarrow> (\<exists>t. runs (sf_pc g t) = Some c \<and> do_key (sf_pc g t) = Some k))"

lemma map_runs_goto:
  assumes "map_runs g" "sf_m g' = sf_m g" "sf_pc g' = (sf_pc g)(t := p)"
    and "runs (sf_pc g t) = runs p" "runs p \<noteq> None \<Longrightarrow> do_key (sf_pc g t) = do_key p"
  shows "map_runs g'"
  unfolding map_runs_def
proof (intro allI impI)
  fix k c assume "sf_m g' k = Some c"
  then obtain t' where t': "runs (sf_pc g t') = Some c" "do_key (sf_pc g t') = Some k"
    using assms(1,2) by (auto simp: map_runs_def)
  then have "runs (sf_pc g' t') = Some c \<and> do_key (sf_pc g' t') = Some k" using assms(3-5) by auto
  then show "\<exists>t. runs (sf_pc g' t) = Some c \<and> do_key (sf_pc g' t) = Some k" ..
qed

lemma sf_step_map_runs:
  assumes "sf_step g g'" "sf_inv g" "map_runs g"
  shows "map_runs g'"
  using assms(1)
proof (cases rule: sf_step.cases)
  case (load_hit t k c)
  then show ?thesis by (intro map_runs_goto [OF assms(3), of _ t "Waiting k c"]) auto
next
  case (load_miss t k)
  then show ?thesis by (intro map_runs_goto [OF assms(3), of _ t "Missed k"]) auto
next
  case (store t k)
  show ?thesis unfolding map_runs_def
  proof (intro allI impI)
    fix k' c assume c: "sf_m g' k' = Some c"
    show "\<exists>t. runs (sf_pc g' t) = Some c \<and> do_key (sf_pc g' t) = Some k'"
    proof (cases "k' = k")
      case True
      then have "runs (sf_pc g' t) = Some c \<and> do_key (sf_pc g' t) = Some k'" using c store by simp
      then show ?thesis ..
    next
      case False
      then obtain t' where t': "runs (sf_pc g t') = Some c" "do_key (sf_pc g t') = Some k'"
        using c store assms(3) by (auto simp: map_runs_def)
      then have "t' \<noteq> t" using store(2) by auto
      then show ?thesis using t' store(1) by (intro exI [of _ t']) simp
    qed
  qed
next
  case (fn_returns t k c r)
  then show ?thesis by (intro map_runs_goto [OF assms(3), of _ t "Assigned k c"]) auto
next
  case (wg_done t k c)
  then show ?thesis by (intro map_runs_goto [OF assms(3), of _ t "Finished k c"]) auto
next
  case (delete t k c r)
  show ?thesis unfolding map_runs_def
  proof (intro allI impI)
    fix k' c' assume c: "sf_m g' k' = Some c'"
    then have k': "k' \<noteq> k" "sf_m g k' = Some c'" using delete(1) by (auto split: if_splits)
    then obtain t' where t': "runs (sf_pc g t') = Some c'" "do_key (sf_pc g t') = Some k'"
      using assms(3) by (auto simp: map_runs_def)
    then have "t' \<noteq> t" using delete(2) k'(1) by auto
    then show "\<exists>t. runs (sf_pc g' t) = Some c' \<and> do_key (sf_pc g' t) = Some k'"
      using t' delete(1) by (intro exI [of _ t']) simp
  qed
next
  case (wait_ends t k c r)
  then show ?thesis by (intro map_runs_goto [OF assms(3), of _ t "Returned k r"]) auto
qed

lemma reachable_map_runs: "sf_reachable g \<Longrightarrow> map_runs g"
proof (induction rule: sf_reachable.induct)
  case init
  show ?case by (simp add: map_runs_def sf_init_def)
next
  case (step s s')
  then show ?case using sf_step_map_runs sf_reachable_inv by blast
qed

subsection \<open>Late calls return what redis holds\<close>

definition late :: "nat \<Rightarrow> string \<Rightarrow> 'r \<Rightarrow> 'r group \<Rightarrow> bool" where
  "late N k r g \<longleftrightarrow> N \<le> length (sf_calls g) \<and> (\<forall>c. sf_m g k = Some c \<longrightarrow> N \<le> c) \<and>
     (\<forall>t c. do_key (sf_pc g t) = Some k \<longrightarrow> (sf_pc g t = Waiting k c \<or> runs (sf_pc g t) = Some c) \<longrightarrow> N \<le> c) \<and>
     (\<forall>c v. N \<le> c \<longrightarrow> c < length (sf_calls g) \<longrightarrow> call_key (sf_calls g ! c) = k \<longrightarrow>
        call_val (sf_calls g ! c) = Some v \<longrightarrow> v = r)"

lemma late_start:
  assumes "sf_reachable g" "\<forall>t. do_key (sf_pc g t) \<noteq> Some k"
  shows "late (length (sf_calls g)) k r g"
  using reachable_map_runs [OF assms(1)] assms(2) by (auto simp: late_def map_runs_def)

lemma lateD:
  assumes "late N k r g"
  shows "N \<le> length (sf_calls g)" "sf_m g k = Some c \<Longrightarrow> N \<le> c" "sf_pc g t = Waiting k c \<Longrightarrow> N \<le> c"
    "do_key (sf_pc g t) = Some k \<Longrightarrow> runs (sf_pc g t) = Some c \<Longrightarrow> N \<le> c"
    "N \<le> c \<Longrightarrow> c < length (sf_calls g) \<Longrightarrow> call_key (sf_calls g ! c) = k \<Longrightarrow>
       call_val (sf_calls g ! c) = Some v \<Longrightarrow> v = r"
proof -
  show "sf_pc g t = Waiting k c \<Longrightarrow> N \<le> c" using assms unfolding late_def by (metis do_key.simps(4))
qed (use assms in \<open>auto simp: late_def\<close>)

text \<open>A step that only moves a goroutine and perhaps drops keys from the map.\<close>

lemma late_goto:
  assumes "late N k r g" "sf_calls g' = sf_calls g" "\<forall>c. sf_m g' k = Some c \<longrightarrow> sf_m g k = Some c"
    and "sf_pc g' = (sf_pc g)(t := p)"
    and "\<And>c. do_key p = Some k \<Longrightarrow> p = Waiting k c \<or> runs p = Some c \<Longrightarrow> N \<le> c"
  shows "late N k r g'"
  unfolding late_def
proof (intro conjI allI impI)
  fix t' c
  assume "do_key (sf_pc g' t') = Some k" "sf_pc g' t' = Waiting k c \<or> runs (sf_pc g' t') = Some c"
  then show "N \<le> c" using assms(4,5) lateD(3,4) [OF assms(1)] by (cases "t' = t") auto
qed (use assms(2,3) lateD [OF assms(1)] in auto)

lemma late_step:
  assumes "sf_step g g'" "sf_inv g" "late N k r g"
    and "\<And>v. ran g' = ran g @ [(k, v)] \<Longrightarrow> v = r"
  shows "late N k r g'"
proof -
  have pcs: "pc_ok g (sf_pc g t)" for t using assms(2) by (simp add: sf_inv_def pcs_ok_def)
  note L = lateD [OF assms(3)]
  show ?thesis using assms(1)
  proof (cases rule: sf_step.cases)
    case (load_hit t k' c)
    then show ?thesis using L(2) by (intro late_goto [OF assms(3), of _ t "Waiting k' c"]) auto
  next
    case (load_miss t k')
    then show ?thesis by (intro late_goto [OF assms(3), of _ t "Missed k'"]) auto
  next
    case (store t k')
    show ?thesis unfolding late_def
    proof (intro conjI allI impI)
      show "N \<le> length (sf_calls g')" using L(1) store(1) by simp
      show "\<And>c. sf_m g' k = Some c \<Longrightarrow> N \<le> c" using L(1,2) store(1) by (auto split: if_splits)
    next
      fix t' c
      assume "do_key (sf_pc g' t') = Some k" "sf_pc g' t' = Waiting k c \<or> runs (sf_pc g' t') = Some c"
      then show "N \<le> c" using L(1,3,4) store(1) by (cases "t' = t") auto
    next
      fix c v
      assume "N \<le> c" "c < length (sf_calls g')" "call_key (sf_calls g' ! c) = k" "call_val (sf_calls g' ! c) = Some v"
      then show "v = r" using L(5) store(1) by (cases "c = length (sf_calls g)") (auto simp: nth_append)
    qed
  next
    case (fn_returns t k' c v)
    have c: "c < length (sf_calls g)" "call_key (sf_calls g ! c) = k'" using pcs [of t] fn_returns(2) by simp_all
    have v: "v = r" if "k' = k" using assms(4) [of v] fn_returns(1) that by simp
    have "late N k r (goto t (Assigned k' c) g)"
      by (rule late_goto [OF assms(3), of _ t "Assigned k' c"]) (use L(4) [of t] fn_returns(2) in auto)
    then show ?thesis using c v unfolding late_def fn_returns(1)
      by (auto simp: nth_list_update upd_call_def goto_def split: if_splits)
  next
    case (wg_done t k' c)
    have c: "c < length (sf_calls g)" "call_key (sf_calls g ! c) = k'" using pcs [of t] wg_done(2) by simp_all
    have "late N k r (goto t (Finished k' c) g)"
      by (rule late_goto [OF assms(3), of _ t "Finished k' c"]) (use L(4) [of t] wg_done(2) in auto)
    then show ?thesis using c unfolding late_def wg_done(1)
      by (auto simp: nth_list_update upd_call_def goto_def split: if_splits)
  next
    case (delete t k' c v)
    then show ?thesis by (intro late_goto [OF assms(3), of _ t "Returned k' v"]) auto
  next
    case (wait_ends t k' c v)
    then show ?thesis by (intro late_goto [OF assms(3), of _ t "Returned k' v"]) auto
  qed
qed

lemma late_result:
  assumes "sf_step g g'" "sf_inv g" "late N k r g" "do_key (sf_pc g t) = Some k" "sf_pc g' t = Returned k v"
  shows "v = r"
proof -
  have pcs: "pc_ok g (sf_pc g t)" using assms(2) by (simp add: sf_inv_def pcs_ok_def)
  note L = lateD(3-5) [OF assms(3)]
  show ?thesis using assms(1)
  proof (cases rule: sf_step.cases)
    case (delete t' k' c v')
    then have t: "t' = t" "k' = k" "v' = v" using assms(4,5) by (auto split: if_splits)
    then have "N \<le> c" using L(2) [OF assms(4)] delete(2) by simp
    then show ?thesis using L(3) [of c v] pcs delete t by simp
  next
    case (wait_ends t' k' c v')
    then have t: "t' = t" "k' = k" "v' = v" using assms(4,5) by (auto split: if_splits)
    then have "N \<le> c" using L(1) [of t c] wait_ends(2) by simp
    then show ?thesis using L(3) [of c v] pcs wait_ends t by simp
  qed (use assms(4,5) in \<open>auto split: if_splits\<close>)
qed

subsection \<open>A key that nobody writes\<close>

fun writing :: "string \<Rightarrow> req_pc \<Rightarrow> bool" where
  "writing k (Writing k' v) = (k' = k)"
| "writing k (Erasing k') = (k' = k)"
| "writing k (Heating k' v) = (k' = k)"
| "writing k _ = False"

fun loading :: "string \<Rightarrow> req_pc \<Rightarrow> bool" where
  "loading k (In_Do k') = (k' = k)"
| "loading k (Loaded k' x) = (k' = k)"
| "loading k _ = False"

text \<open>Nobody loads or writes the key, and a cached value of it is the one in redis.\<close>

definition settled :: "('w \<Rightarrow> string \<rightharpoonup> string) \<Rightarrow> string \<Rightarrow> 'w busy_node \<Rightarrow> bool" where
  "settled rmap k n \<longleftrightarrow> (\<forall>t. \<not> loading k (stage n t) \<and> \<not> writing k (stage n t)) \<and>
     (\<forall>u e. sview (the_cache n) k = Some (u, e) \<longrightarrow> u = rmap (the_redis n) k)"

text \<open>Executions in which no goroutine starts to write the key.\<close>

inductive quiet_reaches :: "('w, 'c) env \<Rightarrow> string \<Rightarrow> 'w busy_node \<Rightarrow> 'w busy_node \<Rightarrow> bool" for env k where
  refl: "quiet_reaches env k n n"
| step: "quiet_reaches env k n n' \<Longrightarrow> node_step env n' n'' \<Longrightarrow> \<forall>t. \<not> writing k (stage n'' t) \<Longrightarrow>
     quiet_reaches env k n n''"

text \<open>What such an execution keeps: the loads that are under way return \<open>r\<close>, and so does the cache.\<close>

definition only :: "string \<Rightarrow> string option \<Rightarrow> (string \<times> string) set" where
  "only k r = {(k', x). k' = k \<longrightarrow> r = Some x}"

fun pc_fresh :: "string \<Rightarrow> string option \<Rightarrow> req_pc \<Rightarrow> string option pc \<Rightarrow> bool" where
  "pc_fresh k r (Loaded k' x) p = (k' = k \<longrightarrow> r = Some x)"
| "pc_fresh k r (In_Do k') p = (k' = k \<longrightarrow> (\<forall>v. p = Returned k v \<longrightarrow> v = r))"
| "pc_fresh k r q p = True"

definition fresh_inv :: "('w \<Rightarrow> string \<rightharpoonup> string) \<Rightarrow> nat \<Rightarrow> string \<Rightarrow> string option \<Rightarrow> 'w busy_node \<Rightarrow> bool" where
  "fresh_inv rmap N k r n \<longleftrightarrow> cache_in (only k r) (the_cache n) \<and> rmap (the_redis n) k = r \<and> late N k r (flight n) \<and>
     (\<forall>t. \<not> writing k (stage n t) \<and> pc_fresh k r (stage n t) (sf_pc (flight n) t))"

lemma fresh_invD:
  assumes "fresh_inv rmap N k r n"
  shows "cache_in (only k r) (the_cache n)" "rmap (the_redis n) k = r" "late N k r (flight n)"
    "\<not> writing k (stage n t)" "pc_fresh k r (stage n t) (sf_pc (flight n) t)"
  using assms by (auto simp: fresh_inv_def)

lemma settled_fresh:
  assumes "node_inv rmap H n" "settled rmap k n"
  shows "fresh_inv rmap (length (sf_calls (flight n))) k (rmap (the_redis n) k) n"
proof -
  note D = node_invD [OF assms(1)]
  have "do_key (sf_pc (flight n) t) \<noteq> Some k" for t
    using D(5) [of t] assms(2) by (cases "stage n t") (auto simp: settled_def dest: spec [of _ t])
  then have "late (length (sf_calls (flight n))) k (rmap (the_redis n) k) (flight n)"
    by (intro late_start) (use D(2) in \<open>simp_all add: flight_in_def\<close>)
  moreover have "cache_in (only k (rmap (the_redis n) k)) (the_cache n)"
    using D(1) assms(2) unfolding cache_in_def settled_def only_def by fastforce
  moreover have "pc_fresh k r (stage n t) p" for t r p
    using assms(2) by (cases "stage n t") (auto simp: settled_def dest: spec [of _ t])
  ultimately show ?thesis using assms(2) by (simp add: fresh_inv_def settled_def)
qed

lemma fresh_stage:
  assumes "fresh_inv rmap N k r n" "stage n' = (stage n)(t := p)" "flight n' = flight n"
    and "\<not> writing k p" "pc_fresh k r p (sf_pc (flight n) t)"
    and "cache_in (only k r) (the_cache n')" "rmap (the_redis n') k = r"
  shows "fresh_inv rmap N k r n'"
  using assms by (simp add: fresh_inv_def)

lemma fresh_flight:
  assumes "fresh_inv rmap N k r n" "stage n' = (stage n)(t := In_Do k')" "sf_move t (flight n) (flight n')"
    and "sf_inv (flight n)" "\<And>v. ran (flight n') = ran (flight n) @ [(k, v)] \<Longrightarrow> v = r"
    and "do_key (sf_pc (flight n) t) = Some k' \<or> do_key (sf_pc (flight n') t) = Some k'"
    and "the_cache n' = the_cache n" "the_redis n' = the_redis n"
  shows "fresh_inv rmap N k r n'"
proof -
  note F = fresh_invD [OF assms(1)]
  have m: "sf_step (flight n) (flight n')" "\<forall>t'. t' \<noteq> t \<longrightarrow> sf_pc (flight n') t' = sf_pc (flight n) t'"
    using assms(3) by (simp_all add: sf_move_def)
  have "late N k r (flight n')" by (rule late_step [OF m(1) assms(4) F(3) assms(5)])
  moreover have "v = r" if "k' = k" "sf_pc (flight n') t = Returned k v" for v
    using late_result [OF m(1) assms(4) F(3) _ that(2)] assms(6) that by auto
  ultimately show ?thesis using F(1,2,4,5) m(2) assms(2,7,8) by (simp add: fresh_inv_def)
qed

lemma fresh_step:
  assumes laws: "redis_laws env rmap" and inv: "node_inv rmap H n" and fresh: "fresh_inv rmap N k r n"
    and st: "node_step env n n'" and quiet: "\<forall>t. \<not> writing k (stage n' t)"
  shows "fresh_inv rmap N k r n'"
proof -
  note F = fresh_invD [OF fresh]
  note stage = fresh_stage [OF fresh]
  note flight = fresh_flight [OF fresh _ _ node_reaches_sf_inv [OF inv]]
  note L = redis_lawsD [OF laws]
  have other: "(k', x) \<in> only k r" if "k' \<noteq> k" for k' x using that by (simp add: only_def)
  show ?thesis using st
  proof (cases rule: node_step.cases)
    case (ask_get t k')
    then show ?thesis using stage [of n' t "Looking k'"] F(1,2) by simp
  next
    case (cache_hit t k' now now' st x evs)
    then show ?thesis using stage [of n' t "Answered k' (Some x)"] cache_in_Get(1) [OF F(1) cache_hit(3)] F(2) by simp
  next
    case (cache_miss t k' now now' st v evs)
    then show ?thesis using stage [of n' t "Cache_missed k'"] cache_in_Get(1) [OF F(1) cache_miss(3)] F(2) by simp
  next
    case (do_enter t k' g)
    then show ?thesis using flight [of n' t k'] by simp
  next
    case (do_step t k' g)
    then show ?thesis using flight [of n' t k'] by (simp add: fun_upd_idem)
  next
    case (do_fn t k' g w v)
    then have w: "w = the_redis n" "v = rmap (the_redis n) k'" using L(1) by auto
    then show ?thesis using do_fn flight [of n' t k'] F(2) by (simp add: fun_upd_idem)
  next
    case (do_value t k' x)
    then show ?thesis using stage [of n' t "Loaded k' x"] F(1,2) F(5) [of t] by auto
  next
    case (do_error t k')
    then show ?thesis using stage [of n' t "Answered k' None"] F(1,2) by simp
  next
    case (fill t k' x now st evs)
    then have "(k', x) \<in> only k r" using F(5) [of t] by (simp add: only_def)
    then show ?thesis using fill stage [of n' t "Answered k' (Some x)"] cache_in_Set [OF F(1)] F(2) by simp
  next
    case (ask_set t k' v)
    then have "\<not> writing k (Writing k' v)" using quiet by (auto dest: spec [of _ t])
    then show ?thesis using ask_set stage [of n' t "Writing k' v"] F(1,2) by simp
  next
    case (set_redis t k' v w ok)
    then have "rmap w = (rmap (the_redis n))(k' \<mapsto> v)" using L(2) by (metis fst_conv)
    moreover have "k' \<noteq> k" using F(4) [of t] set_redis by simp
    ultimately show ?thesis using set_redis stage [of n' t "Forgetting k'"] F(1,2) by simp
  next
    case (ask_delete t k')
    then have "\<not> writing k (Erasing k')" using quiet by (auto dest: spec [of _ t])
    then show ?thesis using ask_delete stage [of n' t "Erasing k'"] F(1,2) by simp
  next
    case (delete_redis t k' w ok)
    then have "rmap w = (rmap (the_redis n))(k' := None)" using L(3) by (metis fst_conv)
    moreover have "k' \<noteq> k" using F(4) [of t] delete_redis by simp
    ultimately show ?thesis using delete_redis stage [of n' t "Forgetting k'"] F(1,2) by simp
  next
    case (forget t k' st b evs)
    then show ?thesis using stage [of n' t Acked] cache_in_Delete [OF F(1)] F(2) by simp
  next
    case (ask_hot t k' v)
    then have "\<not> writing k (Heating k' v)" using quiet by (auto dest: spec [of _ t])
    then show ?thesis using ask_hot stage [of n' t "Heating k' v"] F(1,2) by simp
  next
    case (heat t k' v now st evs)
    then have "k' \<noteq> k" using F(4) [of t] by simp
    then show ?thesis using heat stage [of n' t Acked] cache_in_Set [OF F(1)] other F(2) by simp
  next
    case (cleanup i now st evs)
    then show ?thesis using stage [of n' 0 "stage n 0"] F(2,4,5) cache_in_cleanup [OF F(1)] by simp
  qed
qed

lemma fresh_answer:
  assumes "fresh_inv rmap N k r n" "node_step env n n'" "stage n' t \<noteq> stage n t" "stage n' t = Answered k a"
  shows "a = r"
proof -
  note F = fresh_invD [OF assms(1)]
  show ?thesis using assms(2)
  proof (cases rule: node_step.cases)
    case (cache_hit t' k' now now' st x evs)
    then have "k' = k" "a = Some x" using assms(3,4) by (auto split: if_splits)
    then show ?thesis using cache_in_Get(2) [OF F(1) cache_hit(3)] by (auto simp: only_def)
  next
    case (do_error t' k')
    then have "t' = t" "k' = k" "a = None" using assms(3,4) by (auto split: if_splits)
    then show ?thesis using do_error F(5) [of t] by simp
  next
    case (fill t' k' x now st evs)
    then have "t' = t" "k' = k" "a = Some x" using assms(3,4) by (auto split: if_splits)
    then show ?thesis using fill F(5) [of t] by simp
  qed (use assms(3,4) in \<open>auto split: if_splits\<close>)
qed

lemma node_inv_reaches:
  assumes "redis_laws env rmap" "node_inv rmap H n" "quiet_reaches env k n n'" "fresh_inv rmap N k r n"
  shows "(\<exists>H'. node_inv rmap H' n') \<and> fresh_inv rmap N k r n'"
  using assms(3,2,4)
proof (induction rule: quiet_reaches.induct)
  case (refl n)
  then show ?case by blast
next
  case (step n n' n'')
  then obtain H' where "node_inv rmap H' n'" "fresh_inv rmap N k r n'" by blast
  then show ?case using node_step_inv [OF assms(1) _ step(2)] fresh_step [OF assms(1) _ _ step(2,3)] by blast
qed

text \<open>
  C7. Gets between two writes are fresh: in any interleaving on one node, once nobody loads or writes a
  key and its cached value, if any, is the one in redis, every get of the key that is answered before
  the next write of the key begins answers what redis holds for it, be it from the cache, from its own
  load or from a load it shares, and an error when redis holds nothing.
\<close>
theorem settled_keys_are_fresh:
  assumes "redis_laws env rmap" "good_options opts" "node_reaches env (start_node opts w) n" "settled rmap k n"
    and "quiet_reaches env k n n'" "node_step env n' n''" "stage n'' t \<noteq> stage n' t" "stage n'' t = Answered k a"
  shows "a = rmap (the_redis n) k"
proof -
  note inv = node_reaches_inv [OF assms(1-3)]
  from node_inv_reaches [OF assms(1) inv assms(5) settled_fresh [OF inv assms(4)]] show ?thesis
    using fresh_answer [OF _ assms(6-8)] by blast
qed

theorem settled_keys_are_fresh_witness:
  "\<exists>n n' n''. settled (\<lambda>w. w) ''k'' n \<and> quiet_reaches map_env ''k'' n n' \<and> node_step map_env n' n'' \<and>
     stage n'' 1 = Answered ''k'' (Some ''v'') \<and> the_redis n ''k'' = Some ''v''"
proof -
  have o: "good_options small_store_options" by code_simp
  have laws: "redis_laws map_env (\<lambda>w. w)" by (rule map_env_laws)
  obtain n n' n'' e where r: "node_reaches map_env (start_node small_store_options [''k'' \<mapsto> ''v'']) n"
    "node_step map_env n n'" "node_step map_env n' n''" and w: "the_redis n = [''k'' \<mapsto> ''v'']"
    and s: "stage n = (\<lambda>_. Idle)(1 := Acked)" "sview (the_cache n) ''k'' = Some (Some ''v'', e)"
      "stage n' = (\<lambda>_. Idle)(1 := Looking ''k'')" "stage n'' 1 = Answered ''k'' (Some ''v'')"
    by (rule hot_read)
  have c: "settled (\<lambda>w. w) ''k'' n" using s(1,2) w by (simp add: settled_def)
  have q: "quiet_reaches map_env ''k'' n n'"
    by (rule quiet_reaches.step [OF quiet_reaches.refl r(2)]) (simp add: s(3))
  have "stage n'' 1 \<noteq> stage n' 1" using s(3,4) by simp
  from settled_keys_are_fresh [OF laws o r(1) c q r(3) this s(4)] show ?thesis using c q r(3) s(4) by auto
qed

end
