(* ===== verification/Server_Solo.thy ===== *)
theory Server_Solo
  imports Server_Concurrent
begin

text \<open>
  The handlers of \<open>Cache_Server\<close>, run one after the other, against the step relation of
  \<open>Server_Concurrent\<close>: whatever they compute for a node that owns its keys, one goroutine of the step
  relation can do as well, with the same answers, the same cache and the same redis.
\<close>

subsection \<open>Executions\<close>

lemma node_reaches_trans: "node_reaches env n' n'' \<Longrightarrow> node_reaches env n n' \<Longrightarrow> node_reaches env n n''"
  by (induction rule: node_reaches.induct) (auto intro: node_reaches.step)

lemma node_reaches_step: "node_step env n n' \<Longrightarrow> node_reaches env n' n'' \<Longrightarrow> node_reaches env n n''"
  by (rule node_reaches_trans) (auto intro: node_reaches.intros)

text \<open>The goroutine \<open>t\<close> has no request, and no call of the group is under way.\<close>

definition at_rest :: "nat \<Rightarrow> 'w busy_node \<Rightarrow> bool" where
  "at_rest t n \<longleftrightarrow> free (stage n t) \<and> do_key (sf_pc (flight n) t) = None \<and> sf_m (flight n) = Map.empty"

definition holds_state :: "'w busy_node \<Rightarrow> 'c server \<Rightarrow> 'w \<Rightarrow> bool" where
  "holds_state n s w \<longleftrightarrow> store_of s = Some (the_cache n) \<and> the_redis n = w"

subsection \<open>A goroutine alone in \<open>Do\<close>\<close>

lemma alone_in_Do:
  assumes "stage n t = Cache_missed k" "do_key (sf_pc (flight n) t) = None" "sf_m (flight n) = Map.empty"
    and "redis_Get env k (the_redis n) = (w, r)"
  obtains g where "node_reaches env n (set_pc t (In_Do k) (n\<lparr>flight := g, the_redis := w\<rparr>))"
    "sf_pc g t = Returned k r" "sf_m g = Map.empty"
proof -
  let ?g = "flight n" and ?c = "length (sf_calls (flight n))"
  let ?g1 = "goto t (Missed k) ?g"
  let ?g2 = "goto t (Running k ?c) (?g1\<lparr>sf_m := (sf_m ?g1)(k \<mapsto> ?c),
     sf_calls := sf_calls ?g1 @ [\<lparr>call_key = k, call_val = None, call_done = False\<rparr>]\<rparr>)"
  let ?g3 = "goto t (Assigned k ?c) (upd_call ?c (\<lambda>x. x\<lparr>call_val := Some r\<rparr>) (?g2\<lparr>ran := ran ?g2 @ [(k, r)]\<rparr>))"
  let ?g4 = "goto t (Finished k ?c) (upd_call ?c (\<lambda>x. x\<lparr>call_done := True\<rparr>) ?g3)"
  let ?g5 = "goto t (Returned k r) (?g4\<lparr>sf_m := (sf_m ?g4)(k := None)\<rparr>)"
  have out: "sf_pc ?g t = Outside \<or> (\<exists>k' r. sf_pc ?g t = Returned k' r)" using assms(2) by (cases "sf_pc ?g t") auto
  have "sf_pc ?g t \<noteq> Missed k" using assms(2) by auto
  then have m1: "sf_move t ?g ?g1" using sf_step.load_miss [OF out, of k] assms(3) by (auto simp: sf_move_def)
  have m2: "sf_move t ?g1 ?g2" using sf_step.store [of ?g1 t k] by (simp add: sf_move_def)
  have m3: "sf_move t ?g2 ?g3" using sf_step.fn_returns [of ?g2 t k ?c r] by (simp add: sf_move_def)
  have m4: "sf_move t ?g3 ?g4" using sf_step.wg_done [of ?g3 t k ?c] by (simp add: sf_move_def)
  have m5: "sf_move t ?g4 ?g5" using sf_step.delete [of ?g4 t k ?c r] by (simp add: sf_move_def)
  let ?n1 = "set_pc t (In_Do k) (n\<lparr>flight := ?g1\<rparr>)"
  have s1: "node_step env n ?n1" by (rule node_step.do_enter [OF assms(1) m1]) simp_all
  have s2: "node_step env ?n1 (?n1\<lparr>flight := ?g2\<rparr>)" by (rule node_step.do_step [where t = t and k = k]) (use m2 in simp_all)
  let ?n3 = "(?n1\<lparr>flight := ?g2\<rparr>)\<lparr>flight := ?g3, the_redis := w\<rparr>"
  have s3: "node_step env (?n1\<lparr>flight := ?g2\<rparr>) ?n3"
    by (rule node_step.do_fn [where t = t and k = k and r = r]) (use m3 assms(4) in simp_all)
  have s4: "node_step env ?n3 (?n3\<lparr>flight := ?g4\<rparr>)" by (rule node_step.do_step [where t = t and k = k]) (use m4 in simp_all)
  have s5: "node_step env (?n3\<lparr>flight := ?g4\<rparr>) ((?n3\<lparr>flight := ?g4\<rparr>)\<lparr>flight := ?g5\<rparr>)"
    by (rule node_step.do_step [where t = t and k = k]) (use m5 in simp_all)
  have e: "(?n3\<lparr>flight := ?g4\<rparr>)\<lparr>flight := ?g5\<rparr> = set_pc t (In_Do k) (n\<lparr>flight := ?g5, the_redis := w\<rparr>)"
    by (simp add: set_pc_def)
  note r5 = node_reaches.step [OF node_reaches.step [OF node_reaches.step [OF node_reaches.step [OF node_reaches.step
    [OF node_reaches.refl s1] s2] s3] s4] s5]
  have "node_reaches env n (set_pc t (In_Do k) (n\<lparr>flight := ?g5, the_redis := w\<rparr>))" using r5 unfolding e .
  then show thesis by (rule that) (simp_all add: assms(3))
qed

subsection \<open>The handlers\<close>

lemma solo_Get:
  assumes "owns UNIV s" "Server_Get env k (now, now', now'') s w = Some (s', w', a)" "long_lived now''"
    and "holds_state n s w" "at_rest t n"
  shows "owns UNIV s' \<and> (\<exists>n'. node_reaches env n n' \<and> stage n' t = Answered k a \<and> at_rest t n' \<and> holds_state n' s' w')"
proof -
  obtain s1 self where P: "pick k s = Some (s1, self, True, True)" "self \<noteq> []" "owns UNIV s1" "store_of s1 = store_of s"
    by (rule pick_self [OF assms(1) UNIV_I])
  have g: "store_of s1 = Some (the_cache n)" "the_redis n = w" using assms(4) P(4) by (simp_all add: holds_state_def)
  have rest: "free (stage n t)" "do_key (sf_pc (flight n) t) = None" "sf_m (flight n) = Map.empty"
    using assms(5) by (simp_all add: at_rest_def)
  have own: "owns UNIV (put_store x s1)" for x using P(3) by (simp add: owns_def)
  let ?n1 = "set_pc t (Looking k) n"
  have s1: "node_step env n ?n1" by (rule node_step.ask_get [OF rest(1)])
  obtain st v ok evs where G: "Get (the_cache n) k now now' = Some (st, (v, ok), evs)"
    using assms(2) P(1,2) g by (auto simp: Server_Get_store Let_def split: Option.bind_splits)
  show ?thesis
  proof (cases ok)
    case True
    then obtain x where x: "v = Some x" "s' = put_store st s1" "w' = w" "a = Some x"
      using assms(2) P(1,2) g G by (auto simp: Server_Get_store split: Option.bind_splits)
    let ?n2 = "set_pc t (Answered k (Some x)) (?n1\<lparr>the_cache := st\<rparr>)"
    have "node_step env ?n1 ?n2"
      by (rule node_step.cache_hit [where now = now and now' = now']) (use G True x in simp_all)
    then have "node_reaches env n ?n2" using s1 by (blast intro: node_reaches.intros)
    then show ?thesis using own x g rest by (intro conjI exI [of _ ?n2]) (simp_all add: at_rest_def holds_state_def)
  next
    case False
    obtain w1 r where R: "redis_Get env k w = (w1, r)" by force
    let ?n2 = "set_pc t (Cache_missed k) (?n1\<lparr>the_cache := st\<rparr>)"
    have "node_step env ?n1 ?n2"
      by (rule node_step.cache_miss [where now = now and now' = now']) (use G False in simp_all)
    then have r2: "node_reaches env n ?n2" using s1 by (blast intro: node_reaches.intros)
    obtain gr where gr: "node_reaches env ?n2 (set_pc t (In_Do k) (?n2\<lparr>flight := gr, the_redis := w1\<rparr>))"
      "sf_pc gr t = Returned k r" "sf_m gr = Map.empty"
      by (rule alone_in_Do [where n = ?n2 and t = t and k = k]) (use rest R g in auto)
    let ?n3 = "set_pc t (In_Do k) (?n2\<lparr>flight := gr, the_redis := w1\<rparr>)"
    have r3: "node_reaches env n ?n3" by (rule node_reaches_trans [OF gr(1) r2])
    show ?thesis
    proof (cases r)
      case None
      then have x: "s' = put_store st s1" "w' = w1" "a = None"
        using assms(2) P(1,2) g G False R by (auto simp: Server_Get_store)
      let ?n4 = "set_pc t (Answered k None) ?n3"
      have "node_step env ?n3 ?n4" by (rule node_step.do_error) (use gr(2) None in simp_all)
      then have "node_reaches env n ?n4" using r3 by (blast intro: node_reaches.step)
      then show ?thesis using own x gr by (intro conjI exI [of _ ?n4]) (simp_all add: at_rest_def holds_state_def)
    next
      case (Some val)
      then obtain st2 evs2 where F: "Set st k (Some val) now'' = Some (st2, evs2)"
        and x: "s' = put_store st2 s1" "w' = w1" "a = Some val"
        using assms(2) P(1,2) g G False R by (auto simp: Server_Get_store get_fill_store split: Option.bind_splits)
      let ?n4 = "set_pc t (Loaded k val) ?n3"
      let ?n5 = "set_pc t (Answered k (Some val)) (?n4\<lparr>the_cache := st2\<rparr>)"
      have "node_step env ?n3 ?n4" by (rule node_step.do_value) (use gr(2) Some in simp_all)
      moreover have "node_step env ?n4 ?n5"
        by (rule node_step.fill [where now = now'']) (use F assms(3) in simp_all)
      ultimately have "node_reaches env n ?n5" using r3 by (blast intro: node_reaches.step)
      then show ?thesis using own x gr by (intro conjI exI [of _ ?n5]) (simp_all add: at_rest_def holds_state_def)
    qed
  qed
qed

lemma solo_Set:
  assumes "owns UNIV s" "Server_Set env k v s w = Some (s', w', a)" "holds_state n s w" "at_rest t n"
  shows "owns UNIV s' \<and> a = Some v \<and> (\<exists>n'. node_reaches env n n' \<and> stage n' t = Acked \<and> at_rest t n' \<and> holds_state n' s' w')"
proof -
  obtain s1 self where P: "pick k s = Some (s1, self, True, True)" "self \<noteq> []" "owns UNIV s1" "store_of s1 = store_of s"
    by (rule pick_self [OF assms(1) UNIV_I])
  have g: "store_of s1 = Some (the_cache n)" "the_redis n = w" using assms(3) P(4) by (simp_all add: holds_state_def)
  obtain w1 ok where R: "redis_Set env k v w = (w1, ok)" by force
  obtain st b evs where D: "Delete (the_cache n) k = Some (st, b, evs)"
    and x: "s' = put_store st s1" "w' = w1" "a = Some v"
    using assms(2) P(1,2) g R by (auto simp: Server_Set_store split: Option.bind_splits)
  let ?n1 = "set_pc t (Writing k v) n"
  let ?n2 = "set_pc t (Forgetting k) (?n1\<lparr>the_redis := w1, writes := (k, v) # writes ?n1\<rparr>)"
  let ?n3 = "set_pc t Acked (?n2\<lparr>the_cache := st\<rparr>)"
  have "node_step env n ?n1" by (rule node_step.ask_set) (use assms(4) in \<open>simp add: at_rest_def\<close>)
  moreover have "node_step env ?n1 ?n2" by (rule node_step.set_redis) (use R g in simp_all)
  moreover have "node_step env ?n2 ?n3" by (rule node_step.forget) (use D in simp_all)
  ultimately have "node_reaches env n ?n3" by (blast intro: node_reaches.intros)
  then show ?thesis using P(3) x assms(4)
    by (intro conjI exI [of _ ?n3]) (simp_all add: at_rest_def holds_state_def owns_def)
qed

lemma solo_Delete:
  assumes "owns UNIV s" "Server_Delete env k s w = Some (s', w', a)" "holds_state n s w" "at_rest t n"
  shows "owns UNIV s' \<and> a = Some True \<and> (\<exists>n'. node_reaches env n n' \<and> stage n' t = Acked \<and> at_rest t n' \<and> holds_state n' s' w')"
proof -
  obtain s1 self where P: "pick k s = Some (s1, self, True, True)" "self \<noteq> []" "owns UNIV s1" "store_of s1 = store_of s"
    by (rule pick_self [OF assms(1) UNIV_I])
  have g: "store_of s1 = Some (the_cache n)" "the_redis n = w" using assms(3) P(4) by (simp_all add: holds_state_def)
  obtain w1 ok where R: "redis_Delete env k w = (w1, ok)" by force
  obtain st b evs where D: "Delete (the_cache n) k = Some (st, b, evs)"
    and x: "s' = put_store st s1" "w' = w1" "a = Some True"
    using assms(2) P(1,2) g R by (auto simp: Server_Delete_store split: Option.bind_splits)
  let ?n1 = "set_pc t (Erasing k) n"
  let ?n2 = "set_pc t (Forgetting k) (?n1\<lparr>the_redis := w1\<rparr>)"
  let ?n3 = "set_pc t Acked (?n2\<lparr>the_cache := st\<rparr>)"
  have "node_step env n ?n1" by (rule node_step.ask_delete) (use assms(4) in \<open>simp add: at_rest_def\<close>)
  moreover have "node_step env ?n1 ?n2" by (rule node_step.delete_redis) (use R g in simp_all)
  moreover have "node_step env ?n2 ?n3" by (rule node_step.forget) (use D in simp_all)
  ultimately have "node_reaches env n ?n3" by (blast intro: node_reaches.intros)
  then show ?thesis using P(3) x assms(4)
    by (intro conjI exI [of _ ?n3]) (simp_all add: at_rest_def holds_state_def owns_def)
qed

subsection \<open>Sequences of requests\<close>

text \<open>How the stage of a goroutine shows the response to a request.\<close>

fun shows_response :: "req_pc \<Rightarrow> request \<Rightarrow> response \<Rightarrow> bool" where
  "shows_response p (Req_Get k clk) (Resp_Get a) = (p = Answered k a)"
| "shows_response p (Req_Set k v) (Resp_Set a) = (p = Acked \<and> a = Some v)"
| "shows_response p (Req_Delete k) (Resp_Delete a) = (p = Acked \<and> a = Some True)"
| "shows_response p _ _ = False"

text \<open>An execution that comes past the responses \<open>as\<close> to the requests \<open>rs\<close>, in this order.\<close>

inductive session :: "('w, 'c) env \<Rightarrow> nat \<Rightarrow> 'w busy_node \<Rightarrow> request list \<Rightarrow> response list \<Rightarrow> 'w busy_node \<Rightarrow> bool" for env t where
  Nil: "session env t n [] [] n"
| Cons: "node_reaches env n n' \<Longrightarrow> shows_response (stage n' t) r a \<Longrightarrow> session env t n' rs as n'' \<Longrightarrow>
     session env t n (r # rs) (a # as) n''"

lemma session_reaches: "session env t n rs as n' \<Longrightarrow> node_reaches env n n'"
  by (induction rule: session.induct) (auto intro: node_reaches.refl node_reaches_trans)

lemma solo_session:
  assumes "owns UNIV s" "serve env rs s w = Some (s', w', as)" "clocks_ok rs" "holds_state n s w" "at_rest t n"
  shows "\<exists>n'. session env t n rs as n' \<and> holds_state n' s' w'"
  using assms
proof (induction env rs s w arbitrary: as n rule: serve.induct)
  case (1 env s w)
  then show ?case using session.Nil by (intro exI [of _ n]) auto
next
  case (2 env k clk rs s w)
  obtain now now' now'' where clk: "clk = (now, now', now'')" by (cases clk)
  obtain s1 w1 r as' where S: "Server_Get env k (now, now', now'') s w = Some (s1, w1, r)"
    "serve env rs s1 w1 = Some (s', w', as')" "as = Resp_Get r # as'"
    using 2(3) by (auto simp: clk split: Option.bind_splits)
  have "long_lived now''" using 2(4) by (simp add: clocks_ok_def clk)
  then obtain n1 where n1: "owns UNIV s1" "node_reaches env n n1" "stage n1 t = Answered k r" "at_rest t n1" "holds_state n1 s1 w1"
    using solo_Get [OF 2(2) S(1) _ 2(5,6)] by blast
  then obtain n' where "session env t n1 rs as' n'" "holds_state n' s' w'"
    using 2(1) [OF S(1) [folded clk] HOL.refl HOL.refl n1(1) S(2) clocks_ok_Cons [OF 2(4)] n1(5,4)] by blast
  moreover have "shows_response (stage n1 t) (Req_Get k clk) (Resp_Get r)" by (simp add: n1(3))
  ultimately show ?case unfolding S(3) using session.Cons [OF n1(2)] by blast
next
  case (3 env k v rs s w)
  obtain s1 w1 r as' where S: "Server_Set env k v s w = Some (s1, w1, r)"
    "serve env rs s1 w1 = Some (s', w', as')" "as = Resp_Set r # as'"
    using 3(3) by (auto split: Option.bind_splits)
  obtain n1 where n1: "owns UNIV s1" "r = Some v" "node_reaches env n n1" "stage n1 t = Acked" "at_rest t n1" "holds_state n1 s1 w1"
    using solo_Set [OF 3(2) S(1) 3(5,6)] by blast
  then obtain n' where "session env t n1 rs as' n'" "holds_state n' s' w'"
    using 3(1) [OF S(1) HOL.refl HOL.refl n1(1) S(2) clocks_ok_Cons [OF 3(4)] n1(6,5)] by blast
  moreover have "shows_response (stage n1 t) (Req_Set k v) (Resp_Set r)" by (simp add: n1(2,4))
  ultimately show ?case unfolding S(3) using session.Cons [OF n1(3)] by blast
next
  case (4 env k rs s w)
  obtain s1 w1 r as' where S: "Server_Delete env k s w = Some (s1, w1, r)"
    "serve env rs s1 w1 = Some (s', w', as')" "as = Resp_Delete r # as'"
    using 4(3) by (auto split: Option.bind_splits)
  obtain n1 where n1: "owns UNIV s1" "r = Some True" "node_reaches env n n1" "stage n1 t = Acked" "at_rest t n1" "holds_state n1 s1 w1"
    using solo_Delete [OF 4(2) S(1) 4(5,6)] by blast
  then obtain n' where "session env t n1 rs as' n'" "holds_state n' s' w'"
    using 4(1) [OF S(1) HOL.refl HOL.refl n1(1) S(2) clocks_ok_Cons [OF 4(4)] n1(6,5)] by blast
  moreover have "shows_response (stage n1 t) (Req_Delete k) (Resp_Delete r)" by (simp add: n1(2,4))
  ultimately show ?case unfolding S(3) using session.Cons [OF n1(3)] by blast
qed

text \<open>
  C8. The two models of the handlers agree: whatever responses, cache and redis a sequence of gets, sets
  and deletes leads to when the handlers run one after the other on a node that owns its keys, one
  goroutine of the step relation can reach as well, coming past the same responses in the same
  order. It holds for every redis, lawful or not.
\<close>
theorem handlers_run_as_steps:
  assumes "owns UNIV s" "serve env rs s w = Some (s', w', as)" "clocks_ok rs" "holds_state n s w" "at_rest t n"
  shows "\<exists>n'. session env t n rs as n' \<and> holds_state n' s' w'"
  by (rule solo_session [OF assms])

theorem handlers_run_as_steps_witness:
  "\<exists>n'. session map_env 5 (start_node small_store_options Map.empty) [Req_Set ''k'' ''v'', Req_Get ''k'' (1, 1, 1)]
     [Resp_Set (Some ''v''), Resp_Get (Some ''v'')] n'"
proof -
  let ?rs = "[Req_Set ''k'' ''v'', Req_Get ''k'' (1, 1, 1)]"
  let ?n = "start_node small_store_options (Map.empty :: string \<rightharpoonup> string)"
  have c: "clocks_ok ?rs" by (simp add: clocks_ok_def long_lived_def expiry_def int64_def)
  have coh: "coherent Map.empty small_server" by (rule small_server_coherent)
  then have own: "owns UNIV small_server" by (simp add: coherent_on_def)
  obtain s' w' where r: "serve map_env ?rs small_server Map.empty = Some (s', w', answers Map.empty ?rs)"
    using serve_answers [where w = "Map.empty :: string \<rightharpoonup> string", OF map_env_laws coh c] by blast
  have "store_of small_server = Some (the_cache ?n)"
    by (simp add: small_server_def join_ring_def RegisterPeersToServer_def RegisterGroupToServer_def start_node_def NewGroup_def
        store_of_def)
  then have h: "holds_state ?n small_server Map.empty" by (simp add: holds_state_def start_node_def)
  have "at_rest 5 ?n" by (simp add: at_rest_def start_node_def sf_init_def)
  from handlers_run_as_steps [OF own r c h this] show ?thesis by auto
qed

end
