(* ===== verification/Server_Progress.thy ===== *)
theory Server_Progress
  imports Server_Solo
begin

text \<open>
  Every request can be answered: a rank of a goroutine that falls with each of its steps, and a goroutine
  that waits for a call of another is served once that one has gone on.
\<close>

subsection \<open>The rank of a goroutine\<close>

fun do_rank :: "'r pc \<Rightarrow> nat" where
  "do_rank (Waiting k c) = 8"
| "do_rank (Missed k) = 7"
| "do_rank (Running k c) = 6"
| "do_rank (Assigned k c) = 5"
| "do_rank (Finished k c) = 4"
| "do_rank _ = 3"

fun rank :: "req_pc \<Rightarrow> 'r pc \<Rightarrow> nat" where
  "rank (Looking k) p = 10"
| "rank (Cache_missed k) p = 9"
| "rank (In_Do k) p = do_rank p"
| "rank (Loaded k x) p = 2"
| "rank (Writing k v) p = 2"
| "rank (Erasing k) p = 2"
| "rank (Forgetting k) p = 1"
| "rank (Heating k v) p = 1"
| "rank _ p = 0"

definition node_rank :: "'w busy_node \<Rightarrow> nat \<Rightarrow> nat" where
  "node_rank n t = rank (stage n t) (sf_pc (flight n) t)"

lemma do_rank_bounds: "3 \<le> do_rank p" "do_rank p \<le> 8"
  by (cases p; simp)+

lemma sf_move_rank: "sf_move t g g' \<Longrightarrow> do_key (sf_pc g t) \<noteq> None \<Longrightarrow> do_rank (sf_pc g' t) < do_rank (sf_pc g t)"
  unfolding sf_move_def by (elim conjE, erule sf_step.cases) (auto split: if_splits)

text \<open>A step moves one goroutine; if that has a request, its rank falls.\<close>

definition moves :: "nat \<Rightarrow> 'w busy_node \<Rightarrow> 'w busy_node \<Rightarrow> bool" where
  "moves t n n' \<longleftrightarrow> stage n' t \<noteq> stage n t \<or> sf_pc (flight n') t \<noteq> sf_pc (flight n) t"

lemma one_goroutine_moves: "node_step env n n' \<Longrightarrow> moves t n n' \<Longrightarrow> moves t' n n' \<Longrightarrow> t' = t"
  by (cases rule: node_step.cases) (auto simp: moves_def sf_move_def split: if_splits, metis+)

lemma moving_lowers_rank:
  assumes "node_step env n n'" "moves t n n'" "\<not> free (stage n t)"
  shows "node_rank n' t < node_rank n t"
proof -
  have moved_Do: "t' = t" if "stage n' = (stage n)(t' := p)" "sf_move t' (flight n) (flight n')" for t' p
    using assms(2) that by (auto simp: moves_def sf_move_def split: if_splits)
  show ?thesis using assms(1)
  proof (cases rule: node_step.cases)
    case (do_enter t' k g)
    then have "t' = t" using moved_Do [of t' "In_Do k"] by simp
    then show ?thesis using do_enter do_rank_bounds(2) [of "sf_pc g t"] by (simp add: node_rank_def)
  next
    case (do_step t' k g)
    then have "t' = t" using moved_Do [of t' "In_Do k"] by (simp add: fun_upd_idem)
    then show ?thesis using do_step sf_move_rank [OF do_step(4)] by (simp add: node_rank_def)
  next
    case (do_fn t' k g w r)
    then have "t' = t" using moved_Do [of t' "In_Do k"] by (simp add: fun_upd_idem)
    then show ?thesis using do_fn sf_move_rank [OF do_fn(4)] by (simp add: node_rank_def)
  qed (use assms(2,3) in \<open>auto simp: node_rank_def moves_def split: if_splits\<close>)
qed

lemma can_move_moves: "can_move env n t \<Longrightarrow> \<exists>n'. node_step env n n' \<and> moves t n n'"
  by (auto simp: can_move_def moves_def)

lemma not_moved: "\<not> moves t n n' \<Longrightarrow> stage n' t = stage n t \<and> sf_pc (flight n') t = sf_pc (flight n) t"
  by (simp add: moves_def)

subsection \<open>Waiting for the runner of a call\<close>

lemma runner_is_unique:
  assumes "node_inv rmap H n" "runs (sf_pc (flight n) t1) = Some c" "runs (sf_pc (flight n) t2) = Some c"
  shows "t1 = t2"
  using node_reaches_sf_inv [OF assms(1)] assms(2,3) by (auto simp: sf_inv_def runners_unique_def)

lemma runner_stays:
  assumes "node_inv rmap H n" "node_step env n n'" "moves r n n'" "runs (sf_pc (flight n) r) = Some c"
    and "runs (sf_pc (flight n') r') = Some c"
  shows "r' = r"
proof (rule ccontr)
  assume ne: "r' \<noteq> r"
  then have "\<not> moves r' n n'" using one_goroutine_moves [OF assms(2,3)] by blast
  then have "runs (sf_pc (flight n) r') = Some c" using assms(5) not_moved by metis
  then show False using runner_is_unique [OF assms(1) _ assms(4)] ne by blast
qed

text \<open>A goroutine that waits moves when the runner of its call has gone far enough; induction on the rank
  of the runner.\<close>

lemma waiter_gets_on:
  assumes laws: "redis_laws env rmap"
  shows "node_inv rmap H n \<Longrightarrow> sf_pc (flight n) t = Waiting k c \<Longrightarrow> \<not> free (stage n t) \<Longrightarrow>
    runs (sf_pc (flight n) r) = Some c \<Longrightarrow>
    \<exists>n' H'. node_reaches env n n' \<and> node_inv rmap H' n' \<and> node_rank n' t < node_rank n t"
proof (induction "node_rank n r" arbitrary: n H rule: less_induct)
  case less
  have own: ?case if "node_step env n n'" "moves t n n'" for n'
    using that moving_lowers_rank [OF that less.prems(3)] node_step_inv [OF laws less.prems(1) that(1) HOL.refl]
    by (blast intro: node_reaches.intros)
  have not_free: "\<not> free (stage n t')" if "do_key (sf_pc (flight n) t') \<noteq> None" for t'
    using free_agrees [OF _ node_invD(5) [OF less.prems(1), of t']] that by auto
  show ?case
  proof (cases "can_move env n t")
    case True
    then obtain n' where "node_step env n n'" "moves t n n'" using can_move_moves by blast
    then show ?thesis by (rule own)
  next
    case False
    then obtain t' where t': "runs (sf_pc (flight n) t') = Some c" "can_move env n t'"
      using busy_moves [OF laws less.prems(1,3)] less.prems(2) by auto
    then have "t' = r" using runner_is_unique [OF less.prems(1) _ less.prems(4)] by blast
    then obtain n1 where n1: "node_step env n n1" "moves r n n1" using t'(2) can_move_moves by blast
    show ?thesis
    proof (cases "moves t n n1")
      case True
      then show ?thesis by (rule own [OF n1(1)])
    next
      case t: False
      obtain H1 where inv1: "node_inv rmap H1 n1" using node_step_inv [OF laws less.prems(1) n1(1) HOL.refl] by blast
      have w1: "sf_pc (flight n1) t = Waiting k c" "\<not> free (stage n1 t)" "node_rank n1 t = node_rank n t"
        using not_moved [OF t] less.prems(2,3) by (simp_all add: node_rank_def)
      have "do_key (sf_pc (flight n) r) \<noteq> None" using less.prems(4) by (cases "sf_pc (flight n) r") auto
      then have lt: "node_rank n1 r < node_rank n r" using moving_lowers_rank [OF n1] not_free by blast
      have reach: "node_reaches env n n1" using n1(1) by (blast intro: node_reaches.intros)
      show ?thesis
      proof (cases "\<exists>r'. runs (sf_pc (flight n1) r') = Some c")
        case True
        then obtain r' where r': "runs (sf_pc (flight n1) r') = Some c" ..
        have "r' = r" by (rule runner_stays [OF less.prems(1) n1 less.prems(4) r'])
        then show ?thesis using less.hyps [OF lt inv1 w1(1,2)] r' w1(3) node_reaches_trans reach by metis
      next
        case False
        then have "can_move env n1 t" using busy_moves [OF laws inv1 w1(2)] w1(1) by auto
        then obtain n2 where n2: "node_step env n1 n2" "moves t n1 n2" using can_move_moves by blast
        then have "node_rank n2 t < node_rank n t" using moving_lowers_rank [OF n2 w1(2)] w1(3) by simp
        then show ?thesis using node_step_inv [OF laws inv1 n2(1) HOL.refl] reach n2(1) by (blast intro: node_reaches.step)
      qed
    qed
  qed
qed

subsection \<open>Every request can be answered\<close>

lemma request_gets_on:
  assumes "redis_laws env rmap" "node_inv rmap H n" "\<not> free (stage n t)"
  shows "\<exists>n' H'. node_reaches env n n' \<and> node_inv rmap H' n' \<and> node_rank n' t < node_rank n t"
proof (cases "can_move env n t")
  case True
  then obtain n' where n': "node_step env n n'" "moves t n n'" using can_move_moves by blast
  then show ?thesis
    using moving_lowers_rank [OF n' assms(3)] node_step_inv [OF assms(1,2) n'(1) HOL.refl]
    by (blast intro: node_reaches.intros)
next
  case False
  then show ?thesis using busy_moves [OF assms] waiter_gets_on [OF assms(1,2) _ assms(3)] by blast
qed

lemma request_finishes:
  assumes "redis_laws env rmap"
  shows "node_inv rmap H n \<Longrightarrow> \<exists>n'. node_reaches env n n' \<and> free (stage n' t)"
proof (induction "node_rank n t" arbitrary: n H rule: less_induct)
  case less
  show ?case
  proof (cases "free (stage n t)")
    case True
    then show ?thesis by (blast intro: node_reaches.refl)
  next
    case False
    then obtain n1 H1 where n1: "node_reaches env n n1" "node_inv rmap H1 n1" "node_rank n1 t < node_rank n t"
      using request_gets_on [OF assms less.prems] by blast
    then show ?thesis using less.hyps [OF n1(3,2)] node_reaches_trans by blast
  qed
qed

text \<open>
  C19. Every request can be answered: from every reachable state, whatever the other goroutines are doing,
  there is an execution in which a given request is answered. No deadlock, no livelock and no panic can
  take that away, also not for a get that waits for the load of another one.
\<close>
theorem every_request_can_finish:
  assumes "redis_laws env rmap" "good_options opts" "node_reaches env (start_node opts w) n"
  shows "\<exists>n'. node_reaches env n n' \<and> free (stage n' t)"
  by (rule request_finishes [OF assms(1) node_reaches_inv [OF assms]])

theorem every_request_can_finish_witness:
  "\<exists>n. node_reaches map_env (set_pc 3 (Looking ''k'') concurrent_start) n \<and> free (stage n 3)"
proof -
  have o: "good_options small_store_options" by code_simp
  have laws: "redis_laws map_env (\<lambda>w. w)" by (rule map_env_laws)
  let ?n = "set_pc 3 (Looking ''k'') (start_node small_store_options (Map.empty :: string \<rightharpoonup> string))"
  have r: "node_reaches map_env (start_node small_store_options Map.empty) ?n"
    by (rule node_reaches.step [OF node_reaches.refl], rule node_step.ask_get) (simp add: start_node_def)
  from every_request_can_finish [OF laws o r, of 3] show ?thesis by (simp add: concurrent_start_def)
qed

end
