(* ===== verification/Registry_Properties.thy ===== *)
theory Registry_Properties
  imports Registry Peer_Picker
begin

text \<open>
  Registration and discovery together: what \<open>Register\<close> writes is what the watch of a peer picker reads
  back, the etcd client is closed on every path, and two ways in which addresses go wrong.
\<close>

lemma trim_service_key: "trim_prefix (service_key svc a) (''/services/'' @ svc @ ''/'') = a"
  by (simp add: trim_prefix_def service_key_def)

lemma put_event:
  assumes "v \<noteq> []" "v \<noteq> pk_selfAddr p" "newCli v = Some cli" "ring_inv (consHash p)"
  shows "members (consHash (handle_event newCli (EventPut k v) p)) = insert v (members (consHash p))"
    "grpcCli (handle_event newCli (EventPut k v) p) = (grpcCli p)(v \<mapsto> cli)"
    "ring_inv (consHash (handle_event newCli (EventPut k v) p))"
    "pk_selfAddr (handle_event newCli (EventPut k v) p) = pk_selfAddr p"
    "pk_svcName (handle_event newCli (EventPut k v) p) = pk_svcName p"
  using assms ring.add_law [of "consHash p" v "[]"] by (simp_all add: handle_event_def Let_def)

lemma delete_event:
  assumes "a = trim_prefix k (''/services/'' @ pk_svcName p @ ''/'')" "a \<noteq> []" "a \<noteq> pk_selfAddr p" "ring_inv (consHash p)"
  shows "members (consHash (handle_event newCli (EventDelete k v) p)) = members (consHash p) - {a}"
    "grpcCli (handle_event newCli (EventDelete k v) p) = (grpcCli p)(a := None)"
  using assms ring.remove_law [of "consHash p" a] by (simp_all add: handle_event_def Let_def)

lemma delete_own_key:
  assumes "a \<noteq> []" "a \<noteq> pk_selfAddr p"
  shows "handle_event newCli (EventDelete (service_key (pk_svcName p) a) v) p =
    p\<lparr>grpcCli := (grpcCli p)(a := None), consHash := Map_Remove a (consHash p)\<rparr>"
  unfolding handle_event_def service_event.case Let_def trim_service_key using assms by simp

lemma Register_put:
  assumes "Register env svc addr = Some (calls, Inr lease)" "Etcd_Put k v l \<in> set calls"
  obtains ip where "getLocalIP (interface_addrs env) = Some ip" "v = full_addr ip addr" "v \<noteq> []"
    "k = service_key svc v" "l = lease"
  using assms by (auto elim!: Register_ok simp: full_addr_nonempty)

text \<open>
  C24. Registration reaches the peers: the key and value that \<open>Register\<close> writes make the watch of a peer
  of the same service add exactly the registered address, with a client, and the deletion of that key
  (it carries no value) takes exactly this address off the ring and drops its client.
\<close>
theorem registration_reaches_peers:
  assumes "Register env (pk_svcName p) addr = Some (calls, Inr lease)" "Etcd_Put k v l \<in> set calls"
    and "v \<noteq> pk_selfAddr p" "newCli v = Some cli" "ring_inv (consHash p)"
    and "p1 = handle_event newCli (EventPut k v) p" "p2 = handle_event newCli (EventDelete k []) p1"
  shows "l = lease \<and> members (consHash p1) = insert v (members (consHash p)) \<and> grpcCli p1 v = Some cli \<and>
    members (consHash p2) = members (consHash p) - {v} \<and> grpcCli p2 v = None"
proof -
  obtain ip where ip: "v = full_addr ip addr" "v \<noteq> []" "k = service_key (pk_svcName p) v" "l = lease"
    by (rule Register_put [OF assms(1,2)])
  note put = put_event [where newCli = newCli, OF ip(2) assms(3-5), where k = k, folded assms(6)]
  have "v = trim_prefix k (''/services/'' @ pk_svcName p1 @ ''/'')" by (simp only: put ip(3) trim_service_key)
  from delete_event [OF this ip(2) _ put(3), of newCli "[]"] assms(3) show ?thesis
    by (auto simp: put ip(4) assms(7))
qed

definition small_env :: reg_env where
  "small_env = \<lparr>new_ok = True, interface_addrs = Some [IPNet [127, 0, 0, 1], Other_addr, IPNet [10, 0, 0, 7]],
     grant = Some 5, put_ok = True, keepalive_ok = True\<rparr>"

lemma small_env_registers:
  "Register small_env ''cache'' ''b:1'' =
     Some ([Etcd_New [''localhost:2379''] 5000000000, Etcd_Grant 10, Etcd_Put ''/services/cache/b:1'' ''b:1'' 5,
       Etcd_KeepAlive 5], Inr 5)"
  by code_simp

theorem registration_reaches_peers_witness:
  "members (consHash (handle_event (\<lambda>a. Some ()) (EventPut ''/services/cache/b:1'' ''b:1'')
     \<lparr>pk_selfAddr = ''a'', pk_svcName = ''cache'', consHash = NewConsistentHash ''a'' [], grpcCli = Map.empty\<rparr>)) = {''b:1''}"
proof -
  let ?p = "\<lparr>pk_selfAddr = ''a'', pk_svcName = ''cache'', consHash = NewConsistentHash ''a'' [], grpcCli = Map.empty\<rparr>"
  have reg: "Register small_env (pk_svcName ?p) ''b:1'' =
     Some ([Etcd_New [''localhost:2379''] 5000000000, Etcd_Grant 10, Etcd_Put ''/services/cache/b:1'' ''b:1'' 5,
       Etcd_KeepAlive 5], Inr 5)"
    using small_env_registers by simp
  have inv: "ring_inv (consHash ?p)" using new_sound [of "''a''" "[]"] by (simp add: sound_def)
  have "members (NewConsistentHash ''a'' []) = {}" by (simp add: members_def NewConsistentHash_def)
  with registration_reaches_peers [OF reg, of "''/services/cache/b:1''" "''b:1''" 5 "\<lambda>a. Some ()" "()", OF _ _ _ inv refl refl]
  show ?thesis by simp
qed

text \<open>
  \<open>Register\<close> does not leak its etcd client: on every error path after the client exists, \<open>Close\<close> is
  the last call and the only one of its kind; after success, the goroutine closes the client exactly
  when it returns, and a stop revokes the lease under which the address was written before that.
\<close>
lemma Register_closes_its_client:
  assumes "Register env svc addr = Some (calls, r)"
  shows "(case r of
      Inl e \<Rightarrow> if e = New_failed then Etcd_Close \<notin> set calls
               else last calls = Etcd_Close \<and> count_list calls Etcd_Close = 1
    | Inr lease \<Rightarrow>
        Etcd_Close \<notin> set calls \<and> (\<forall>k v l. Etcd_Put k v l \<in> set calls \<longrightarrow> l = lease) \<and>
        (\<forall>evs. let (c, returned) = keep_loop lease evs
          in count_list c Etcd_Close = (if returned then 1 else 0) \<and>
             (Stop_closed \<in> set evs \<and> KeepAlive_closed \<notin> set evs \<longrightarrow> c = [Etcd_Revoke lease, Etcd_Close])))"
proof (cases r)
  case (Inl e)
  then show ?thesis using assms by (auto simp: Register_def Let_def split: if_splits option.splits)
next
  case (Inr lease)
  have "let (c, returned) = keep_loop lease evs
      in count_list c Etcd_Close = (if returned then 1 else 0) \<and>
         (Stop_closed \<in> set evs \<and> KeepAlive_closed \<notin> set evs \<longrightarrow> c = [Etcd_Revoke lease, Etcd_Close])" for evs
    by (induction lease evs rule: keep_loop.induct) auto
  moreover have "Etcd_Close \<notin> set calls \<and> (\<forall>k v l. Etcd_Put k v l \<in> set calls \<longrightarrow> l = lease)"
    using assms unfolding Inr by (auto elim!: Register_ok)
  ultimately show ?thesis unfolding Inr by simp
qed

lemma Register_closes_its_client_witness:
  "count_list [Etcd_New [''localhost:2379''] 5000000000, Etcd_Close] Etcd_Close = 1"
proof -
  let ?e = "small_env\<lparr>interface_addrs := Some [IPNet [127, 0, 0, 1]]\<rparr>"
  have "Register ?e ''cache'' ''b:1'' = Some ([Etcd_New [''localhost:2379''] 5000000000, Etcd_Close], Inl Local_ip_failed)"
    by code_simp
  from Register_closes_its_client [OF this] show ?thesis by simp
qed

text \<open>
  The watch asks for all keys that start with \<open>/services/\<close> and the name of the service, without a
  closing slash. An instance of another service whose name extends it joins the ring as a peer, and
  stays when it leaves: the prefix with the slash is not cut off its key, so no address matches.
\<close>
lemma foreign_service_joins_and_stays:
  assumes "pk_svcName p = svc" "c \<noteq> CHR ''/''" "k = service_key (svc @ c # rest) v"
    and "v \<noteq> []" "v \<noteq> pk_selfAddr p" "newCli v = Some cli" "ring_inv (consHash p)"
    and "p1 = handle_event newCli (EventPut k v) p" "p2 = handle_event newCli (EventDelete k []) p1"
  shows "take (length (''/services/'' @ svc)) k = ''/services/'' @ svc \<and>
    v \<in> members (consHash p2) \<and> grpcCli p2 v = Some cli"
proof -
  note put = put_event [where newCli = newCli, OF assms(4-7), where k = k, folded assms(8)]
  have k: "k = ''/services/'' @ svc @ c # rest @ ''/'' @ v" by (simp add: assms(3) service_key_def)
  have trim: "trim_prefix k (''/services/'' @ pk_svcName p1 @ ''/'') = k"
    using assms(1,2) by (simp add: put k trim_prefix_def)
  have "k \<noteq> v"
  proof
    assume "k = v"
    then have "length k = length v" by simp
    then show False by (simp add: k)
  qed
  moreover have "v \<in> members (consHash p1)" "grpcCli p1 v = Some cli" by (simp_all add: put)
  ultimately have "v \<in> members (consHash p2) \<and> grpcCli p2 v = Some cli"
  proof (cases "k = pk_selfAddr p1")
    case True
    have "p2 = p1"
      by (simp only: assms(9) handle_event_def service_event.case Let_def trim) (simp add: True)
    with \<open>v \<in> members (consHash p1)\<close> \<open>grpcCli p1 v = Some cli\<close> show ?thesis by simp
  next
    case False
    have "k \<noteq> []" by (simp add: k)
    from delete_event [OF trim [symmetric] this False put(3), of newCli "[]", folded assms(9)]
    show ?thesis using \<open>k \<noteq> v\<close> \<open>v \<in> members (consHash p1)\<close> \<open>grpcCli p1 v = Some cli\<close> by auto
  qed
  then show ?thesis by (simp add: k)
qed

lemma foreign_service_joins_and_stays_witness:
  "\<exists>p2. p2 = handle_event (\<lambda>a. Some ()) (EventDelete ''/services/cache2/b'' [])
       (handle_event (\<lambda>a. Some ()) (EventPut ''/services/cache2/b'' ''b'')
         \<lparr>pk_selfAddr = ''a'', pk_svcName = ''cache'', consHash = NewConsistentHash ''a'' [], grpcCli = Map.empty\<rparr>) \<and>
     ''b'' \<in> members (consHash p2)"
proof -
  let ?p = "\<lparr>pk_selfAddr = ''a'', pk_svcName = ''cache'', consHash = NewConsistentHash ''a'' [], grpcCli = Map.empty\<rparr>"
  have inv: "ring_inv (consHash ?p)" using new_sound [of "''a''" "[]"] by (simp add: sound_def)
  have "''/services/cache2/b'' = service_key (''cache'' @ CHR ''2'' # []) ''b''" by (simp add: service_key_def)
  from foreign_service_joins_and_stays [OF _ _ this, of ?p "\<lambda>a. Some ()" "()", OF _ _ _ _ _ inv refl refl]
  show ?thesis by simp
qed

end
