(* ===== verification/Server_Life.thy ===== *)
theory Server_Life
  imports Cache_Server_Correct Registry_Properties
begin

text \<open>
  The life of a server: \<open>Close\<close> of \<open>server.go\<close> with the \<open>Close\<close> methods it calls in \<open>peer.go\<close>,
  \<open>con_hash.go\<close> and \<open>group.go\<close>, and what it means together with \<open>Start\<close> and the registration goroutine.

  What is released is recorded in order. A nil etcd client of the ring is the one that
  \<open>NewConsistentHash\<close> leaves when it cannot connect. \<open>GracefulStop\<close> belongs to gRPC: whether a call of it
  on the nil server returns is the parameter \<open>nil_stop_ok\<close>. \<^term>\<open>None\<close> is a panic.
\<close>

datatype release =
  Stop_channel | Picker_context | Picker_etcd | Ring_context | Ring_etcd | Cache_store | Redis_client | Grpc_server

definition Map_Close :: "bool \<Rightarrow> release list" where
  "Map_Close etcd_nil = [Ring_context] @ (if etcd_nil then [] else [Ring_etcd])"

definition Picker_Close :: "bool \<Rightarrow> release list" where
  "Picker_Close ring_etcd_nil = [Picker_context] @ [Picker_etcd] @ Map_Close ring_etcd_nil"

definition Group_Close :: "cache_group \<Rightarrow> cache_group \<times> release list" where
  "Group_Close g = (g\<lparr>gr_cache := Close (gr_cache g)\<rparr>, [Cache_store])"

definition Server_Close :: "bool \<Rightarrow> bool \<Rightarrow> 'c server \<Rightarrow> ('c server \<times> release list) option" where
  "Server_Close ring_etcd_nil nil_stop_ok s =
     (if stopCh_closed s then None
      else do {
        let s = s\<lparr>stopCh_closed := True\<rparr>;
        let rs = [Stop_channel];
        p \<leftarrow> clientPicker s;
        let rs = rs @ Picker_Close ring_etcd_nil;
        g \<leftarrow> groups s;
        let (g, r) = Group_Close g;
        let s = s\<lparr>groups := Some g\<rparr>;
        let rs = rs @ r @ [Redis_client];
        if \<not> grpcServer s \<and> \<not> nil_stop_ok then None else Some (s, rs @ [Grpc_server]) })"

subsection \<open>Lemmas\<close>

lemma Start_cases:
  assumes "Start renv listen_ok s = Some (s', calls, None)"
  obtains p g r where "clientPicker s = Some p" "groups s = Some g"
    "Register renv (sv_svcName s) (sv_selfAddr s) = Some (calls, r)" "listen_ok"
    "s' = (join_ring s)\<lparr>grpcServer := True, health := [sv_svcName s \<mapsto> NOT_SERVING]\<rparr>"
  using assms by (auto simp: Start_def join_ring_def Let_def bind_eq_Some_conv split: if_splits)

lemma Start_listen_failed:
  assumes "Start renv listen_ok s = Some (s', calls, Some Listen_failed)"
  obtains p g r where "clientPicker s = Some p" "groups s = Some g"
    "Register renv (sv_svcName s) (sv_selfAddr s) = Some (calls, r)" "\<not> listen_ok" "s' = join_ring s"
  using assms by (auto simp: Start_def Let_def bind_eq_Some_conv split: if_splits)

subsection \<open>Properties\<close>

text \<open>
  Closing a started server: \<open>Close\<close> returns, releases every resource once, in the order of the
  code, stops the cleanup ticker of the cache, and the stop channel it closes makes the registration
  goroutine revoke the lease that \<open>Start\<close> registered under and close its client. A second \<open>Close\<close> panics.
\<close>
lemma Close_ends_what_Start_began:
  assumes "Start renv listen_ok s = Some (s1, calls, None)" "\<not> stopCh_closed s"
    and "Register renv (sv_svcName s) (sv_selfAddr s) = Some (calls, Inr lease)"
  shows "\<exists>s2. Server_Close False nil_stop_ok s1 =
      Some (s2, [Stop_channel, Picker_context, Picker_etcd, Ring_context, Ring_etcd, Cache_store, Redis_client, Grpc_server]) \<and>
    (\<exists>g. groups s2 = Some g \<and> \<not> ticking (gr_cache g)) \<and> Server_Close False nil_stop_ok s2 = None \<and>
    (\<exists>k v. Etcd_Put k v lease \<in> set calls) \<and>
    keep_loop lease [Stop_closed] = ([Etcd_Revoke lease, Etcd_Close], True)"
proof -
  obtain p g r where st: "clientPicker s = Some p" "groups s = Some g"
    "s1 = (join_ring s)\<lparr>grpcServer := True, health := [sv_svcName s \<mapsto> NOT_SERVING]\<rparr>"
    by (rule Start_cases [OF assms(1)])
  have "\<exists>k v. Etcd_Put k v lease \<in> set calls" using assms(3) by (auto elim!: Register_ok)
  moreover have "Server_Close False nil_stop_ok s1 =
      Some (s1\<lparr>stopCh_closed := True, groups := Some (g\<lparr>gr_cache := Close (gr_cache g)\<rparr>)\<rparr>,
        [Stop_channel, Picker_context, Picker_etcd, Ring_context, Ring_etcd, Cache_store, Redis_client, Grpc_server])"
    using st assms(2) by (simp add: Server_Close_def Picker_Close_def Map_Close_def Group_Close_def join_ring_def)
  moreover have "\<not> ticking (Close (gr_cache g))" by (simp add: Close_def)
  moreover have "Server_Close False nil_stop_ok (s1\<lparr>stopCh_closed := True, groups := Some (g\<lparr>gr_cache := Close (gr_cache g)\<rparr>)\<rparr>) = None"
    by (simp add: Server_Close_def)
  ultimately show ?thesis by auto
qed

definition new_server :: "unit server" where
  "new_server = RegisterPeersToServer
     (Some \<lparr>pk_selfAddr = ''a'', pk_svcName = ''cache'', consHash = NewConsistentHash ''a'' [], grpcCli = Map.empty\<rparr>)
     (RegisterGroupToServer (NewGroup ''cache'' ''a'' NewOptions LRU) (NewServer ''a'' ''cache''))"

lemma new_server_registers:
  "Register small_env (sv_svcName new_server) (sv_selfAddr new_server) =
     Some ([Etcd_New [''localhost:2379''] 5000000000, Etcd_Grant 10, Etcd_Put ''/services/cache/a'' ''a'' 5,
       Etcd_KeepAlive 5], Inr 5)"
  by code_simp

lemma new_server_fields:
  "clientPicker new_server \<noteq> None" "groups new_server \<noteq> None" "\<not> stopCh_closed new_server"
  by (simp_all add: new_server_def RegisterPeersToServer_def RegisterGroupToServer_def NewServer_def)

lemma Close_ends_what_Start_began_witness:
  "\<exists>s1 calls s2 rs. Start small_env True new_server = Some (s1, calls, None) \<and>
     Server_Close False False s1 = Some (s2, rs) \<and> length rs = 8"
proof -
  obtain s1 where "Start small_env True new_server = Some (s1,
      [Etcd_New [''localhost:2379''] 5000000000, Etcd_Grant 10, Etcd_Put ''/services/cache/a'' ''a'' 5,
       Etcd_KeepAlive 5], None)"
    using new_server_fields by (simp add: Start_def new_server_registers Let_def)
  with Close_ends_what_Start_began [OF this new_server_fields(3) new_server_registers, of False]
  show ?thesis by auto
qed

text \<open>
  \<open>Start\<close> registers before it listens: when listening fails it returns an error, but the address is
  in etcd under a lease that the goroutine keeps renewing, nothing revokes it, and the node is a
  member of its own ring. The others route keys to a node that does not serve.
\<close>
lemma failed_Start_stays_registered:
  assumes "Start renv listen_ok s = Some (s', calls, Some Listen_failed)"
    and "Register renv (sv_svcName s) (sv_selfAddr s) = Some (calls, Inr lease)"
    and "clientPicker s = Some p" "ring_inv (consHash p)"
  shows "(\<exists>k v. Etcd_Put k v lease \<in> set calls) \<and> Etcd_Revoke lease \<notin> set calls \<and> Etcd_Close \<notin> set calls \<and>
    \<not> grpcServer s' = (\<not> grpcServer s) \<and> stopCh_closed s' = stopCh_closed s \<and>
    (\<exists>p'. clientPicker s' = Some p' \<and> sv_selfAddr s \<in> members (consHash p'))"
proof -
  have s': "s' = join_ring s" by (rule Start_listen_failed [OF assms(1)])
  have "sv_selfAddr s \<in> members (Map_Add (sv_selfAddr s) (consHash p))"
    using ring.add_law [OF assms(4), of "sv_selfAddr s" "[]"] by simp
  moreover have "(\<exists>k v. Etcd_Put k v lease \<in> set calls) \<and> Etcd_Revoke lease \<notin> set calls \<and> Etcd_Close \<notin> set calls"
    using assms(2) by (auto elim!: Register_ok)
  ultimately show ?thesis using assms(3) by (simp add: s' join_ring_def)
qed

lemma failed_Start_stays_registered_witness:
  "\<exists>s' calls. Start small_env False new_server = Some (s', calls, Some Listen_failed) \<and>
     (\<exists>k v. Etcd_Put k v 5 \<in> set calls)"
proof -
  obtain s' where S: "Start small_env False new_server = Some (s',
      [Etcd_New [''localhost:2379''] 5000000000, Etcd_Grant 10, Etcd_Put ''/services/cache/a'' ''a'' 5,
       Etcd_KeepAlive 5], Some Listen_failed)"
    using new_server_fields by (simp add: Start_def new_server_registers Let_def)
  obtain p where p: "clientPicker new_server = Some p" "ring_inv (consHash p)"
    using new_sound [of "''a''" "[]"] by (simp add: new_server_def RegisterPeersToServer_def sound_def)
  from failed_Start_stays_registered [OF S new_server_registers p] S show ?thesis by blast
qed

text \<open>The health service says not serving after every successful start.\<close>

lemma started_server_is_not_serving:
  "Start renv listen_ok s = Some (s', calls, None) \<Longrightarrow> health s' (sv_svcName s) = Some NOT_SERVING"
  by (erule Start_cases) simp

end
