(* ===== verification/Console.thy ===== *)
theory Console
  imports Server_Life
begin

text \<open>
  The command line, \<open>cmd/cache/main.go\<close>: how \<open>main\<close> puts a node together, and its loop that reads
  operations from standard input and calls the server.

  Standard input is the string that is still to be read and standard output the list of what the
  goroutine of \<open>main\<close> has printed, the line that \<open>Server.Get\<close> prints after picking a peer included; log
  lines are left out, and so is what goroutines in the background print (discovery and election). The clock readings of the \<open>n\<close>-th round are \<open>clk n\<close>. A round is
  \<open>main_step\<close>; the loop is a partial function, so \<^term>\<open>None\<close> means that \<open>main\<close> never returns.
\<close>

subsection \<open>Reading\<close>

text \<open>\<open>ReadString\<close> returns everything up to and including the delimiter, or what is left at the end of
  the input (with an error that \<open>main\<close> ignores); \<open>TrimRight\<close> with the cutset of line ends.\<close>

definition ReadString :: "string \<Rightarrow> string \<times> string" where
  "ReadString s =
     (let l = takeWhile (\<lambda>c. c \<noteq> CHR ''\<newline>'') s
      in (take (Suc (length l)) s, drop (Suc (length l)) s))"

definition TrimRight :: "string \<Rightarrow> string \<Rightarrow> string" where
  "TrimRight s cutset = rev (dropWhile (\<lambda>c. c \<in> set cutset) (rev s))"

definition line_end :: string where
  "line_end = [CHR 0x0D, CHR ''\<newline>'']"

definition read_line :: "string \<Rightarrow> string \<times> string" where
  "read_line s = (let (l, r) = ReadString s in (TrimRight l line_end, r))"

subsection \<open>State\<close>

datatype printed =
  Prompt_port | Prompt_operation | Prompt_key | Prompt_value | Get_line string bool bool | Get_value string | Set_done | Delete_done

record ('w, 'c) console =
  stdin :: string
  stdout :: "printed list"
  srv :: "'c server"
  world :: 'w
  rounds :: nat

definition emit :: "printed \<Rightarrow> ('w, 'c) console \<Rightarrow> ('w, 'c) console" where
  "emit out st = st\<lparr>stdout := stdout st @ [out]\<rparr>"

definition ask :: "printed \<Rightarrow> ('w, 'c) console \<Rightarrow> ('w, 'c) console \<times> string" where
  "ask prompt st =
     (let st = emit prompt st; (l, r) = read_line (stdin st) in (st\<lparr>stdin := r\<rparr>, l))"

subsection \<open>One round\<close>

datatype 's round = Continue 's | Return 's | Panic

definition with_server :: "('w, 'c) console \<Rightarrow> ('c server \<times> 'w \<times> 'r) option \<Rightarrow>
    (('w, 'c) console \<Rightarrow> 'r \<Rightarrow> ('w, 'c) console) \<Rightarrow> ('w, 'c) console round"
where
  "with_server st res f =
     (case res of None \<Rightarrow> Panic | Some (s, w, r) \<Rightarrow> Continue (f (st\<lparr>srv := s, world := w\<rparr>) r))"

text \<open>The line \<open>Get: peer ok self\<close> of \<open>server.go\<close>; a nil picker panics before it.\<close>

definition print_get :: "string \<Rightarrow> ('w, 'c) console \<Rightarrow> ('w, 'c) console" where
  "print_get key st =
     (case pick key (srv st) of None \<Rightarrow> st | Some (s, peer, ok, self) \<Rightarrow> emit (Get_line peer ok self) st)"

text \<open>A failed get prints the nil view, that is an empty string.\<close>

definition do_get ::
  "('w, 'c) env \<Rightarrow> (nat \<Rightarrow> int \<times> int \<times> int) \<Rightarrow> ('w, 'c) console \<Rightarrow> ('w, 'c) console round"
where
  "do_get env clk st =
     (let (st, key) = ask Prompt_key st; st = print_get key st
      in with_server st (GetFromCacheAndRedis env key (clk (rounds st)) (srv st) (world st))
           (\<lambda>st val. emit (Get_value (case val of Some v \<Rightarrow> v | None \<Rightarrow> [])) st))"

definition do_set :: "('w, 'c) env \<Rightarrow> ('w, 'c) console \<Rightarrow> ('w, 'c) console round" where
  "do_set env st =
     (let (st, key) = ask Prompt_key st; (st, val) = ask Prompt_value st
      in with_server st (SetToCacheAndRedis env key val (srv st) (world st)) (\<lambda>st ok. emit Set_done st))"

definition do_delete :: "('w, 'c) env \<Rightarrow> ('w, 'c) console \<Rightarrow> ('w, 'c) console round" where
  "do_delete env st =
     (let (st, key) = ask Prompt_key st
      in with_server st (DeleteCacheAndRedis env key (srv st) (world st)) (\<lambda>st ok. emit Delete_done st))"

definition do_set_hot ::
  "(nat \<Rightarrow> int \<times> int \<times> int) \<Rightarrow> ('w, 'c) console \<Rightarrow> ('w, 'c) console round"
where
  "do_set_hot clk st =
     (let (st, key) = ask Prompt_key st; (st, val) = ask Prompt_value st
      in case SetToCache key val (fst (clk (rounds st))) (srv st) of
           None \<Rightarrow> Panic
         | Some s \<Rightarrow> Continue (emit Set_done (st\<lparr>srv := s\<rparr>)))"

definition do_exit :: "bool \<Rightarrow> bool \<Rightarrow> ('w, 'c) console \<Rightarrow> ('w, 'c) console round" where
  "do_exit ring_etcd_nil nil_stop_ok st =
     (case Server_Close ring_etcd_nil nil_stop_ok (srv st) of
        None \<Rightarrow> Panic
      | Some (s, rs) \<Rightarrow> Return (st\<lparr>srv := s\<rparr>))"

definition main_step ::
  "('w, 'c) env \<Rightarrow> (nat \<Rightarrow> int \<times> int \<times> int) \<Rightarrow> bool \<Rightarrow> bool \<Rightarrow> ('w, 'c) console \<Rightarrow> ('w, 'c) console round"
where
  "main_step env clk ring_etcd_nil nil_stop_ok st =
     (let (st, operation) = ask Prompt_operation (st\<lparr>rounds := Suc (rounds st)\<rparr>)
      in if operation = ''get'' then do_get env clk st
         else if operation = ''set'' then do_set env st
         else if operation = ''delete'' then do_delete env st
         else if operation = ''set_hot'' then do_set_hot clk st
         else if operation = ''exit'' then do_exit ring_etcd_nil nil_stop_ok st
         else Continue st)"

subsection \<open>The loop and the start of the program\<close>

datatype 's outcome = Returned 's | Panicked

partial_function (option) main_loop ::
  "('w, 'c) env \<Rightarrow> (nat \<Rightarrow> int \<times> int \<times> int) \<Rightarrow> bool \<Rightarrow> bool \<Rightarrow> ('w, 'c) console \<Rightarrow> ('w, 'c) console outcome option"
where
  "main_loop env clk ring_etcd_nil nil_stop_ok st =
     (case main_step env clk ring_etcd_nil nil_stop_ok st of
        Continue st \<Rightarrow> main_loop env clk ring_etcd_nil nil_stop_ok st
      | Return st \<Rightarrow> Some (Returned st)
      | Panic \<Rightarrow> Some Panicked)"

text \<open>\<open>main\<close> up to the loop. \<open>port\<close> is what \<open>Scanln\<close> reads and \<open>rest\<close> what it leaves. Whether the picker
  gets its etcd client, the answers to the registration and whether listening succeeds are inputs; an
  error of \<open>NewClientPicker\<close> is logged and leaves a nil picker, an error of \<open>Start\<close> is ignored.\<close>

definition main_start ::
  "bool \<Rightarrow> reg_env \<Rightarrow> bool \<Rightarrow> string \<Rightarrow> string \<Rightarrow> 'w \<Rightarrow> ('w, 'c) console outcome"
where
  "main_start etcd_ok renv listen_ok port rest w =
     (let addr = ''localhost:'' @ port;
          srv = NewServer addr ''cache'';
          grp = NewGroup ''cache'' addr NewOptions LRU;
          picker = NewClientPicker addr ''cache'' None [] etcd_ok;
          srv = RegisterGroupToServer grp srv;
          srv = RegisterPeersToServer picker srv
      in case Start renv listen_ok srv of
           None \<Rightarrow> Panicked
         | Some (srv, calls, err) \<Rightarrow>
             Returned \<lparr>stdin = rest, stdout = [Prompt_port], srv = srv, world = w, rounds = 0\<rparr>)"

end
