(* ===== verification/Console_Properties.thy ===== *)
theory Console_Properties
  imports Console
begin

text \<open>
  The interactive loop as an interpreter: the input is a list of commands, and the loop executes them
  one after the other until \<open>exit\<close>, a panic, or for ever once the input has ended.
\<close>

subsection \<open>The commands of an input\<close>

datatype command =
  C_get string | C_set string string | C_delete string | C_set_hot string string | C_exit | C_other

definition read_command :: "string \<Rightarrow> command \<times> string" where
  "read_command s =
     (let (operation, r) = read_line s
      in if operation = ''get'' then (let (k, r) = read_line r in (C_get k, r))
         else if operation = ''set'' then (let (k, r) = read_line r; (v, r) = read_line r in (C_set k v, r))
         else if operation = ''delete'' then (let (k, r) = read_line r in (C_delete k, r))
         else if operation = ''set_hot'' then (let (k, r) = read_line r; (v, r) = read_line r in (C_set_hot k v, r))
         else if operation = ''exit'' then (C_exit, r) else (C_other, r))"

lemma read_line_rest: "snd (read_line s) = drop (Suc (length (takeWhile (\<lambda>c. c \<noteq> CHR ''\<newline>'') s))) s"
  by (simp add: read_line_def ReadString_def Let_def)

lemma read_line_shorter: "length (snd (read_line s)) \<le> length s - 1"
  by (simp add: read_line_rest)

lemma read_line_Nil [simp]: "read_line [] = ([], [])"
  by (simp add: read_line_def ReadString_def TrimRight_def)

lemma read_command_Nil [simp]: "read_command [] = (C_other, [])"
  by (simp add: read_command_def)

lemma read_command_shorter: "length (snd (read_command s)) \<le> length s - 1"
proof -
  have "length (snd (read_line r)) \<le> length s - 1" if "length r \<le> length s - 1" for r
    using read_line_shorter [of r] that by simp
  then show ?thesis
    using read_line_shorter [of s] by (simp add: read_command_def Let_def case_prod_beta)
qed

function commands :: "string \<Rightarrow> command list" where
  "commands s = (if s = [] then [] else fst (read_command s) # commands (snd (read_command s)))"
  by pat_completeness auto
termination
proof (relation "measure length")
  fix s :: string
  assume "s \<noteq> []"
  then have "0 < length s" by simp
  then have "length (snd (read_command s)) < length s" using read_command_shorter [of s] by linarith
  then show "(snd (read_command s), s) \<in> measure length" by simp
qed simp

declare commands.simps [simp del]

lemma commands_Nil [simp]: "commands [] = []"
  by (simp add: commands.simps)

subsection \<open>The interpreter\<close>

fun exec_command ::
  "('w, 'c) env \<Rightarrow> (nat \<Rightarrow> int \<times> int \<times> int) \<Rightarrow> bool \<Rightarrow> bool \<Rightarrow> command \<Rightarrow> ('w, 'c) console \<Rightarrow> ('w, 'c) console round"
where
  "exec_command env clk en ok (C_get k) st =
     with_server (print_get k (emit Prompt_key st)) (GetFromCacheAndRedis env k (clk (rounds st)) (srv st) (world st))
       (\<lambda>st val. emit (Get_value (case val of Some v \<Rightarrow> v | None \<Rightarrow> [])) st)"
| "exec_command env clk en ok (C_set k v) st =
     with_server (emit Prompt_value (emit Prompt_key st)) (SetToCacheAndRedis env k v (srv st) (world st))
       (\<lambda>st ok. emit Set_done st)"
| "exec_command env clk en ok (C_delete k) st =
     with_server (emit Prompt_key st) (DeleteCacheAndRedis env k (srv st) (world st)) (\<lambda>st ok. emit Delete_done st)"
| "exec_command env clk en ok (C_set_hot k v) st =
     (case SetToCache k v (fst (clk (rounds st))) (srv st) of
        None \<Rightarrow> Panic
      | Some s \<Rightarrow> Continue (emit Set_done ((emit Prompt_value (emit Prompt_key st))\<lparr>srv := s\<rparr>)))"
| "exec_command env clk en ok C_exit st = do_exit en ok st"
| "exec_command env clk en ok C_other st = Continue st"

definition next_round :: "('w, 'c) console \<Rightarrow> ('w, 'c) console" where
  "next_round st = emit Prompt_operation (st\<lparr>rounds := Suc (rounds st)\<rparr>)"

fun run_commands ::
  "('w, 'c) env \<Rightarrow> (nat \<Rightarrow> int \<times> int \<times> int) \<Rightarrow> bool \<Rightarrow> bool \<Rightarrow> command list \<Rightarrow> ('w, 'c) console \<Rightarrow>
     ('w, 'c) console outcome option"
where
  "run_commands env clk en ok [] st = None"
| "run_commands env clk en ok (c # cs) st =
     (case exec_command env clk en ok c (next_round st) of
        Continue st \<Rightarrow> run_commands env clk en ok cs st
      | Return st \<Rightarrow> Some (Returned st)
      | Panic \<Rightarrow> Some Panicked)"

subsection \<open>The loop runs the commands\<close>

definition no_input :: "('w, 'c) console \<Rightarrow> ('w, 'c) console" where
  "no_input st = st\<lparr>stdin := []\<rparr>"

lemma no_input_simps [simp]:
  "srv (no_input st) = srv st" "world (no_input st) = world st" "rounds (no_input st) = rounds st"
  "emit out (no_input st) = no_input (emit out st)" "next_round (no_input st) = no_input (next_round st)"
  "(no_input st)\<lparr>srv := s\<rparr> = no_input (st\<lparr>srv := s\<rparr>)" "(no_input st)\<lparr>world := w\<rparr> = no_input (st\<lparr>world := w\<rparr>)"
  "no_input (st\<lparr>stdin := r\<rparr>) = no_input st" "stdin (no_input st) = []" "stdout (no_input st) = stdout st"
  by (simp_all add: no_input_def emit_def next_round_def)

lemma emit_simps [simp]:
  "srv (emit out st) = srv st" "world (emit out st) = world st" "rounds (emit out st) = rounds st"
  "stdin (emit out st) = stdin st" "emit out (st\<lparr>stdin := r\<rparr>) = (emit out st)\<lparr>stdin := r\<rparr>"
  by (simp_all add: emit_def)

lemma next_round_simps [simp]:
  "srv (next_round st) = srv st" "world (next_round st) = world st" "stdin (next_round st) = stdin st"
  "rounds (next_round st) = Suc (rounds st)"
  by (simp_all add: next_round_def)

lemma print_get_simps [simp]:
  "srv (print_get k st) = srv st" "world (print_get k st) = world st" "rounds (print_get k st) = rounds st"
  "stdin (print_get k st) = stdin st" "print_get k (st\<lparr>stdin := r\<rparr>) = (print_get k st)\<lparr>stdin := r\<rparr>"
  "print_get k (no_input st) = no_input (print_get k st)"
  by (simp_all add: print_get_def split: option.split prod.split)

lemma with_server_no_input:
  assumes "\<And>st r. f (no_input st) r = no_input (f st r)"
  shows "with_server (no_input st) res f = map_round no_input (with_server st res f)"
  by (simp add: with_server_def assms split: option.split)

lemma exec_command_no_input:
  "exec_command env clk en ok c (no_input st) = map_round no_input (exec_command env clk en ok c st)"
  by (cases c) (simp_all add: with_server_no_input do_exit_def split: option.split)

lemma ask_read: "ask prompt st = ((emit prompt st)\<lparr>stdin := snd (read_line (stdin st))\<rparr>, fst (read_line (stdin st)))"
  by (simp add: ask_def Let_def case_prod_beta)

lemma stdin_last: "st\<lparr>stdin := i, srv := s\<rparr> = st\<lparr>srv := s, stdin := i\<rparr>"
  by simp

lemma with_server_stdin:
  assumes "\<And>st r. f (st\<lparr>stdin := i\<rparr>) r = (f st r)\<lparr>stdin := i\<rparr>"
  shows "with_server (st\<lparr>stdin := i\<rparr>) res f = map_round (\<lambda>st. st\<lparr>stdin := i\<rparr>) (with_server st res f)"
proof -
  have "f (st\<lparr>stdin := i, srv := s, world := w\<rparr>) r = (f (st\<lparr>srv := s, world := w\<rparr>) r)\<lparr>stdin := i\<rparr>" for s w r
  proof -
    have "st\<lparr>stdin := i, srv := s, world := w\<rparr> = st\<lparr>srv := s, world := w\<rparr>\<lparr>stdin := i\<rparr>" by simp
    then show ?thesis by (simp only: assms)
  qed
  then show ?thesis by (simp add: with_server_def split: option.split)
qed

text \<open>A round reads a command off the input and executes it.\<close>

lemma main_step_command:
  "main_step env clk en ok st =
     map_round (\<lambda>st'. st'\<lparr>stdin := snd (read_command (stdin st))\<rparr>)
       (exec_command env clk en ok (fst (read_command (stdin st))) (next_round st))"
proof -
  obtain operation r where rd: "read_line (stdin st) = (operation, r)" by force
  have a: "ask Prompt_operation (st\<lparr>rounds := Suc (rounds st)\<rparr>) = ((next_round st)\<lparr>stdin := r\<rparr>, operation)"
    by (simp add: ask_read rd next_round_def)
  let ?st = "(next_round st)\<lparr>stdin := r\<rparr>"
  have "main_step env clk en ok st =
      (if operation = ''get'' then do_get env clk ?st
       else if operation = ''set'' then do_set env ?st
       else if operation = ''delete'' then do_delete env ?st
       else if operation = ''set_hot'' then do_set_hot clk ?st
       else if operation = ''exit'' then do_exit en ok ?st
       else Continue ?st)"
    by (simp add: main_step_def a)
  then show ?thesis
    by (simp add: read_command_def rd Let_def case_prod_beta do_get_def do_set_def do_delete_def
        do_set_hot_def do_exit_def ask_read with_server_stdin stdin_last round.map_comp comp_def
        split: option.split)
qed

lemma main_step_end: "stdin st = [] \<Longrightarrow> main_step env clk en ok st = Continue ((next_round st)\<lparr>stdin := []\<rparr>)"
  by (simp add: main_step_command)

lemma main_loop_end: "stdin st = [] \<Longrightarrow> main_loop env clk en ok st = None"
proof (rule ccontr)
  assume s: "stdin st = []" "main_loop env clk en ok st \<noteq> None"
  then obtain r where r: "main_loop env clk en ok st = Some r" by auto
  have "stdin st \<noteq> []"
  proof (rule main_loop.raw_induct [where P = "\<lambda>env clk en ok st r. stdin st \<noteq> []", OF _ r])
    fix f env clk en ok and st :: "('w, 'c) console" and r
    assume IH: "\<And>env clk en ok st r. f env clk en ok st = Some r \<Longrightarrow> stdin st \<noteq> []"
      and step: "(case main_step env clk en ok st of Continue st \<Rightarrow> f env clk en ok st
        | Return st \<Rightarrow> Some (Returned st) | Panic \<Rightarrow> Some Panicked) = Some r"
    show "stdin st \<noteq> []"
    proof
      assume "stdin st = []"
      then have "f env clk en ok ((next_round st)\<lparr>stdin := []\<rparr>) = Some r" using step by (simp add: main_step_end)
      from IH [OF this] show False by simp
    qed
  qed
  with s(1) show False by simp
qed

primrec hide_input :: "('w, 'c) console outcome \<Rightarrow> ('w, 'c) console outcome" where
  "hide_input (Returned st) = Returned (no_input st)"
| "hide_input Panicked = Panicked"

lemma main_loop_commands:
  "map_option hide_input (main_loop env clk en ok st) = run_commands env clk en ok (commands (stdin st)) (no_input st)"
proof (induction "stdin st" arbitrary: st rule: commands.induct)
  case 1
  show ?case
  proof (cases "stdin st = []")
    case False
    let ?c = "fst (read_command (stdin st))" and ?r = "snd (read_command (stdin st))"
    have cs: "commands (stdin st) = ?c # commands ?r" using False by (simp add: commands.simps [of "stdin st"])
    show ?thesis
    proof (cases "exec_command env clk en ok ?c (next_round st)")
      case (Continue st1)
      have "map_option hide_input (main_loop env clk en ok (st1\<lparr>stdin := ?r\<rparr>))
          = run_commands env clk en ok (commands ?r) (no_input st1)"
        using 1 [OF False, of "st1\<lparr>stdin := ?r\<rparr>"] by simp
      then show ?thesis
        by (subst main_loop.simps) (simp add: cs Continue main_step_command exec_command_no_input)
    qed (subst main_loop.simps, simp add: cs main_step_command exec_command_no_input)+
  qed (simp add: main_loop_end)
qed

subsection \<open>A session on one node\<close>

text \<open>The operations on the cache leave the life and the address of the server alone.\<close>

definition node_addr :: "'c server \<Rightarrow> string option" where
  "node_addr s = map_option pk_selfAddr (clientPicker s)"

definition same_life :: "'c server \<Rightarrow> 'c server \<Rightarrow> bool" where
  "same_life s s' \<longleftrightarrow> stopCh_closed s' = stopCh_closed s \<and> grpcServer s' = grpcServer s \<and> node_addr s' = node_addr s"

lemma pick_life: "pick k s = Some (s', r) \<Longrightarrow> same_life s s'"
  by (auto simp: pick_def same_life_def node_addr_def PickPeer_def Let_def case_prod_beta bind_eq_Some_conv split: if_splits)

lemma put_store_life: "same_life s (put_store st s') = same_life s s'"
  by (simp add: same_life_def node_addr_def)

lemma server_life:
  "Server_Get env k clk s w = Some (s', w', r) \<Longrightarrow> same_life s s'"
  "Server_Set env k v s w = Some (s', w', r') \<Longrightarrow> same_life s s'"
  "Server_Delete env k s w = Some (s', w', r'') \<Longrightarrow> same_life s s'"
  by (auto simp: Server_Get_store Server_Set_store Server_Delete_store get_fill_store bind_eq_Some_conv Let_def
      put_store_life case_prod_beta dest!: pick_life split: if_splits prod.splits option.splits)

text \<open>A node that owns the key picks itself, and says so.\<close>

lemma print_get_owner:
  assumes "owns UNIV (srv st)" "node_addr (srv st) = Some addr"
  shows "print_get k st = emit (Get_line addr True True) st"
proof -
  obtain p where p: "clientPicker (srv st) = Some p" "pk_selfAddr p = addr" "addr \<noteq> []" "route (consHash p) k = addr"
    using assms by (auto simp: owns_def node_addr_def)
  then have "snd (PickPeer k p) = (addr, True, True)" by (simp add: PickPeer_def route_def case_prod_beta Let_def)
  then show ?thesis using p(1) by (simp add: print_get_def pick_def case_prod_beta)
qed

text \<open>What a session prints and does when a plain map stands for the node.\<close>

fun said :: "string \<Rightarrow> command \<Rightarrow> (string \<rightharpoonup> string) \<Rightarrow> printed list" where
  "said addr (C_get k) m =
     [Prompt_operation, Prompt_key, Get_line addr True True, Get_value (case m k of Some v \<Rightarrow> v | None \<Rightarrow> [])]"
| "said addr (C_set k v) m = [Prompt_operation, Prompt_key, Prompt_value, Set_done]"
| "said addr (C_delete k) m = [Prompt_operation, Prompt_key, Delete_done]"
| "said addr _ m = [Prompt_operation]"

fun effect :: "command \<Rightarrow> (string \<rightharpoonup> string) \<Rightarrow> (string \<rightharpoonup> string)" where
  "effect (C_set k v) m = m(k \<mapsto> v)"
| "effect (C_delete k) m = m(k := None)"
| "effect _ m = m"

fun transcript :: "string \<Rightarrow> command list \<Rightarrow> (string \<rightharpoonup> string) \<Rightarrow> printed list" where
  "transcript addr [] m = []"
| "transcript addr (c # cs) m = said addr c m @ transcript addr cs (effect c m)"

fun plain :: "command \<Rightarrow> bool" where
  "plain (C_set_hot k v) = False"
| "plain C_exit = False"
| "plain _ = True"

definition clocks_fine :: "(nat \<Rightarrow> int \<times> int \<times> int) \<Rightarrow> bool" where
  "clocks_fine clk \<longleftrightarrow> (\<forall>n. long_lived (snd (snd (clk n))))"

lemma stdout_simps [simp]:
  "stdout (emit out st) = stdout st @ [out]" "stdout (next_round st) = stdout st @ [Prompt_operation]"
  by (simp_all add: emit_def next_round_def)

lemma session_step:
  assumes "redis_laws env rmap" "coherent (rmap (world st)) (srv st)" "clocks_fine clk" "plain c"
    and "node_addr (srv st) = Some addr"
  obtains st1 where "exec_command env clk en ok c (next_round st) = Continue st1"
    "coherent (rmap (world st1)) (srv st1)" "rmap (world st1) = effect c (rmap (world st))"
    "stdout st1 = stdout st @ said addr c (rmap (world st))" "same_life (srv st) (srv st1)"
proof (cases c)
  case (C_get k)
  obtain n n' n'' where clk: "clk (Suc (rounds st)) = (n, n', n'')" by (cases "clk (Suc (rounds st))")
  then have "long_lived n''" using assms(3) by (metis clocks_fine_def snd_conv)
  then obtain s' where S: "Server_Get env k (n, n', n'') (srv st) (world st) = Some (s', world st, rmap (world st) k)"
    "coherent (rmap (world st)) s'"
    by (rule Server_Get_coherent [OF assms(1,2) UNIV_I])
  have pr: "print_get k (emit Prompt_key (next_round st)) = emit (Get_line addr True True) (emit Prompt_key (next_round st))"
    using assms(2,5) by (intro print_get_owner) (simp_all add: coherent_on_def)
  show thesis
    by (rule that [of "emit (Get_value (case rmap (world st) k of Some v \<Rightarrow> v | None \<Rightarrow> []))
        ((emit (Get_line addr True True) (emit Prompt_key (next_round st)))\<lparr>srv := s', world := world st\<rparr>)"])
      (use S server_life(1) [OF S(1)] in \<open>simp_all add: C_get with_server_def GetFromCacheAndRedis_def clk pr\<close>)
next
  case (C_set k v)
  obtain s' w' where S: "Server_Set env k v (srv st) (world st) = Some (s', w', Some v)"
    "coherent (rmap w') s'" "rmap w' = (rmap (world st))(k \<mapsto> v)" "cached s' k = None"
    by (rule Server_Set_coherent [OF assms(1,2) UNIV_I])
  show thesis
    by (rule that [of "emit Set_done ((emit Prompt_value (emit Prompt_key (next_round st)))\<lparr>srv := s', world := w'\<rparr>)"])
      (use S server_life(2) [OF S(1)] in \<open>simp_all add: C_set with_server_def SetToCacheAndRedis_def\<close>)
next
  case (C_delete k)
  obtain s' w' where S: "Server_Delete env k (srv st) (world st) = Some (s', w', Some True)"
    "coherent (rmap w') s'" "rmap w' = (rmap (world st))(k := None)"
    by (rule Server_Delete_coherent [OF assms(1,2) UNIV_I])
  show thesis
    by (rule that [of "emit Delete_done ((emit Prompt_key (next_round st))\<lparr>srv := s', world := w'\<rparr>)"])
      (use S server_life(3) [OF S(1)] in \<open>simp_all add: C_delete with_server_def DeleteCacheAndRedis_def\<close>)
next
  case C_other
  show thesis by (rule that [of "next_round st"]) (simp_all add: C_other assms(2) same_life_def)
qed (use assms(4) in simp_all)

lemma same_life_trans: "same_life s s1 \<Longrightarrow> same_life s1 s2 \<Longrightarrow> same_life s s2"
  by (simp add: same_life_def)

lemma session:
  assumes "redis_laws env rmap" "coherent (rmap (world st)) (srv st)" "clocks_fine clk" "\<forall>c\<in>set cs. plain c"
    and "node_addr (srv st) = Some addr"
  obtains st1 where "\<forall>post. run_commands env clk en ok (cs @ post) st = run_commands env clk en ok post st1"
    "coherent (rmap (world st1)) (srv st1)" "rmap (world st1) = fold effect cs (rmap (world st))"
    "stdout st1 = stdout st @ transcript addr cs (rmap (world st))" "same_life (srv st) (srv st1)"
  using assms(2,4,5)
proof (induction cs arbitrary: st thesis)
  case Nil
  show ?case by (rule Nil(1) [of st]) (simp_all add: Nil same_life_def)
next
  case (Cons c cs)
  obtain st1 where st1: "exec_command env clk en ok c (next_round st) = Continue st1"
    "coherent (rmap (world st1)) (srv st1)" "rmap (world st1) = effect c (rmap (world st))"
    "stdout st1 = stdout st @ said addr c (rmap (world st))" "same_life (srv st) (srv st1)"
    using session_step [OF assms(1) Cons.prems(2) assms(3) _ Cons.prems(4), of c en ok] Cons.prems(3) by auto
  have a: "node_addr (srv st1) = Some addr" using st1(5) Cons.prems(4) by (simp add: same_life_def)
  obtain st2 where "\<forall>post. run_commands env clk en ok (cs @ post) st1 = run_commands env clk en ok post st2"
    "coherent (rmap (world st2)) (srv st2)" "rmap (world st2) = fold effect cs (rmap (world st1))"
    "stdout st2 = stdout st1 @ transcript addr cs (rmap (world st1))" "same_life (srv st1) (srv st2)"
    using Cons.IH [OF _ st1(2) _ a] Cons.prems(3) by auto
  then show ?case
    using st1 by (intro Cons.prems(1) [of st2]) (auto intro: same_life_trans)
qed

lemma coherent_Close:
  assumes "coherent m s" "\<not> stopCh_closed s" "grpcServer s \<or> ok"
  obtains s' rs where "Server_Close en ok s = Some (s', rs)"
proof -
  obtain p g where "clientPicker s = Some p" "groups s = Some g"
    using assms(1) store_ofD unfolding coherent_on_def owns_def by blast
  then have "Server_Close en ok s \<noteq> None"
    using assms(2,3) by (auto simp: Server_Close_def Let_def case_prod_beta)
  then show thesis using that by (cases "Server_Close en ok s") auto
qed

lemma run_exit:
  assumes "coherent m (srv st)" "\<not> stopCh_closed (srv st)" "grpcServer (srv st) \<or> ok"
  obtains st' where "run_commands env clk en ok (C_exit # post) st = Some (Returned st')"
    "stdout st' = stdout st @ [Prompt_operation]" "world st' = world st"
proof -
  obtain s' rs where "Server_Close en ok (srv st) = Some (s', rs)" by (rule coherent_Close [OF assms])
  then show thesis by (intro that [of "(next_round st)\<lparr>srv := s'\<rparr>"]) (simp_all add: do_exit_def)
qed

subsection \<open>Properties\<close>

text \<open>
  C20. \<open>main\<close> is an interpreter of the commands in its input: for every input, environment and start
  state the loop returns, panics or runs for ever exactly as executing the list of commands does, with
  the same output and the same final server and world. In particular it never returns once the
  input has ended without \<open>exit\<close>: the end of the input reads as an empty operation, again and again.
\<close>
theorem main_interprets_its_input:
  "map_option hide_input (main_loop env clk en ok st) = run_commands env clk en ok (commands (stdin st)) (no_input st)"
  by (rule main_loop_commands)

text \<open>
  A console session is transparent: on a node that owns the keys, in front of a redis that keeps
  what it is given, every input of gets, sets, deletes and unknown operations up to the first \<open>exit\<close>
  makes \<open>main\<close> return, having printed what a plain map would have answered, and redis holds that map.
\<close>
lemma console_session_is_transparent:
  assumes "redis_laws env rmap" "coherent (rmap (world st)) (srv st)" "clocks_fine clk"
    and "\<not> stopCh_closed (srv st)" "grpcServer (srv st) \<or> ok"
    and "commands (stdin st) = cs @ C_exit # post" "\<forall>c\<in>set cs. plain c" "node_addr (srv st) = Some addr"
  shows "\<exists>st'. main_loop env clk en ok st = Some (Returned st') \<and>
    stdout st' = stdout st @ transcript addr cs (rmap (world st)) @ [Prompt_operation] \<and>
    rmap (world st') = fold effect cs (rmap (world st))"
proof -
  have c: "coherent (rmap (world (no_input st))) (srv (no_input st))" using assms(2) by simp
  obtain st1 where s: "\<forall>post. run_commands env clk en ok (cs @ post) (no_input st) = run_commands env clk en ok post st1"
    "coherent (rmap (world st1)) (srv st1)" "rmap (world st1) = fold effect cs (rmap (world st))"
    "stdout st1 = stdout st @ transcript addr cs (rmap (world st))" "same_life (srv st) (srv st1)"
    using session [OF assms(1) c assms(3,7), of addr en ok] assms(8) by auto
  have life: "\<not> stopCh_closed (srv st1)" "grpcServer (srv st1) \<or> ok" using s(5) assms(4,5) by (auto simp: same_life_def)
  obtain st' where e: "run_commands env clk en ok (C_exit # post) st1 = Some (Returned st')"
    "stdout st' = stdout st1 @ [Prompt_operation]" "world st' = world st1"
    by (rule run_exit [OF s(2) life, of env clk en post])
  have "map_option hide_input (main_loop env clk en ok st) = Some (Returned st')"
    by (simp only: main_loop_commands assms(6) s(1) [rule_format] e(1))
  then obtain st2 where m: "main_loop env clk en ok st = Some (Returned st2)" "no_input st2 = st'"
    by (auto split: outcome.splits) (metis hide_input.simps outcome.distinct(1) outcome.exhaust outcome.inject)
  from m(2) have "stdout st2 = stdout st'" "world st2 = world st'" by auto
  then show ?thesis using m(1) e(2,3) s(3,4) by simp
qed

definition small_console :: "string \<Rightarrow> (string \<rightharpoonup> string, unit) console" where
  "small_console input = \<lparr>stdin = input, stdout = [], srv = small_server, world = Map.empty, rounds = 0\<rparr>"

definition session_input :: string where
  "session_input = ''set\<newline>k\<newline>v w\<newline>get\<newline>k\<newline>delete\<newline>k\<newline>get\<newline>k\<newline>exit\<newline>get''"

lemma session_commands:
  "commands session_input =
     [C_set ''k'' ''v w'', C_get ''k'', C_delete ''k'', C_get ''k''] @ C_exit # [C_get []]"
  by code_simp

lemma small_console_ok:
  "coherent (world (small_console input)) (srv (small_console input))"
  "\<not> stopCh_closed (srv (small_console input))" "clocks_fine (\<lambda>_. (1, 1, 1))"
  "stdin (small_console input) = input" "stdout (small_console input) = []"
  using small_server_coherent
  by (simp_all add: small_console_def clocks_fine_def long_lived_def expiry_def int64_def small_server_def
      join_ring_def RegisterPeersToServer_def RegisterGroupToServer_def NewServer_def)

text \<open>A node that \<open>main\<close> has just started, alone on its ring.\<close>

lemma main_start_ok:
  fixes st :: "('w, 'c) console"
  assumes "main_start True renv True port rest w = Returned st"
  shows "stdin st = rest" "stdout st = [Prompt_port]" "world st = w" "\<not> stopCh_closed (srv st)"
    "grpcServer (srv st)" "coherent m (srv st)" "node_addr (srv st) = Some (''localhost:'' @ port)"
proof -
  define s :: "'c server" where "s = RegisterPeersToServer (NewClientPicker (''localhost:'' @ port) ''cache'' None [] True)
    (RegisterGroupToServer (NewGroup ''cache'' (''localhost:'' @ port) NewOptions LRU) (NewServer (''localhost:'' @ port) ''cache''))"
  have run: "Start renv True s \<noteq> None" using assms
    by (auto simp: main_start_def s_def Let_def split: option.splits)
  then obtain srv' calls err where S: "Start renv True s = Some (srv', calls, err)" by auto
  obtain p where p: "clientPicker s = Some p" "pk_selfAddr p = sv_selfAddr s" "sv_selfAddr s \<noteq> []"
    "consHash p = NewConsistentHash (''localhost:'' @ port) []"
    by (simp add: s_def RegisterPeersToServer_def RegisterGroupToServer_def NewServer_def NewClientPicker_def Let_def)
  have g: "store_of s = Some (newLRU2Cache NewOptions)"
    by (simp add: s_def RegisterPeersToServer_def RegisterGroupToServer_def NewGroup_def NewStore_def)
  have srv': "srv' = (join_ring s)\<lparr>grpcServer := True, health := [sv_svcName s \<mapsto> NOT_SERVING]\<rparr>"
    using S p(1) store_ofD [OF g] by (auto simp: Start_def Let_def bind_eq_Some_conv join_ring_def)
  have st: "st = \<lparr>stdin = rest, stdout = [Prompt_port], srv = srv', world = w, rounds = 0\<rparr>"
    using assms S by (simp add: main_start_def s_def Let_def)
  show "stdin st = rest" "stdout st = [Prompt_port]" "world st = w" by (simp_all add: st)
  show "\<not> stopCh_closed (srv st)" "grpcServer (srv st)"
    by (simp_all add: st srv' join_ring_def s_def RegisterPeersToServer_def RegisterGroupToServer_def NewServer_def)
  have "pk_selfAddr p = ''localhost:'' @ port"
    using p(2) by (simp add: s_def RegisterPeersToServer_def RegisterGroupToServer_def NewServer_def)
  then show "node_addr (srv st) = Some (''localhost:'' @ port)" using p(1) by (simp add: st srv' node_addr_def join_ring_def)
  have "good_options NewOptions" by code_simp
  then have "coherent m (join_ring s)"
    by (intro lone_server_coherent [OF p(1-3) _ _ _ g])
      (simp_all add: p(4) NewConsistentHash_def members_def DefaultConfig_def)
  then show "coherent m (srv st)" by (simp add: st srv' coherent_on_def owns_def cached_def)
qed

text \<open>
  C3. End to end: after \<open>main\<close> has put a node together (store, hash ring with CRC-32, picker, server) and
  as long as no other node joins, every input of gets, sets, deletes and unknown operations up to the first
  \<open>exit\<close> is answered as a plain map would, whatever the caches do in between: \<open>main\<close> returns, its goroutine
  has printed the prompts, for every get the line that names the node itself as the peer and then what redis
  held at that point, and redis ends with the writes of the session. This assumes a redis that keeps what it
  is given, and clock readings at which the lifetime of a cached load (115 days) does not overflow int64.
  Sessions are sequential: nobody else calls the server.
\<close>
theorem fresh_console_is_transparent:
  assumes "main_start True renv True port rest w = Returned st"
    and "redis_laws env rmap" "clocks_fine clk"
    and "commands rest = cs @ C_exit # post" "\<forall>c\<in>set cs. plain c"
  shows "\<exists>st'. main_loop env clk etcd_nil nil_stop_ok st = Some (Returned st') \<and>
    stdout st' = [Prompt_port] @ transcript (''localhost:'' @ port) cs (rmap w) @ [Prompt_operation] \<and>
    rmap (world st') = fold effect cs (rmap w)"
proof -
  note st = main_start_ok [OF assms(1)]
  have c: "commands (stdin st) = cs @ C_exit # post" using assms(4) st(1) by simp
  from console_session_is_transparent [where rmap = rmap, OF assms(2) st(6) assms(3) st(4) disjI1 [OF st(5)] c assms(5) st(7)]
  show ?thesis by (simp add: st(2,3))
qed

theorem fresh_console_is_transparent_witness:
  "\<exists>st st'. main_start True small_env True ''8001'' session_input Map.empty = Returned st \<and>
     main_loop map_env (\<lambda>_. (1, 1, 1)) False False st = Some (Returned st') \<and>
     stdout st' = [Prompt_port, Prompt_operation, Prompt_key, Prompt_value, Set_done,
       Prompt_operation, Prompt_key, Get_line ''localhost:8001'' True True, Get_value ''v w'',
       Prompt_operation, Prompt_key, Delete_done,
       Prompt_operation, Prompt_key, Get_line ''localhost:8001'' True True, Get_value [], Prompt_operation]"
proof -
  have "Register small_env ''cache'' ''localhost:8001'' \<noteq> None" by code_simp
  then have "\<exists>st :: (string \<rightharpoonup> string, unit) console.
      main_start True small_env True ''8001'' session_input Map.empty = Returned st"
    by (auto simp: main_start_def Start_def Let_def RegisterPeersToServer_def RegisterGroupToServer_def
        NewServer_def NewClientPicker_def join_ring_def)
  then obtain st :: "(string \<rightharpoonup> string, unit) console"
    where st: "main_start True small_env True ''8001'' session_input Map.empty = Returned st" by blast
  from fresh_console_is_transparent [OF st map_env_laws small_console_ok(3) session_commands]
  show ?thesis using st by fastforce
qed

subsection \<open>Which inputs end\<close>

text \<open>A node that can serve and be closed; nothing is said of redis or of the values in the cache but that
  they are not nil.\<close>

definition serving :: "bool \<Rightarrow> 'c server \<Rightarrow> bool" where
  "serving ok s \<longleftrightarrow> owns UNIV s \<and> \<not> stopCh_closed s \<and> (grpcServer s \<or> ok) \<and>
     (\<exists>st. store_of s = Some st \<and> store_inv st \<and> (\<forall>k v e. sview st k = Some (v, e) \<longrightarrow> v \<noteq> None))"

lemma coherent_serving:
  "coherent m s \<Longrightarrow> \<not> stopCh_closed s \<Longrightarrow> grpcServer s \<or> ok \<Longrightarrow> serving ok s"
  by (fastforce simp: coherent_on_def serving_def cached_def)

lemma serving_put:
  assumes "serving ok s" "store_inv st" "\<forall>k v e. sview st k = Some (v, e) \<longrightarrow> v \<noteq> None"
  shows "serving ok (put_store st s)"
  using assms by (simp add: serving_def owns_def)

lemma serving_pick:
  assumes "serving ok s"
  obtains s1 self st where "pick k s = Some (s1, self, True, True)" "self \<noteq> []" "serving ok s1" "store_of s1 = Some st"
    "store_inv st" "\<forall>k v e. sview st k = Some (v, e) \<longrightarrow> v \<noteq> None"
proof -
  have o: "owns UNIV s" using assms by (simp add: serving_def)
  obtain s1 self where P: "pick k s = Some (s1, self, True, True)" "self \<noteq> []" "owns UNIV s1" "store_of s1 = store_of s"
    using pick_self [OF o UNIV_I] by metis
  then have "serving ok s1" using pick_life [OF P(1)] assms by (simp add: serving_def same_life_def)
  then show thesis using that P by (auto simp: serving_def)
qed

lemma serving_fill:
  assumes "serving ok s" "long_lived now"
  obtains s' where "get_fill k v now s = Some s'" "serving ok s'"
proof -
  obtain st where st: "store_of s = Some st" "store_inv st" "\<forall>k v e. sview st k = Some (v, e) \<longrightarrow> v \<noteq> None"
    using assms(1) by (auto simp: serving_def)
  obtain st' where F: "get_fill k v now s = Some (put_store st' s)" "store_inv st'"
    "sview st' k = Some (Some v, expiry now 9999999999999999)"
    "\<forall>k'. k' \<noteq> k \<longrightarrow> sview st' k' = sview st k' \<or> sview st' k' = None"
    by (rule get_fill_spec [OF st(1,2) assms(2), of k v])
  have "w \<noteq> None" if "sview st' k' = Some (w, e)" for k' w e
    using that F(3,4) st(3) by (cases "k' = k") (auto, metis option.distinct(1))
  then show thesis using that F(1) serving_put [OF assms(1) F(2)] by blast
qed

text \<open>No handler panics on such a node, whatever redis does, and the node stays one.\<close>

lemma serving_Get:
  assumes "serving ok s" "long_lived (snd (snd clk))"
  obtains s' w' r where "Server_Get env k clk s w = Some (s', w', r)" "serving ok s'"
proof -
  obtain n n' n'' where clk: "clk = (n, n', n'')" by (cases clk)
  obtain s1 self st where P: "pick k s = Some (s1, self, True, True)" "self \<noteq> []" "serving ok s1" "store_of s1 = Some st"
    "store_inv st" "\<forall>k v e. sview st k = Some (v, e) \<longrightarrow> v \<noteq> None"
    by (rule serving_pick [OF assms(1)])
  obtain st1 v hit evs where G: "Get st k n n' = Some (st1, (v, hit), evs)" "store_inv st1"
    "\<forall>k'. sview st1 k' = sview st k' \<or> sview st1 k' = None" "hit \<longrightarrow> (\<exists>e. sview st k = Some (v, e) \<and> n < e)"
    using lru2_store.get_law [OF P(5), of k n n'] by blast
  have "\<forall>k v e. sview st1 k = Some (v, e) \<longrightarrow> v \<noteq> None" using G(3) P(6) by (metis option.distinct(1))
  then have s1: "serving ok (put_store st1 s1)" by (rule serving_put [OF P(3) G(2)])
  show thesis
  proof (cases hit)
    case True
    then obtain x where "v = Some x" using G(4) P(6) by blast
    then have "Server_Get env k clk s w = Some (put_store st1 s1, w, Some x)"
      using P(1,2,4) G(1) True by (simp add: Server_Get_store clk)
    then show thesis using that s1 by blast
  next
    case False
    obtain w1 r where R: "redis_Get env k w = (w1, r)" by force
    show thesis
    proof (cases r)
      case None
      then have "Server_Get env k clk s w = Some (put_store st1 s1, w1, None)"
        using P(1,2,4) G(1) False R by (simp add: Server_Get_store clk)
      then show thesis using that s1 by blast
    next
      case (Some x)
      obtain s2 where F: "get_fill k x n'' (put_store st1 s1) = Some s2" "serving ok s2"
        by (rule serving_fill [OF s1, of n'' k x]) (use assms(2) clk in simp_all)
      then have "Server_Get env k clk s w = Some (s2, w1, Some x)"
        using P(1,2,4) G(1) False R Some by (simp add: Server_Get_store clk)
      then show thesis using that F(2) by blast
    qed
  qed
qed

lemma serving_Delete_store:
  assumes "serving ok s1" "store_of s1 = Some st" "store_inv st" "\<forall>k v e. sview st k = Some (v, e) \<longrightarrow> v \<noteq> None"
  obtains st' b evs where "Delete st k = Some (st', b, evs)" "serving ok (put_store st' s1)"
proof -
  obtain st' evs where D: "Delete st k = Some (st', sview st k \<noteq> None, evs)" "store_inv st'"
    "sview st' k = None" "\<forall>k'. k' \<noteq> k \<longrightarrow> sview st' k' = sview st k'"
    using lru2_store.delete_law [OF assms(3), of k] by blast
  have "\<forall>k v e. sview st' k = Some (v, e) \<longrightarrow> v \<noteq> None" using D(3,4) assms(4) by (metis option.distinct(1))
  then show thesis using that D(1) serving_put [OF assms(1) D(2)] by blast
qed

lemma serving_Set:
  assumes "serving ok s"
  obtains s' w' where "Server_Set env k v s w = Some (s', w', Some v)" "serving ok s'"
proof -
  obtain s1 self st where P: "pick k s = Some (s1, self, True, True)" "self \<noteq> []" "serving ok s1" "store_of s1 = Some st"
    "store_inv st" "\<forall>k v e. sview st k = Some (v, e) \<longrightarrow> v \<noteq> None"
    by (rule serving_pick [OF assms])
  obtain st' b evs where "Delete st k = Some (st', b, evs)" "serving ok (put_store st' s1)"
    by (rule serving_Delete_store [OF P(3-6)])
  then show thesis using that P(1,2,4) by (simp add: Server_Set_store case_prod_beta)
qed

lemma serving_Delete:
  assumes "serving ok s"
  obtains s' w' where "Server_Delete env k s w = Some (s', w', Some True)" "serving ok s'"
proof -
  obtain s1 self st where P: "pick k s = Some (s1, self, True, True)" "self \<noteq> []" "serving ok s1" "store_of s1 = Some st"
    "store_inv st" "\<forall>k v e. sview st k = Some (v, e) \<longrightarrow> v \<noteq> None"
    by (rule serving_pick [OF assms])
  obtain st' b evs where "Delete st k = Some (st', b, evs)" "serving ok (put_store st' s1)"
    by (rule serving_Delete_store [OF P(3-6)])
  then show thesis using that P(1,2,4) by (simp add: Server_Delete_store case_prod_beta)
qed

definition all_clocks_fine :: "(nat \<Rightarrow> int \<times> int \<times> int) \<Rightarrow> bool" where
  "all_clocks_fine clk \<longleftrightarrow> clocks_fine clk \<and> (\<forall>n. long_lived (fst (clk n)))"

lemma serving_command:
  assumes "serving ok (srv st)" "all_clocks_fine clk" "c \<noteq> C_exit"
  obtains st1 where "exec_command env clk en ok c (next_round st) = Continue st1" "serving ok (srv st1)"
proof (cases c)
  case (C_get k)
  have "long_lived (snd (snd (clk (Suc (rounds st)))))" using assms(2) by (simp add: all_clocks_fine_def clocks_fine_def)
  then obtain s' w' r where "Server_Get env k (clk (Suc (rounds st))) (srv st) (world st) = Some (s', w', r)" "serving ok s'"
    by (rule serving_Get [OF assms(1)])
  then show thesis using that by (simp add: C_get with_server_def GetFromCacheAndRedis_def)
next
  case (C_set k v)
  obtain s' w' where "Server_Set env k v (srv st) (world st) = Some (s', w', Some v)" "serving ok s'"
    by (rule serving_Set [OF assms(1)])
  then show thesis using that by (simp add: C_set with_server_def SetToCacheAndRedis_def)
next
  case (C_delete k)
  obtain s' w' where "Server_Delete env k (srv st) (world st) = Some (s', w', Some True)" "serving ok s'"
    by (rule serving_Delete [OF assms(1)])
  then show thesis using that by (simp add: C_delete with_server_def DeleteCacheAndRedis_def)
next
  case (C_set_hot k v)
  have "long_lived (fst (clk (Suc (rounds st))))" using assms(2) by (simp add: all_clocks_fine_def)
  then obtain s' where "get_fill k v (fst (clk (Suc (rounds st)))) (srv st) = Some s'" "serving ok s'"
    by (rule serving_fill [OF assms(1)])
  then show thesis using that by (simp add: C_set_hot SetToCache_def)
next
  case C_other
  then show thesis using that [of "next_round st"] assms(1) by simp
qed (use assms(3) in simp)

lemma serving_Close:
  assumes "serving ok s"
  obtains s' rs where "Server_Close en ok s = Some (s', rs)"
proof -
  obtain p g where "clientPicker s = Some p" "groups s = Some g"
    using assms store_ofD unfolding serving_def owns_def by blast
  then have "Server_Close en ok s \<noteq> None"
    using assms by (auto simp: serving_def Server_Close_def Let_def case_prod_beta)
  then show thesis using that by (cases "Server_Close en ok s") auto
qed

lemma serving_run:
  "serving ok (srv st) \<Longrightarrow> all_clocks_fine clk \<Longrightarrow>
    (if C_exit \<in> set cs then \<exists>st'. run_commands env clk en ok cs st = Some (Returned st')
     else run_commands env clk en ok cs st = None)"
proof (induction cs arbitrary: st)
  case (Cons c cs)
  show ?case
  proof (cases "c = C_exit")
    case True
    obtain s' rs where "Server_Close en ok (srv st) = Some (s', rs)" by (rule serving_Close [OF Cons.prems(1)])
    then show ?thesis by (simp add: True do_exit_def)
  next
    case False
    obtain st1 where "exec_command env clk en ok c (next_round st) = Continue st1" "serving ok (srv st1)"
      by (rule serving_command [OF Cons.prems False])
    then show ?thesis using Cons.IH [of st1] Cons.prems(2) False by auto
  qed
qed simp



text \<open>
  Without etcd the console starts all the same, and the first get, set or delete is a panic:
  \<open>NewClientPicker\<close> returns no picker, \<open>main\<close> logs the error and carries on with nil, and \<open>Start\<close> returns an
  error that \<open>main\<close> ignores.
\<close>
lemma console_without_etcd_panics:
  fixes env :: "('w, 'c) env"
  assumes "commands rest = c # cs" "c \<in> {C_get k, C_set k v, C_delete k}"
  shows "\<exists>st. main_start False renv listen_ok port rest w = Returned st \<and>
    main_loop env clk en ok st = Some Panicked"
proof -
  obtain st :: "('w, 'c) console" where st: "main_start False renv listen_ok port rest w = Returned st"
    "stdin st = rest" "clientPicker (srv st) = None"
    by (simp add: main_start_def NewClientPicker_def Start_def RegisterPeersToServer_def
        RegisterGroupToServer_def Let_def)
  have "pick k (srv st) = None" for k using st(3) by (simp add: pick_def)
  then have "exec_command env clk en ok c (next_round (no_input st)) = Panic"
    using assms(2)
    by (auto simp: with_server_def GetFromCacheAndRedis_def SetToCacheAndRedis_def DeleteCacheAndRedis_def
        Server_Get_store Server_Set_store Server_Delete_store case_prod_beta)
  then have "map_option hide_input (main_loop env clk en ok st) = Some Panicked"
    using assms(1) by (simp add: main_loop_commands st(2))
  then have "main_loop env clk en ok st = Some Panicked"
    by (auto split: outcome.splits) (metis hide_input.simps(1) outcome.distinct(1) outcome.exhaust)
  then show ?thesis using st(1) by blast
qed

lemma console_without_etcd_panics_witness:
  "\<exists>st. main_start False small_env True ''8001'' ''get\<newline>k\<newline>exit'' Map.empty = Returned st \<and>
     main_loop map_env (\<lambda>_. (1, 1, 1)) False True st = Some Panicked"
proof -
  have "commands ''get\<newline>k\<newline>exit'' = C_get ''k'' # [C_exit]" by code_simp
  from console_without_etcd_panics [OF this, of "''k''" "[]"] show ?thesis by simp
qed

end
