(* ===== verification/Cluster.thy ===== *)
theory Cluster
  imports Cache_Server_Correct
begin

text \<open>
  Several nodes. A node that does not own a key forwards the request to the owner, where the same
  handler of \<open>server.go\<close> runs; clients are known by the address they were dialled with, and all nodes
  share one redis. A cluster is the state of redis and the nodes that run.

  gRPC is a parameter. \<open>wire net k v\<close> says that it carries a message with the key \<open>k\<close> and the value \<open>v\<close>: the
  key is a proto3 string, so it must be UTF-8, and the size of messages is limited. A request that is not
  carried is an error and does not reach the other node; an answer that is not carried (it has no key) is an
  error for the caller, after the other node has done its work. A call that is carried reaches a node
  through \<open>at_node\<close>: a node that does not run answers an error, and a handler that panics ends its
  process (its state is lost).

  Calls have no deadline in the code (\<open>context.Background\<close>), and a handler may call a node whose handler
  calls the next one. \<open>cluster_env base net clk d\<close> is the environment of a handler that unfolds \<open>d\<close> further
  calls as handlers of the nodes that are called; what a call after these does and answers is the parameter
  \<open>beyond net\<close>, of which nothing is assumed anywhere. Requests are handled one after the other; when calls
  come back to a node that is waiting for one, the state of that node afterwards is the one of the waiting
  handler, so for such calls only redis and the answers are spoken of.
\<close>

subsection \<open>Calls between nodes\<close>

type_synonym 'r cluster = "'r \<times> (string \<rightharpoonup> string server)"

definition on_redis :: "('r \<Rightarrow> 'r \<times> 'a) \<Rightarrow> 'r cluster \<Rightarrow> 'r cluster \<times> 'a" where
  "on_redis f c = (let (r, x) = f (fst c) in ((r, snd c), x))"

definition at_node ::
  "(string server \<Rightarrow> 'r cluster \<Rightarrow> (string server \<times> 'r cluster \<times> 'a option) option) \<Rightarrow> string \<Rightarrow>
     'r cluster \<Rightarrow> 'r cluster \<times> 'a option"
where
  "at_node h a c =
     (case snd c a of
        None \<Rightarrow> (c, None)
      | Some s \<Rightarrow>
          (case h s c of
             None \<Rightarrow> ((fst c, (snd c)(a := None)), None)
           | Some (s, c, resp) \<Rightarrow> ((fst c, (snd c)(a \<mapsto> s)), resp)))"

record 'r net =
  wire :: "string \<Rightarrow> string \<Rightarrow> bool"
  beyond :: "('r cluster, string) env"

definition reply :: "'r net \<Rightarrow> 'r cluster \<times> string option \<Rightarrow> 'r cluster \<times> string option" where
  "reply net cr = (let (c, r) = cr in (c, case r of Some x \<Rightarrow> if wire net [] x then Some x else None | None \<Rightarrow> None))"

fun cluster_env :: "('r, string) env \<Rightarrow> 'r net \<Rightarrow> int \<times> int \<times> int \<Rightarrow> nat \<Rightarrow> ('r cluster, string) env" where
  "cluster_env base net clk 0 =
     (beyond net)\<lparr>redis_Get := \<lambda>k. on_redis (redis_Get base k), redis_Set := \<lambda>k v. on_redis (redis_Set base k v),
        redis_Delete := \<lambda>k. on_redis (redis_Delete base k)\<rparr>"
| "cluster_env base net clk (Suc d) =
     (let env = cluster_env base net clk d
      in env\<lparr>peer_Get := \<lambda>a k c. if wire net k [] then reply net (at_node (Server_Get env k clk) a c) else (c, None),
             peer_Set := \<lambda>a k v c. if wire net k v then reply net (at_node (Server_Set env k v) a c) else (c, None),
             peer_Delete := \<lambda>a k c. if wire net k [] then at_node (Server_Delete env k) a c else (c, None)\<rparr>)"

text \<open>A request of a client has reached the node at \<open>a\<close>.\<close>

fun submit :: "('r, string) env \<Rightarrow> 'r net \<Rightarrow> nat \<Rightarrow> string \<times> request \<Rightarrow> 'r cluster \<Rightarrow> 'r cluster \<times> response" where
  "submit base net d (a, Req_Get k clk) c =
     (let (c, r) = at_node (Server_Get (cluster_env base net clk d) k clk) a c in (c, Resp_Get r))"
| "submit base net d (a, Req_Set k v) c =
     (let (c, r) = at_node (Server_Set (cluster_env base net (0, 0, 0) d) k v) a c in (c, Resp_Set r))"
| "submit base net d (a, Req_Delete k) c =
     (let (c, r) = at_node (Server_Delete (cluster_env base net (0, 0, 0) d) k) a c in (c, Resp_Delete r))"

lemma reply_fst [simp]: "fst (reply net cr) = fst cr"
  by (simp add: reply_def case_prod_beta Let_def)

lemma reply_carried: "\<forall>x. r = Some x \<longrightarrow> wire net [] x \<Longrightarrow> reply net (c, r) = (c, r)"
  by (cases r) (simp_all add: reply_def)

lemma cluster_env_laws:
  "redis_laws base rmap \<Longrightarrow> redis_laws (cluster_env base net clk d) (\<lambda>c. rmap (fst c))"
  by (induction d) (simp_all add: redis_laws_def on_redis_def Let_def case_prod_beta)

lemma cluster_env_redis [simp]:
  "redis_Set (cluster_env base net clk d) k v c = on_redis (redis_Set base k v) c"
  "redis_Delete (cluster_env base net clk d) k c = on_redis (redis_Delete base k) c"
  by (induction d) (simp_all add: Let_def)

lemma cluster_env_0:
  "peer_Get (cluster_env base net clk 0) = peer_Get (beyond net)"
  "peer_Set (cluster_env base net clk 0) = peer_Set (beyond net)"
  "peer_Delete (cluster_env base net clk 0) = peer_Delete (beyond net)"
  by simp_all

lemma cluster_env_peer:
  "wire net k [] \<Longrightarrow> peer_Get (cluster_env base net clk (Suc d)) a k c =
     reply net (at_node (Server_Get (cluster_env base net clk d) k clk) a c)"
  "wire net k v \<Longrightarrow> peer_Set (cluster_env base net clk (Suc d)) a k v c =
     reply net (at_node (Server_Set (cluster_env base net clk d) k v) a c)"
  "wire net k [] \<Longrightarrow> peer_Delete (cluster_env base net clk (Suc d)) a k c =
     at_node (Server_Delete (cluster_env base net clk d) k) a c"
  by (simp_all add: Let_def)

subsection \<open>Nodes that agree on the routes\<close>

definition routes_as :: "(string \<Rightarrow> string) \<Rightarrow> string \<Rightarrow> string server \<Rightarrow> bool" where
  "routes_as R a s \<longleftrightarrow> (\<exists>p. clientPicker s = Some p \<and> pk_selfAddr p = a \<and>
     (\<forall>k. route (consHash p) k = R k \<and> (R k \<noteq> a \<longrightarrow> grpcCli p (R k) = Some (R k))))"

lemma routes_as_store [simp]: "routes_as R a (put_store st s) = routes_as R a s"
  by (simp add: routes_as_def)

lemma routes_as_owns: "routes_as R a s \<Longrightarrow> a \<noteq> [] \<Longrightarrow> owns {k. R k = a} s"
  by (auto simp: routes_as_def owns_def)

lemma pick_routes:
  assumes "routes_as R a s" "R k \<noteq> []"
  obtains s' where "pick k s = Some (s', R k, True, R k = a)" "routes_as R a s'" "store_of s' = store_of s"
    "R k \<noteq> a \<Longrightarrow> client_of s' (R k) = Some (R k)"
proof -
  obtain p where p: "clientPicker s = Some p" "pk_selfAddr p = a" "\<forall>k. route (consHash p) k = R k"
    "\<forall>k. R k \<noteq> a \<longrightarrow> grpcCli p (R k) = Some (R k)"
    using assms(1) by (auto simp: routes_as_def)
  let ?p = "p\<lparr>consHash := fst (Map_Get k (consHash p))\<rparr>"
  have pk: "PickPeer k p = (?p, R k, True, R k = a)"
    using p(2) p(3) [rule_format, of k] assms(2) by (simp add: PickPeer_def route_def case_prod_beta Let_def)
  have "routes_as R a (s\<lparr>clientPicker := Some ?p\<rparr>)"
    using p(2,3,4) route_same_ring [OF Map_Get_same [of "consHash p" k]] by (simp add: routes_as_def)
  then show thesis using that [of "s\<lparr>clientPicker := Some ?p\<rparr>"] p pk by (simp add: pick_def client_of_def)
qed

text \<open>What a handler leaves alone.\<close>

lemma get_fill_routes: "get_fill k v now s = Some s' \<Longrightarrow> routes_as R a s' = routes_as R a s"
  by (auto simp: get_fill_store bind_eq_Some_conv)

lemma Server_Get_local:
  assumes "routes_as R a s" "R k = a" "a \<noteq> []" "Server_Get env k clk s w = Some (s', w', r)"
  shows "routes_as R a s'"
proof -
  obtain now now' now'' where clk: "clk = (now, now', now'')" by (cases clk)
  have "R k \<noteq> []" using assms(2,3) by simp
  then obtain s1 where P: "pick k s = Some (s1, R k, True, R k = a)" "routes_as R a s1"
    using pick_routes [OF assms(1)] by metis
  show ?thesis using assms P(2)
    by (auto simp: Server_Get_store Let_def clk P(1) bind_eq_Some_conv get_fill_store split: if_splits option.splits prod.splits)
qed

lemma Server_Set_local:
  assumes "routes_as R a s" "R k = a" "a \<noteq> []" "Server_Set env k v s w = Some (s', w', r)"
  shows "routes_as R a s' \<and> w' = fst (redis_Set env k v w)"
proof -
  have "R k \<noteq> []" using assms(2,3) by simp
  then obtain s1 where P: "pick k s = Some (s1, R k, True, R k = a)" "routes_as R a s1"
    using pick_routes [OF assms(1)] by metis
  show ?thesis using assms P(2)
    by (auto simp: Server_Set_store Let_def P(1) bind_eq_Some_conv split: prod.splits)
qed

lemma Server_Delete_local:
  assumes "routes_as R a s" "R k = a" "a \<noteq> []" "Server_Delete env k s w = Some (s', w', r)"
  shows "routes_as R a s' \<and> w' = fst (redis_Delete env k w)"
proof -
  have "R k \<noteq> []" using assms(2,3) by simp
  then obtain s1 where P: "pick k s = Some (s1, R k, True, R k = a)" "routes_as R a s1"
    using pick_routes [OF assms(1)] by metis
  show ?thesis using assms P(2)
    by (auto simp: Server_Delete_store Let_def P(1) bind_eq_Some_conv split: prod.splits)
qed

text \<open>Forwarding a request.\<close>

lemma Server_forward:
  assumes "routes_as R a s" "R k \<noteq> a" "R k \<noteq> []"
  obtains s' where "routes_as R a s'" "store_of s' = store_of s"
    "\<And>env clk w. Server_Get env k clk s w =
       (let (w, resp) = peer_Get env (R k) k w in Some (s', w, resp))"
    "\<And>env v w. Server_Set env k v s w = Some (s', fst (peer_Set env (R k) k v w), Some v)"
    "\<And>env w. Server_Delete env k s w = Some (s', fst (peer_Delete env (R k) k w), Some True)"
proof -
  obtain s' where P: "pick k s = Some (s', R k, True, R k = a)" "routes_as R a s'" "store_of s' = store_of s"
    "R k \<noteq> a \<Longrightarrow> client_of s' (R k) = Some (R k)"
    using pick_routes [OF assms(1,3)] by metis
  show thesis
    by (rule that [OF P(2,3)])
       (use P(1,4) assms(2,3) in \<open>simp_all add: Server_Get_store Server_Set_store Server_Delete_store case_prod_beta Let_def\<close>)
qed

subsection \<open>The invariant of a cluster\<close>

definition cluster_ok :: "(string \<Rightarrow> string) \<Rightarrow> (string \<rightharpoonup> string) \<Rightarrow> (string \<rightharpoonup> string server) \<Rightarrow> bool" where
  "cluster_ok R m ns \<longleftrightarrow> (\<forall>k. R k \<noteq> [] \<and> R k \<in> dom ns) \<and>
     (\<forall>a s. ns a = Some s \<longrightarrow> a \<noteq> [] \<and> routes_as R a s \<and> coherent_on {k. R k = a} m s)"

lemma cluster_okD:
  assumes "cluster_ok R m ns"
  shows "R k \<noteq> []" "R k \<in> dom ns" "ns a = Some s \<Longrightarrow> a \<noteq> []" "ns a = Some s \<Longrightarrow> routes_as R a s"
    "ns a = Some s \<Longrightarrow> coherent_on {k. R k = a} m s"
  using assms by (auto simp: cluster_ok_def)

text \<open>A change of the node that owns a key, and of what redis holds for that key.\<close>

lemma cluster_ok_owner:
  assumes "cluster_ok R m ns" "ns (R k) = Some s" "routes_as R (R k) s'" "coherent_on {k'. R k' = R k} m' s'"
    and "\<forall>k'. k' \<noteq> k \<longrightarrow> m' k' = m k'"
  shows "cluster_ok R m' (ns(R k \<mapsto> s'))"
proof -
  have "coherent_on {k'. R k' = a} m' t" if t: "ns a = Some t" "a \<noteq> R k" for a t
  proof -
    have "k' \<noteq> k" if "R k' = a" for k' using that t(2) by auto
    then show ?thesis using cluster_okD(5) [OF assms(1) t(1)] assms(5) by (simp add: coherent_on_def)
  qed
  then show ?thesis using assms cluster_okD [OF assms(1)] by (auto simp: cluster_ok_def)
qed

text \<open>A change of a node that leaves its cache alone.\<close>

lemma cluster_ok_same_cache:
  assumes "cluster_ok R m ns" "ns a = Some s" "routes_as R a s'" "store_of s' = store_of s"
  shows "cluster_ok R m (ns(a \<mapsto> s'))"
proof -
  note D = cluster_okD [OF assms(1)]
  have "coherent_on {k. R k = a} m s'"
    using D(5) [OF assms(2)] routes_as_owns [OF assms(3) D(3) [OF assms(2)]] assms(4)
    by (simp add: coherent_on_def cached_def)
  then show ?thesis using assms(3) D assms(2) by (auto simp: cluster_ok_def)
qed

subsection \<open>A call at the owner of the key\<close>

text \<open>\<open>moved R b m' c c'\<close>: the cluster is in order with redis holding \<open>m'\<close>, and only the node \<open>b\<close> has changed.\<close>

definition moved ::
  "(string \<Rightarrow> string) \<Rightarrow> ('r \<Rightarrow> string \<rightharpoonup> string) \<Rightarrow> string \<Rightarrow> (string \<rightharpoonup> string) \<Rightarrow> 'r cluster \<Rightarrow> 'r cluster \<Rightarrow> bool"
where
  "moved R rmap b m' c c' \<longleftrightarrow> cluster_ok R m' (snd c') \<and> rmap (fst c') = m' \<and> dom (snd c') = dom (snd c) \<and>
     (\<forall>a. a \<noteq> b \<longrightarrow> snd c' a = snd c a)"

lemma movedI:
  assumes "cluster_ok R (rmap (fst c)) (snd c)" "snd c (R k) = Some s" "routes_as R (R k) s'"
    "coherent_on {k'. R k' = R k} m' s'" "rmap r' = m'" "\<forall>k'. k' \<noteq> k \<longrightarrow> m' k' = rmap (fst c) k'"
  shows "moved R rmap (R k) m' c (r', (snd c)(R k \<mapsto> s'))"
  using cluster_ok_owner [OF assms(1-4,6)] assms(2,5) by (auto simp: moved_def)

lemma owner_Get:
  assumes "redis_laws base rmap" "cluster_ok R (rmap (fst c)) (snd c)" "long_lived (snd (snd clk))"
  obtains c' where "at_node (Server_Get (cluster_env base net clk d) k clk) (R k) c = (c', rmap (fst c) k)"
    "moved R rmap (R k) (rmap (fst c)) c c'"
proof -
  obtain s where s: "snd c (R k) = Some s" using cluster_okD(2) [OF assms(2)] by blast
  note D = cluster_okD(3-5) [OF assms(2) s]
  have K: "k \<in> {k'. R k' = R k}" by simp
  obtain n n' n'' where clk: "clk = (n, n', n'')" by (cases clk)
  have l: "long_lived n''" using assms(3) by (simp add: clk)
  obtain s' where S: "Server_Get (cluster_env base net clk d) k (n, n', n'') s c = Some (s', c, rmap (fst c) k)"
    "coherent_on {k'. R k' = R k} (rmap (fst c)) s'"
    by (rule Server_Get_coherent [OF cluster_env_laws [OF assms(1)] D(3) K l])
  have "routes_as R (R k) s'" by (rule Server_Get_local [OF D(2) refl D(1) S(1)])
  then have "moved R rmap (R k) (rmap (fst c)) c (fst c, (snd c)(R k \<mapsto> s'))"
    by (rule movedI [where R = R and rmap = rmap and k = k, OF assms(2) s _ S(2)]) simp_all
  then show thesis using that S(1) s by (simp add: at_node_def clk)
qed

lemma owner_Set:
  assumes "redis_laws base rmap" "cluster_ok R (rmap (fst c)) (snd c)"
  obtains c' where "at_node (Server_Set (cluster_env base net clk d) k v) (R k) c = (c', Some v)"
    "moved R rmap (R k) ((rmap (fst c))(k \<mapsto> v)) c c'"
proof -
  obtain s where s: "snd c (R k) = Some s" using cluster_okD(2) [OF assms(2)] by blast
  note D = cluster_okD(3-5) [OF assms(2) s]
  have K: "k \<in> {k'. R k' = R k}" by simp
  obtain s' c1 where S: "Server_Set (cluster_env base net clk d) k v s c = Some (s', c1, Some v)"
    "coherent_on {k'. R k' = R k} (rmap (fst c1)) s'" "rmap (fst c1) = (rmap (fst c))(k \<mapsto> v)" "cached s' k = None"
    by (rule Server_Set_coherent [OF cluster_env_laws [OF assms(1)] D(3) K])
  note L = Server_Set_local [OF D(2) refl D(1) S(1)]
  then have ns: "snd c1 = snd c" by (simp add: on_redis_def case_prod_beta)
  have "moved R rmap (R k) ((rmap (fst c))(k \<mapsto> v)) c (fst c1, (snd c)(R k \<mapsto> s'))"
    by (rule movedI [where R = R and rmap = rmap and k = k, OF assms(2) s conjunct1 [OF L]]) (use S in simp_all)
  then show thesis using that S(1) s ns by (simp add: at_node_def)
qed

lemma owner_Delete:
  assumes "redis_laws base rmap" "cluster_ok R (rmap (fst c)) (snd c)"
  obtains c' where "at_node (Server_Delete (cluster_env base net clk d) k) (R k) c = (c', Some True)"
    "moved R rmap (R k) ((rmap (fst c))(k := None)) c c'"
proof -
  obtain s where s: "snd c (R k) = Some s" using cluster_okD(2) [OF assms(2)] by blast
  note D = cluster_okD(3-5) [OF assms(2) s]
  have K: "k \<in> {k'. R k' = R k}" by simp
  obtain s' c1 where S: "Server_Delete (cluster_env base net clk d) k s c = Some (s', c1, Some True)"
    "coherent_on {k'. R k' = R k} (rmap (fst c1)) s'" "rmap (fst c1) = (rmap (fst c))(k := None)"
    by (rule Server_Delete_coherent [OF cluster_env_laws [OF assms(1)] D(3) K])
  note L = Server_Delete_local [OF D(2) refl D(1) S(1)]
  then have ns: "snd c1 = snd c" by (simp add: on_redis_def case_prod_beta)
  have "moved R rmap (R k) ((rmap (fst c))(k := None)) c (fst c1, (snd c)(R k \<mapsto> s'))"
    by (rule movedI [where R = R and rmap = rmap and k = k, OF assms(2) s conjunct1 [OF L]]) (use S in simp_all)
  then show thesis using that S(1) s ns by (simp add: at_node_def)
qed

subsection \<open>A call at any node\<close>

text \<open>The node forwards; its own change does not touch its cache.\<close>

lemma moved_forward:
  assumes "moved R rmap b m' c c'" "snd c a = Some s" "a \<noteq> b" "routes_as R a s'" "store_of s' = store_of s"
  shows "cluster_ok R m' ((snd c')(a \<mapsto> s')) \<and> rmap (fst c') = m' \<and> dom ((snd c')(a \<mapsto> s')) = dom (snd c)"
  using assms cluster_ok_same_cache [of R m' "snd c'" a s s'] by (auto simp: moved_def)

fun req_key :: "request \<Rightarrow> string" where
  "req_key (Req_Get k clk) = k"
| "req_key (Req_Set k v) = k"
| "req_key (Req_Delete k) = k"

fun req_effect :: "request \<Rightarrow> (string \<rightharpoonup> string) \<Rightarrow> (string \<rightharpoonup> string)" where
  "req_effect (Req_Get k clk) m = m"
| "req_effect (Req_Set k v) m = m(k \<mapsto> v)"
| "req_effect (Req_Delete k) m = m(k := None)"

fun req_answer :: "request \<Rightarrow> (string \<rightharpoonup> string) \<Rightarrow> response" where
  "req_answer (Req_Get k clk) m = Resp_Get (m k)"
| "req_answer (Req_Set k v) m = Resp_Set (Some v)"
| "req_answer (Req_Delete k) m = Resp_Delete (Some True)"

fun clock_ok :: "request \<Rightarrow> bool" where
  "clock_ok (Req_Get k clk) = long_lived (snd (snd clk))"
| "clock_ok req = True"

lemma answers_Cons: "answers m (q # qs) = req_answer q m # answers (req_effect q m) qs"
  by (cases q) simp_all

lemma at_node_some:
  "snd c a = Some s \<Longrightarrow> h s c = Some (s', c', r) \<Longrightarrow> at_node h a c = ((fst c', (snd c')(a \<mapsto> s')), r)"
  by (simp add: at_node_def)

text \<open>The messages of a request that gRPC has to carry, whichever node it is sent to; \<open>values_fit\<close>: it can carry
  every answer, with what redis holds.\<close>

fun carried :: "'r net \<Rightarrow> request \<Rightarrow> bool" where
  "carried net (Req_Get k clk) = wire net k []"
| "carried net (Req_Set k v) = (wire net k v \<and> wire net [] v)"
| "carried net (Req_Delete k) = wire net k []"

definition values_fit :: "'r net \<Rightarrow> (string \<rightharpoonup> string) \<Rightarrow> bool" where
  "values_fit net m \<longleftrightarrow> (\<forall>k x. m k = Some x \<longrightarrow> wire net [] x)"

lemma values_fit_effect: "values_fit net m \<Longrightarrow> carried net q \<Longrightarrow> values_fit net (req_effect q m)"
  by (cases q) (auto simp: values_fit_def)

text \<open>The law of one request, at the owner and at any other node.\<close>

definition served :: "(string \<Rightarrow> string) \<Rightarrow> ('r \<Rightarrow> string \<rightharpoonup> string) \<Rightarrow> request \<Rightarrow> 'r cluster \<Rightarrow> 'r cluster \<times> response \<Rightarrow> bool" where
  "served R rmap q c cr \<longleftrightarrow> cluster_ok R (rmap (fst (fst cr))) (snd (fst cr)) \<and>
     rmap (fst (fst cr)) = req_effect q (rmap (fst c)) \<and> snd cr = req_answer q (rmap (fst c)) \<and>
     dom (snd (fst cr)) = dom (snd c)"

lemma submit_owner:
  assumes laws: "redis_laws base rmap" and ok: "cluster_ok R (rmap (fst c)) (snd c)" and q: "clock_ok q"
  shows "served R rmap q c (submit base net d (R (req_key q), q) c)"
proof (cases q)
  case (Req_Get k clk)
  then have "long_lived (snd (snd clk))" using q by simp
  then obtain c1 where "at_node (Server_Get (cluster_env base net clk d) k clk) (R k) c = (c1, rmap (fst c) k)"
    "moved R rmap (R k) (rmap (fst c)) c c1"
    by (rule owner_Get [OF laws ok])
  then show ?thesis by (simp add: Req_Get served_def moved_def)
next
  case (Req_Set k v)
  obtain c1 where "at_node (Server_Set (cluster_env base net (0, 0, 0) d) k v) (R k) c = (c1, Some v)"
    "moved R rmap (R k) ((rmap (fst c))(k \<mapsto> v)) c c1"
    by (rule owner_Set [OF laws ok])
  then show ?thesis by (simp add: Req_Set served_def moved_def del: fun_upd_apply)
next
  case (Req_Delete k)
  obtain c1 where "at_node (Server_Delete (cluster_env base net (0, 0, 0) d) k) (R k) c = (c1, Some True)"
    "moved R rmap (R k) ((rmap (fst c))(k := None)) c c1"
    by (rule owner_Delete [OF laws ok])
  then show ?thesis by (simp add: Req_Delete served_def moved_def del: fun_upd_apply)
qed

lemma submit_forward:
  fixes c :: "'r cluster"
  assumes laws: "redis_laws base rmap" and ok: "cluster_ok R (rmap (fst c)) (snd c)" and q: "clock_ok q"
    and net: "carried net q" "values_fit net (rmap (fst c))"
    and s: "snd c a = Some s" and other: "R (req_key q) \<noteq> a"
  shows "served R rmap q c (submit base net (Suc d) (a, q) c)"
proof -
  define k where "k = req_key q"
  note D = cluster_okD(3,4) [OF ok s] and ne = cluster_okD(1) [OF ok, of k]
  have oth: "R k \<noteq> a" using other by (simp add: k_def)
  obtain s' where F: "routes_as R a s'" "store_of s' = store_of s"
    "\<And>(env :: ('r cluster, string) env) clk w. Server_Get env k clk s w = (let (w, resp) = peer_Get env (R k) k w in Some (s', w, resp))"
    "\<And>(env :: ('r cluster, string) env) v w. Server_Set env k v s w = Some (s', fst (peer_Set env (R k) k v w), Some v)"
    "\<And>(env :: ('r cluster, string) env) w. Server_Delete env k s w = Some (s', fst (peer_Delete env (R k) k w), Some True)"
    by (rule Server_forward [OF D(2) oth ne]) (rule that)
  note fwd = moved_forward [OF _ s oth [symmetric] F(1,2)]
  show ?thesis
  proof (cases q)
    case (Req_Get k' clk)
    then have "long_lived (snd (snd clk))" using q by simp
    then obtain c1 where C: "at_node (Server_Get (cluster_env base net clk d) k clk) (R k) c = (c1, rmap (fst c) k)"
      "moved R rmap (R k) (rmap (fst c)) c c1"
      by (rule owner_Get [OF laws ok])
    have w: "wire net k []" using net(1) by (simp add: Req_Get k_def)
    have r: "reply net (c1, rmap (fst c) k) = (c1, rmap (fst c) k)"
      using net(2) by (intro reply_carried) (simp add: values_fit_def)
    have "at_node (Server_Get (cluster_env base net clk (Suc d)) k clk) a c = ((fst c1, (snd c1)(a \<mapsto> s')), rmap (fst c) k)"
      by (rule at_node_some [OF s]) (simp only: F(3) cluster_env_peer(1) [OF w] C(1) r Let_def case_prod_conv)
    then show ?thesis using fwd [OF C(2)] by (simp add: Req_Get served_def k_def del: fun_upd_apply cluster_env.simps dom_fun_upd)
  next
    case (Req_Set k' v)
    obtain c1 where C: "at_node (Server_Set (cluster_env base net (0, 0, 0) d) k v) (R k) c = (c1, Some v)"
      "moved R rmap (R k) ((rmap (fst c))(k \<mapsto> v)) c c1"
      by (rule owner_Set [OF laws ok])
    have w: "wire net k v" using net(1) by (simp add: Req_Set k_def)
    have "at_node (Server_Set (cluster_env base net (0, 0, 0) (Suc d)) k v) a c = ((fst c1, (snd c1)(a \<mapsto> s')), Some v)"
      by (rule at_node_some [OF s]) (simp only: F(4) cluster_env_peer(2) [OF w] C(1) reply_fst fst_conv)
    then show ?thesis using fwd [OF C(2)] by (simp add: Req_Set served_def k_def del: fun_upd_apply cluster_env.simps dom_fun_upd)
  next
    case (Req_Delete k')
    obtain c1 where C: "at_node (Server_Delete (cluster_env base net (0, 0, 0) d) k) (R k) c = (c1, Some True)"
      "moved R rmap (R k) ((rmap (fst c))(k := None)) c c1"
      by (rule owner_Delete [OF laws ok])
    have w: "wire net k []" using net(1) by (simp add: Req_Delete k_def)
    have "at_node (Server_Delete (cluster_env base net (0, 0, 0) (Suc d)) k) a c = ((fst c1, (snd c1)(a \<mapsto> s')), Some True)"
      by (rule at_node_some [OF s]) (simp only: F(5) cluster_env_peer(3) [OF w] C(1) fst_conv)
    then show ?thesis using fwd [OF C(2)] by (simp add: Req_Delete served_def k_def del: fun_upd_apply cluster_env.simps dom_fun_upd)
  qed
qed

lemma submit_served:
  assumes "redis_laws base rmap" "cluster_ok R (rmap (fst c)) (snd c)" "a \<in> dom (snd c)" "clock_ok q"
    and "carried net q" "values_fit net (rmap (fst c))"
  shows "served R rmap q c (submit base net (Suc d) (a, q) c)"
proof (cases "R (req_key q) = a")
  case True
  then show ?thesis using submit_owner [where d = "Suc d", OF assms(1,2,4)] by simp
next
  case False
  from assms(3) obtain s where "snd c a = Some s" by auto
  from submit_forward [OF assms(1,2,4-6) this False] show ?thesis .
qed

end
