(* ===== verification/Con_Hash_Converge.thy ===== *)
theory Con_Hash_Converge
  imports Con_Hash_Properties
begin

text \<open>
  Why the nodes of a cluster agree: as long as nothing is rebalanced and no virtual nodes collide, the
  ring is a function of the configuration and of the set of registered nodes. The order in which a
  node has heard of joining and departing nodes, and what it has served meanwhile, do not matter.
\<close>

subsection \<open>Rings that are determined by their members\<close>

definition node_points :: "config \<Rightarrow> string \<Rightarrow> int set" where
  "node_points cfg a = set (vhashes cfg a (DefaultReplicas cfg))"

definition collision_free :: "config \<Rightarrow> string set \<Rightarrow> bool" where
  "collision_free cfg A \<longleftrightarrow> (\<forall>a\<in>A. \<forall>b\<in>A. a \<noteq> b \<longrightarrow> node_points cfg a \<inter> node_points cfg b = {})"

definition default_ring :: "config \<Rightarrow> string set \<Rightarrow> con_hash \<Rightarrow> bool" where
  "default_ring cfg A m \<longleftrightarrow> ring_exact m \<and> config m = cfg \<and>
     nodeReplicas m = (\<lambda>a. if a \<in> A then Some (DefaultReplicas cfg) else None)"

lemma default_ringD:
  assumes "default_ring cfg A m"
  shows "ring_exact m" "ring_inv m" "config m = cfg" "members m = A"
    "a \<in> A \<Longrightarrow> node_hashes m a = vhashes cfg a (DefaultReplicas cfg)"
    "set (keys m) = (\<Union>a\<in>A. node_points cfg a)"
proof -
  show ex: "ring_exact m" "config m = cfg" and mem: "members m = A"
    using assms by (auto simp: default_ring_def members_def dom_def)
  show inv: "ring_inv m" by (rule ring_exactD(1) [OF ex(1)])
  show h: "a \<in> A \<Longrightarrow> node_hashes m a = vhashes cfg a (DefaultReplicas cfg)" for a
    using assms by (simp add: default_ring_def node_hashes_def replicas_of_def)
  show "set (keys m) = (\<Union>a\<in>A. node_points cfg a)" using set_keys [OF inv] by (simp add: mem h node_points_def)
qed

lemma default_ring_add:
  assumes "default_ring cfg A m" "collision_free cfg (insert a A)"
  shows "default_ring cfg (insert a A) (Map_Add a m)"
proof (cases "a \<in> A")
  case True
  then show ?thesis using assms(1) default_ringD(4) [OF assms(1)] by (simp add: Map_Add_cases insert_absorb)
next
  case False
  note D = default_ringD [OF assms(1)]
  have "node_points cfg a \<inter> set (keys m) = {}"
    using assms(2) False unfolding D(6) collision_free_def by fastforce
  then have "ring_exact (addNode a (DefaultReplicas cfg) m)"
    using ring_exact_add [OF D(1)] False D(3,4) by (simp add: node_points_def)
  then show ?thesis using assms(1) False D(3,4) by (auto simp: default_ring_def Map_Add_cases fun_eq_iff)
qed

lemma default_ring_remove:
  assumes "default_ring cfg A m"
  shows "default_ring cfg (A - {a}) (Map_Remove a m)"
proof -
  note D = default_ringD [OF assms]
  note R = removeNoLock_simps [OF ring_invD(1) [OF D(2)], of a]
  show ?thesis using assms ring_exact_remove [OF D(1), of a] D(4)
    by (auto simp: default_ring_def Map_Remove_cases R fun_eq_iff)
qed

lemma default_ring_same:
  assumes "default_ring cfg A m" "same_ring m m'"
  shows "default_ring cfg A m'"
  using assms same_ring_inv [OF assms(2)] same_ring_fields [OF assms(2)]
  by (simp add: default_ring_def ring_exact_def)

lemma default_ring_new: "default_ring cfg {} (NewConsistentHash self [\<lambda>m. m\<lparr>config := cfg\<rparr>])"
  using new_sound [of self "[cfg]"]
  by (simp add: default_ring_def sound_def ring_exact_def NewConsistentHash_def members_def fun_eq_iff)

text \<open>The members determine the routes.\<close>

lemma default_ring_routes:
  assumes "default_ring cfg A m" "default_ring cfg A m'"
  shows "route m k = route m' k"
proof -
  note D = default_ringD [OF assms(1)] and D' = default_ringD [OF assms(2)]
  have "hashMap m = hashMap m'"
  proof
    fix h
    have "hashMap x h = Some a \<longleftrightarrow> a \<in> A \<and> h \<in> node_points cfg a" if x: "default_ring cfg A x" for x a
    proof
      assume "hashMap x h = Some a"
      from ring_invD(4) [OF default_ringD(2) [OF x] this] show "a \<in> A \<and> h \<in> node_points cfg a"
        using default_ringD(4) [OF x] default_ringD(5) [OF x, of a] by (auto simp: node_points_def)
    next
      assume "a \<in> A \<and> h \<in> node_points cfg a"
      then show "hashMap x h = Some a"
        using ring_exactD(2) [OF default_ringD(1) [OF x], of a h] default_ringD(4) [OF x] default_ringD(5) [OF x, of a]
        by (auto simp: node_points_def)
    qed
    then show "hashMap m h = hashMap m' h" using assms by (metis not_Some_eq)
  qed
  then show ?thesis
    using route_cong [OF ring_invD(1) [OF D'(2)] ring_invD(1) [OF D(2)]] D(3,6) D'(3,6) by simp
qed

subsection \<open>Executions without a rebalance\<close>

fun calm :: "string set \<Rightarrow> ring_op \<Rightarrow> bool" where
  "calm A (Ring_Add a) = (a \<in> A)"
| "calm A (Ring_Rebalance visits) = False"
| "calm A (Ring_Resize a seen avg val) = False"
| "calm A (Ring_Install ks hm) = False"
| "calm A op = True"

lemma calm_step:
  assumes "default_ring cfg B m" "B \<subseteq> A" "collision_free cfg A" "calm A x" "ring_step m x = Some m'"
  shows "\<exists>B'. B' \<subseteq> A \<and> default_ring cfg B' m'"
proof -
  have same: "same_ring m m' \<Longrightarrow> ?thesis" using default_ring_same [OF assms(1)] assms(2) by blast
  show ?thesis
  proof (cases x)
    case (Ring_Add a)
    then have "insert a B \<subseteq> A" using assms(2,4) by simp
    moreover from this have "collision_free cfg (insert a B)" using assms(3) by (auto simp: collision_free_def)
    ultimately show ?thesis using default_ring_add [OF assms(1), of a] assms(5) Ring_Add
      by (intro exI [of _ "insert a B"]) simp
  next
    case (Ring_Remove a)
    then show ?thesis using default_ring_remove [OF assms(1), of a] assms(2,5)
      by (intro exI [of _ "B - {a}"]) auto
  next
    case (Ring_Get k)
    then show ?thesis using assms(5) Map_Get_same [of m k] by (intro same) simp
  next
    case Ring_Report
    then show ?thesis using assms(5) by (intro same) (auto simp: report_tick_def same_ring_def)
  next
    case (Ring_Fetch resp)
    then show ?thesis using assms(5) fetch_same [of m resp] by (intro same) simp
  next
    case (Ring_Watch resps)
    then show ?thesis using assms(5) watch_same [of m resps] by (intro same) simp
  qed (use assms(4) in simp_all)
qed

lemma calm_run:
  assumes "collision_free cfg A"
  shows "default_ring cfg B m \<Longrightarrow> B \<subseteq> A \<Longrightarrow> \<forall>x\<in>set xs. calm A x \<Longrightarrow> ring_run m xs = Some m' \<Longrightarrow>
    \<exists>B'. default_ring cfg B' m'"
proof (induction xs arbitrary: B m)
  case (Cons x xs)
  obtain m1 where S: "ring_step m x = Some m1" "ring_run m1 xs = Some m'"
    using Cons.prems(4) by (auto split: option.splits)
  obtain B1 where "B1 \<subseteq> A" "default_ring cfg B1 m1"
    using calm_step [OF Cons.prems(1,2) assms _ S(1)] Cons.prems(3) by auto
  then show ?case using Cons.IH [of B1 m1] Cons.prems(3) S(2) by simp
qed auto

text \<open>
  C11. Nodes converge: two nodes with the same configuration start with empty rings and hear of joining
  and departing nodes in any orders, with requests, load reports and fetched counts in between, but no
  rebalance. If no virtual nodes of the addresses that ever join collide and the two have the same
  members in the end, they route every key alike.
\<close>
theorem same_members_same_routes:
  assumes "collision_free cfg A"
    and "ring_run (NewConsistentHash self [\<lambda>m. m\<lparr>config := cfg\<rparr>]) xs = Some m" "\<forall>x\<in>set xs. calm A x"
    and "ring_run (NewConsistentHash self' [\<lambda>m. m\<lparr>config := cfg\<rparr>]) ys = Some m'" "\<forall>y\<in>set ys. calm A y"
    and "members m = members m'"
  shows "snd (Map_Get k m) = snd (Map_Get k m')"
proof -
  obtain B where B: "default_ring cfg B m" using calm_run [OF assms(1) default_ring_new _ assms(3,2)] by auto
  obtain B' where B': "default_ring cfg B' m'" using calm_run [OF assms(1) default_ring_new _ assms(5,4)] by auto
  have "B = B'" using default_ringD(4) [OF B] default_ringD(4) [OF B'] assms(6) by simp
  then show ?thesis using default_ring_routes [OF B] B' by (simp add: route_def)
qed

lemma small_nodes_collision_free: "collision_free small_config {''a'', ''b'', ''c''}"
proof -
  have "node_points small_config ''a'' \<inter> node_points small_config ''b'' = {}"
    "node_points small_config ''a'' \<inter> node_points small_config ''c'' = {}"
    "node_points small_config ''b'' \<inter> node_points small_config ''c'' = {}" by code_simp+
  then show ?thesis by (auto simp: collision_free_def Int_commute)
qed

theorem same_members_same_routes_witness:
  "\<exists>m m'. ring_run (NewConsistentHash ''a'' [\<lambda>m. m\<lparr>config := small_config\<rparr>])
       [Ring_Add ''a'', Ring_Get ''k'', Ring_Add ''b''] = Some m \<and>
     ring_run (NewConsistentHash ''b'' [\<lambda>m. m\<lparr>config := small_config\<rparr>])
       [Ring_Add ''c'', Ring_Add ''b'', Ring_Add ''a'', Ring_Remove ''c''] = Some m' \<and>
     snd (Map_Get ''k'' m) = snd (Map_Get ''k'' m')"
proof -
  define n where "n = (\<lambda>self. NewConsistentHash self [\<lambda>m. m\<lparr>config := small_config\<rparr>])"
  let ?xs = "[Ring_Add ''a'', Ring_Get ''k'', Ring_Add ''b'']"
  let ?ys = "[Ring_Add ''c'', Ring_Add ''b'', Ring_Add ''a'', Ring_Remove ''c'']"
  have inv: "ring_inv (n self)" "members (n self) = {}" for self
    using new_sound [of self "[small_config]"]
    by (simp_all add: n_def sound_def NewConsistentHash_def members_def)
  have add: "members (Map_Add a m) = insert a (members m)" for a m
    by (simp add: Map_Add_cases insert_absorb)
  obtain m where m: "ring_run (n ''a'') ?xs = Some m" "members m = {''a'', ''b''}"
    using same_ring_fields(1) [OF Map_Get_same [of "Map_Add ''a'' (n ''a'')" "''k''"]] by (auto simp: add inv)
  have "ring_inv (Map_Add ''a'' (Map_Add ''b'' (Map_Add ''c'' (n ''b''))))"
    using ring.joins [OF inv(1) [of "''b''"], of "[''c'', ''b'', ''a'']"] by simp
  from ring.remove_law [OF this, of "''c''"]
  obtain m' where m': "ring_run (n ''b'') ?ys = Some m'" "members m' = {''a'', ''b''}" by (auto simp: add inv)
  have "snd (Map_Get ''k'' m) = snd (Map_Get ''k'' m')"
    by (rule same_members_same_routes [OF small_nodes_collision_free m(1) [unfolded n_def] _ m'(1) [unfolded n_def]])
      (simp_all add: m(2) m'(2))
  then show ?thesis using m(1) m'(1) unfolding n_def by blast
qed

end
