(* ===== verification/Cluster_Properties.thy ===== *)
theory Cluster_Properties
  imports Cluster Con_Hash_Converge Registry_Properties Go_Utf8
begin

text \<open>
  What a cluster promises its clients: the locale \<open>kv_service\<close>, a service that answers requests as a
  map does, interpreted on the cluster; a cluster whose nodes have discovered each other is such a
  service from its start. The last part is what goes wrong when nodes disagree.
\<close>

subsection \<open>The contract of a key-value service\<close>

fun exec_all :: "('q \<Rightarrow> 's \<Rightarrow> 's \<times> response) \<Rightarrow> 'q list \<Rightarrow> 's \<Rightarrow> 's \<times> response list" where
  "exec_all exec [] s = (s, [])"
| "exec_all exec (q # qs) s = (let (s, r) = exec q s; (s, rs) = exec_all exec qs s in (s, r # rs))"

locale kv_service =
  fixes inv :: "'s \<Rightarrow> bool"
    and view :: "'s \<Rightarrow> string \<rightharpoonup> string"
    and fine :: "'s \<Rightarrow> 'q \<Rightarrow> bool"
    and req :: "'q \<Rightarrow> request"
    and exec :: "'q \<Rightarrow> 's \<Rightarrow> 's \<times> response"
  assumes exec_inv: "inv s \<Longrightarrow> fine s q \<Longrightarrow> inv (fst (exec q s)) \<and> (\<forall>q'. fine (fst (exec q s)) q' = fine s q')"
    and exec_view: "inv s \<Longrightarrow> fine s q \<Longrightarrow> view (fst (exec q s)) = req_effect (req q) (view s)"
    and exec_answer: "inv s \<Longrightarrow> fine s q \<Longrightarrow> snd (exec q s) = req_answer (req q) (view s)"
begin

lemma transparent:
  "inv s \<Longrightarrow> \<forall>q\<in>set qs. fine s q \<Longrightarrow>
    snd (exec_all exec qs s) = answers (view s) (map req qs) \<and>
    view (fst (exec_all exec qs s)) = fold req_effect (map req qs) (view s) \<and> inv (fst (exec_all exec qs s))"
proof (induction qs arbitrary: s)
  case (Cons q qs)
  have q: "fine s q" using Cons.prems(2) by simp
  note L = exec_inv [OF Cons.prems(1) q] exec_view [OF Cons.prems(1) q] exec_answer [OF Cons.prems(1) q]
  have "snd (exec_all exec qs (fst (exec q s))) = answers (view (fst (exec q s))) (map req qs) \<and>
      view (fst (exec_all exec qs (fst (exec q s)))) = fold req_effect (map req qs) (view (fst (exec q s))) \<and>
      inv (fst (exec_all exec qs (fst (exec q s))))"
    using Cons.IH [of "fst (exec q s)"] L(1) Cons.prems(2) by simp
  then show ?case by (simp add: case_prod_beta answers_Cons L(2,3))
qed simp

end

definition cluster_inv ::
  "('r, string) env \<Rightarrow> 'r net \<Rightarrow> ('r \<Rightarrow> string \<rightharpoonup> string) \<Rightarrow> (string \<Rightarrow> string) \<Rightarrow> 'r cluster \<Rightarrow> bool"
where
  "cluster_inv base net rmap R c \<longleftrightarrow>
     redis_laws base rmap \<and> cluster_ok R (rmap (fst c)) (snd c) \<and> values_fit net (rmap (fst c))"

definition cluster_fine :: "'r net \<Rightarrow> 'r cluster \<Rightarrow> string \<times> request \<Rightarrow> bool" where
  "cluster_fine net c q \<longleftrightarrow> fst q \<in> dom (snd c) \<and> clock_ok (snd q) \<and> carried net (snd q)"

interpretation cluster: kv_service "cluster_inv base net rmap R" "\<lambda>c. rmap (fst c)" "cluster_fine net" snd
    "submit base net (Suc d)"
  for base net rmap R d
proof
  fix c :: "'a cluster" and q :: "string \<times> request"
  assume a: "cluster_inv base net rmap R c" "cluster_fine net c q"
  obtain n r where q: "q = (n, r)" by force
  have "served R rmap r c (submit base net (Suc d) (n, r) c)"
    using a submit_served [of base rmap R c n r net d] by (simp add: cluster_inv_def cluster_fine_def q)
  note S = this [unfolded served_def]
  have "values_fit net (rmap (fst (fst (submit base net (Suc d) q c))))"
    using S a values_fit_effect [of net "rmap (fst c)" r] by (simp add: cluster_inv_def cluster_fine_def q)
  then show "cluster_inv base net rmap R (fst (submit base net (Suc d) q c)) \<and>
      (\<forall>q'. cluster_fine net (fst (submit base net (Suc d) q c)) q' = cluster_fine net c q')"
    using S a(1) by (auto simp: cluster_inv_def cluster_fine_def q)
  show "rmap (fst (fst (submit base net (Suc d) q c))) = req_effect (snd q) (rmap (fst c))"
    using S by (simp add: q)
  show "snd (submit base net (Suc d) q c) = req_answer (snd q) (rmap (fst c))" using S by (simp add: q)
qed

subsection \<open>A cluster whose nodes have discovered each other\<close>

text \<open>A node: it is put together as \<open>main\<close> does, with the configuration \<open>cfg\<close>, hears of the others and joins
  its own ring. A client is the address that was dialled.\<close>

definition cluster_node :: "options \<Rightarrow> config \<Rightarrow> string \<Rightarrow> string list \<Rightarrow> string server" where
  "cluster_node opts cfg self others =
     (let p = \<lparr>pk_selfAddr = self, pk_svcName = ''cache'',
               consHash = NewConsistentHash self [\<lambda>m. m\<lparr>config := cfg\<rparr>], grpcCli = Map.empty\<rparr>;
          p = handleWatchEvents Some (map (\<lambda>a. EventPut (service_key ''cache'' a) a) others) p
      in join_ring (RegisterPeersToServer (Some p)
           (RegisterGroupToServer (NewGroup ''cache'' self opts LRU) (NewServer self ''cache''))))"

lemma discovered:
  assumes "default_ring cfg B (consHash p)" "collision_free cfg A" "B \<union> set as \<subseteq> A" "[] \<notin> A"
  shows "default_ring cfg (B \<union> (set as - {pk_selfAddr p}))
      (consHash (handleWatchEvents Some (map (\<lambda>a. EventPut (f a) a) as) p)) \<and>
    pk_selfAddr (handleWatchEvents Some (map (\<lambda>a. EventPut (f a) a) as) p) = pk_selfAddr p \<and>
    (\<forall>x. x \<in> set as - {pk_selfAddr p} \<or> grpcCli p x = Some x \<longrightarrow>
      grpcCli (handleWatchEvents Some (map (\<lambda>a. EventPut (f a) a) as) p) x = Some x)"
  using assms
proof (induction "as" arbitrary: B p)
  case (Cons a as)
  have ne: "a \<noteq> []" using Cons.prems(3,4) by auto
  show ?case
  proof (cases "a = pk_selfAddr p")
    case True
    then show ?thesis using Cons.IH [OF Cons.prems(1,2)] Cons.prems(3,4)
      by (simp add: handleWatchEvents_def handle_event_def)
  next
    case False
    let ?p = "p\<lparr>grpcCli := (grpcCli p)(a \<mapsto> a), consHash := Map_Add a (consHash p)\<rparr>"
    have "collision_free cfg (insert a B)" using Cons.prems(2,3) by (auto simp: collision_free_def)
    then have d: "default_ring cfg (insert a B) (consHash ?p)" using default_ring_add [OF Cons.prems(1)] by simp
    have "handleWatchEvents Some (map (\<lambda>a. EventPut (f a) a) (a # as)) p =
        handleWatchEvents Some (map (\<lambda>a. EventPut (f a) a) as) ?p"
      using False ne by (simp add: handleWatchEvents_def handle_event_def)
    moreover have "insert a B \<union> (set as - {pk_selfAddr p}) = B \<union> (set (a # as) - {pk_selfAddr p})"
      using False by auto
    moreover have "insert a B \<union> set as \<subseteq> A" using Cons.prems(3) by simp
    note IH = Cons.IH [OF d Cons.prems(2) this Cons.prems(4)]
    ultimately show ?thesis using IH by auto
  qed
qed (simp add: handleWatchEvents_def)

lemma node_starts:
  assumes "collision_free cfg A" "insert self (set others) = A" "[] \<notin> A"
  obtains p where "clientPicker (cluster_node opts cfg self others) = Some p" "pk_selfAddr p = self"
    "default_ring cfg A (consHash p)" "\<forall>x\<in>A. x \<noteq> self \<longrightarrow> grpcCli p x = Some x"
    "store_of (cluster_node opts cfg self others) = Some (newLRU2Cache opts)"
proof -
  define p0 :: "string picker" where "p0 = \<lparr>pk_selfAddr = self, pk_svcName = ''cache'',
    consHash = NewConsistentHash self [\<lambda>m. m\<lparr>config := cfg\<rparr>], grpcCli = Map.empty\<rparr>"
  define p1 where "p1 = handleWatchEvents Some (map (\<lambda>a. EventPut (service_key ''cache'' a) a) others) p0"
  have d0: "default_ring cfg {} (consHash p0)" using default_ring_new by (simp add: p0_def)
  have "{} \<union> set others \<subseteq> A" using assms(2) by auto
  from discovered [OF d0 assms(1) this assms(3), of "service_key ''cache''", folded p1_def]
  have d1: "default_ring cfg (set others - {self}) (consHash p1)" "pk_selfAddr p1 = self"
    "\<forall>x\<in>set others. x \<noteq> self \<longrightarrow> grpcCli p1 x = Some x"
    by (auto simp: p0_def)
  have A: "insert self (set others - {self}) = A" using assms(2) by auto
  have "default_ring cfg A (Map_Add self (consHash p1))" using default_ring_add [OF d1(1), of self] A assms(1) by simp
  moreover have "x \<in> set others" if "x \<in> A" "x \<noteq> self" for x using that assms(2) by auto
  moreover have "cluster_node opts cfg self others = join_ring (RegisterPeersToServer (Some p1)
      (RegisterGroupToServer (NewGroup ''cache'' self opts LRU) (NewServer self ''cache'')))"
    by (simp add: cluster_node_def p0_def p1_def)
  ultimately show thesis
    using that [of "p1\<lparr>consHash := Map_Add self (consHash p1)\<rparr>"] d1(2,3)
    by (simp add: join_ring_def RegisterPeersToServer_def RegisterGroupToServer_def NewServer_def NewGroup_def store_of_def NewStore_def)
qed

definition start_nodes :: "options \<Rightarrow> config \<Rightarrow> string set \<Rightarrow> (string \<Rightarrow> string list) \<Rightarrow> string \<rightharpoonup> string server" where
  "start_nodes opts cfg A others = (\<lambda>a. if a \<in> A then Some (cluster_node opts cfg a (others a)) else None)"

lemma cluster_starts:
  assumes "collision_free cfg A" "\<forall>a\<in>A. insert a (set (others a)) = A" "[] \<notin> A" "A \<noteq> {}"
    and "0 < DefaultReplicas cfg" "good_options opts"
  obtains R where "cluster_ok R m (start_nodes opts cfg A others)"
proof -
  obtain a0 where a0: "a0 \<in> A" using assms(4) by auto
  obtain p0 :: "string picker" where p0: "default_ring cfg A (consHash p0)"
    using node_starts [OF assms(1) assms(2) [rule_format, OF a0] assms(3)] by metis
  define R where "R = route (consHash p0)"
  have "node_points cfg a0 \<noteq> {}" using assms(5) by (auto simp: node_points_def vhashes_def)
  then have "keys (consHash p0) \<noteq> []" using default_ringD(6) [OF p0] a0 by fastforce
  then have RA: "R k \<in> A" for k
    using route_member [OF default_ringD(1) [OF p0]] default_ringD(4) [OF p0] by (simp add: R_def)
  have "routes_as R a s \<and> coherent_on {k. R k = a} m s"
    if s: "start_nodes opts cfg A others a = Some s" for a s
  proof -
    have a: "a \<in> A" "s = cluster_node opts cfg a (others a)" "a \<noteq> []"
      using s assms(3) by (auto simp: start_nodes_def split: if_splits)
    obtain p where p: "clientPicker s = Some p" "pk_selfAddr p = a" "default_ring cfg A (consHash p)"
      "\<forall>x\<in>A. x \<noteq> a \<longrightarrow> grpcCli p x = Some x" "store_of s = Some (newLRU2Cache opts)"
      using node_starts [OF assms(1) assms(2) [rule_format, OF a(1)] assms(3)] a(2) by metis
    have "route (consHash p) k = R k" for k using default_ring_routes [OF p(3) p0] by (simp add: R_def)
    then have r: "routes_as R a s" using p(1,2,4) RA by (simp add: routes_as_def)
    then show ?thesis using routes_as_owns [OF r a(3)] p(5)
      by (simp add: coherent_on_def cached_def newLRU2Cache_spec [OF assms(6)])
  qed
  moreover have "dom (start_nodes opts cfg A others) = A" by (auto simp: start_nodes_def split: if_splits)
  moreover have "R k \<noteq> []" for k using RA [of k] assms(3) by metis
  ultimately have "cluster_ok R m (start_nodes opts cfg A others)"
    using RA assms(3) by (auto simp: cluster_ok_def)
  then show thesis by (rule that)
qed

text \<open>
  C2. A cluster is one map: nodes that are put together with the same configuration and have discovered
  each other, in any orders, answer every sequence of gets, sets and deletes, each sent to any node and
  handled one after the other, exactly as one map would, and leave redis with that map, whatever the caches
  evict or expire. What it rests on: redis keeps what it is given, the virtual nodes of the addresses do
  not collide (otherwise the order of discovery would decide who owns a position), store options are in
  range, the lifetime of a cached load does not overflow, and gRPC carries the messages that the requests
  need (keys in UTF-8, values within its limits). One call is enough for every request: nothing is assumed
  of calls beyond the first (\<open>beyond net\<close> is arbitrary).
\<close>
theorem cluster_is_transparent:
  assumes "redis_laws base rmap" "collision_free cfg A" "\<forall>a\<in>A. insert a (set (others a)) = A" "[] \<notin> A" "A \<noteq> {}"
    and "0 < DefaultReplicas cfg" "good_options opts" "\<forall>(a, q)\<in>set qs. a \<in> A \<and> clock_ok q \<and> carried net q"
    and "\<forall>k x. rmap r k = Some x \<longrightarrow> wire net [] x"
    and "exec_all (submit base net (Suc d)) qs (r, start_nodes opts cfg A others) = (c, resps)"
  shows "resps = answers (rmap r) (map snd qs) \<and> rmap (fst c) = fold req_effect (map snd qs) (rmap r)"
proof -
  obtain R where R: "cluster_ok R (rmap r) (start_nodes opts cfg A others)"
    by (rule cluster_starts [OF assms(2-7)])
  have "cluster_inv base net rmap R (r, start_nodes opts cfg A others)"
    using R assms(1,9) by (simp add: cluster_inv_def values_fit_def)
  moreover have "\<forall>q\<in>set qs. cluster_fine net (r, start_nodes opts cfg A others) q"
    using assms(8) by (auto simp: cluster_fine_def start_nodes_def)
  ultimately show ?thesis using cluster.transparent [of base net rmap R _ qs d] assms(10) by fastforce
qed

definition pair_requests :: "(string \<times> request) list" where
  "pair_requests = [(''a'', Req_Set ''k'' ''v''), (''b'', Req_Get ''k'' (1, 1, 1)), (''a'', Req_Get ''k'' (2, 2, 2)),
     (''b'', Req_Delete ''k''), (''a'', Req_Get ''k'' (3, 3, 3))]"

text \<open>gRPC as documented: keys are UTF-8, messages have at most 4 MB. Calls beyond the unfolded ones fail.\<close>

definition no_calls :: "('r cluster, string) env" where
  "no_calls =
     \<lparr>redis_Get = (\<lambda>k c. (c, None)), redis_Set = (\<lambda>k v c. (c, False)), redis_Delete = (\<lambda>k c. (c, False)),
      peer_Get = (\<lambda>a k c. (c, None)), peer_Set = (\<lambda>a k v c. (c, None)), peer_Delete = (\<lambda>a k c. (c, None))\<rparr>"

definition grpc_net :: "('r cluster, string) env \<Rightarrow> 'r net" where
  "grpc_net env = \<lparr>wire = (\<lambda>k v. valid_utf8 k \<and> length k + length v \<le> 4194304 - 32), beyond = env\<rparr>"

theorem cluster_is_transparent_witness:
  "snd (exec_all (submit redis_only (grpc_net no_calls) 1) pair_requests
      (Map.empty, start_nodes small_store_options small_config {''a'', ''b''} (\<lambda>_. [''b'', ''a'']))) =
    [Resp_Set (Some ''v''), Resp_Get (Some ''v''), Resp_Get (Some ''v''), Resp_Delete (Some True), Resp_Get None]"
proof -
  let ?c = "(Map.empty, start_nodes small_store_options small_config {''a'', ''b''} (\<lambda>_. [''b'', ''a'']))"
  obtain c rs where e: "exec_all (submit redis_only (grpc_net no_calls) (Suc 0)) pair_requests ?c = (c, rs)" by (rule prod.exhaust)
  have cf: "collision_free small_config {''a'', ''b''}"
    using small_nodes_collision_free by (auto simp: collision_free_def)
  have o: "good_options small_store_options" by code_simp
  have "valid_utf8 ''k''" "valid_utf8 []" by (rule valid_utf8_ascii; simp)+
  then have q: "\<forall>(a, q)\<in>set pair_requests. a \<in> {''a'', ''b''} \<and> clock_ok q \<and> carried (grpc_net no_calls) q"
    by (simp add: pair_requests_def long_lived_def expiry_def int64_def grpc_net_def)
  have "answers Map.empty (map snd pair_requests) =
      [Resp_Set (Some ''v''), Resp_Get (Some ''v''), Resp_Get (Some ''v''), Resp_Delete (Some True), Resp_Get None]"
    by (simp add: pair_requests_def)
  with cluster_is_transparent [OF map_env_laws cf _ _ _ _ o q _ e] e show ?thesis
    by (auto simp: small_config_def)
qed

end
