(* ===== verification/Cluster_Disagree.thy ===== *)
theory Cluster_Disagree
  imports Cluster_Properties
begin

text \<open>
  What happens to requests when the rings of the nodes disagree or change: forwarding without an end,
  writes that are acknowledged and lost, and cached values that outlive a change of the owner.
\<close>

subsection \<open>Two nodes that name each other as the owner\<close>

definition points_to :: "string \<Rightarrow> string server \<Rightarrow> string \<Rightarrow> string \<Rightarrow> bool" where
  "points_to k s a b \<longleftrightarrow> (\<exists>p. clientPicker s = Some p \<and> pk_selfAddr p = a \<and> route (consHash p) k = b \<and>
     grpcCli p b = Some b)"

lemma points_to_pick:
  assumes "points_to k s a b" "a \<noteq> b" "b \<noteq> []"
  obtains s' where "points_to k s' a b" "pick k s = Some (s', b, True, False)" "client_of s' b = Some b"
proof -
  obtain p where p: "clientPicker s = Some p" "pk_selfAddr p = a" "route (consHash p) k = b" "grpcCli p b = Some b"
    using assms(1) by (auto simp: points_to_def)
  let ?p = "p\<lparr>consHash := fst (Map_Get k (consHash p))\<rparr>"
  let ?s = "s\<lparr>clientPicker := Some ?p\<rparr>"
  have "pick k s = Some (?s, b, True, False)"
    using p assms(2,3) by (auto simp: pick_def PickPeer_def route_def case_prod_beta Let_def)
  moreover have "client_of ?s b = Some b" using p(4) by (simp add: client_of_def)
  moreover have "points_to k ?s a b"
    using p route_same_ring [OF Map_Get_same [of "consHash p" k]] by (simp add: points_to_def)
  ultimately show thesis using that by blast
qed

lemma points_to_Get:
  assumes "points_to k s a b" "a \<noteq> b" "b \<noteq> []"
  obtains s' where "points_to k s' a b"
    "Server_Get env k clk s w = Some (s', fst (peer_Get env b k w), snd (peer_Get env b k w))"
proof -
  obtain s' where "points_to k s' a b" "pick k s = Some (s', b, True, False)" "client_of s' b = Some b"
    by (rule points_to_pick [OF assms])
  then show thesis using that [of s'] assms(3) by (simp add: Server_Get_store case_prod_beta Let_def)
qed

lemma points_to_Set:
  assumes "points_to k s a b" "a \<noteq> b" "b \<noteq> []"
  obtains s' where "points_to k s' a b" "Server_Set env k v s w = Some (s', fst (peer_Set env b k v w), Some v)"
proof -
  obtain s' where "points_to k s' a b" "pick k s = Some (s', b, True, False)" "client_of s' b = Some b"
    by (rule points_to_pick [OF assms])
  then show thesis using that [of s'] assms(3) by (simp add: Server_Set_store case_prod_beta Let_def)
qed

definition bounce :: "string \<Rightarrow> string \<Rightarrow> string \<Rightarrow> (string \<rightharpoonup> string server) \<Rightarrow> bool" where
  "bounce k a b ns \<longleftrightarrow> a \<noteq> b \<and> a \<noteq> [] \<and> b \<noteq> [] \<and>
     (\<exists>s. ns a = Some s \<and> points_to k s a b) \<and> (\<exists>s. ns b = Some s \<and> points_to k s b a)"

lemma bounce_sym: "bounce k a b ns = bounce k b a ns"
  by (auto simp: bounce_def)

text \<open>The node that the last unfolded call hands the request to.\<close>

definition last_hop :: "string \<Rightarrow> string \<Rightarrow> nat \<Rightarrow> string" where
  "last_hop a b d = (if even d then b else a)"

lemma last_hop_Suc: "last_hop a b (Suc d) = last_hop b a d"
  by (simp add: last_hop_def)

lemma bounce_Get:
  assumes "\<forall>k' x. k' = k \<or> k' = [] \<longrightarrow> wire net k' x" "bounce k a b (snd c)"
  shows "\<exists>ns. at_node (Server_Get (cluster_env base net clk d) k clk) a c =
    ((fst (fst (peer_Get (beyond net) (last_hop a b d) k c)), ns), snd (peer_Get (beyond net) (last_hop a b d) k c))"
  using assms(2)
proof (induction d arbitrary: a b)
  case 0
  then obtain s where s: "snd c a = Some s" "points_to k s a b" "a \<noteq> b" "b \<noteq> []" by (auto simp: bounce_def)
  let ?env = "cluster_env base net clk 0"
  obtain s' where "Server_Get ?env k clk s c = Some (s', fst (peer_Get ?env b k c), snd (peer_Get ?env b k c))"
    by (rule points_to_Get [OF s(2-4)])
  then have "Server_Get ?env k clk s c = Some (s', fst (peer_Get (beyond net) b k c), snd (peer_Get (beyond net) b k c))"
    by (simp only: cluster_env_0)
  from at_node_some [where h = "Server_Get ?env k clk", OF s(1) this] show ?case by (simp add: last_hop_def)
next
  case (Suc d)
  then obtain s where s: "snd c a = Some s" "points_to k s a b" "a \<noteq> b" "b \<noteq> []" by (auto simp: bounce_def)
  let ?env = "cluster_env base net clk (Suc d)" and ?p = "peer_Get (beyond net) (last_hop b a d) k c"
  obtain ns where "at_node (Server_Get (cluster_env base net clk d) k clk) b c = ((fst (fst ?p), ns), snd ?p)"
    using Suc.IH [of b a] Suc.prems bounce_sym by blast
  moreover have "wire net k []" "\<forall>x. snd ?p = Some x \<longrightarrow> wire net [] x" using assms(1) by simp_all
  ultimately have c1: "peer_Get ?env b k c = ((fst (fst ?p), ns), snd ?p)"
    by (simp only: cluster_env_peer(1)) (rule reply_carried)
  obtain s' where "Server_Get ?env k clk s c = Some (s', fst (peer_Get ?env b k c), snd (peer_Get ?env b k c))"
    by (rule points_to_Get [OF s(2-4)])
  then have "Server_Get ?env k clk s c = Some (s', (fst (fst ?p), ns), snd ?p)" by (simp only: c1 fst_conv snd_conv)
  from at_node_some [where h = "Server_Get ?env k clk", OF s(1) this] show ?case by (simp add: last_hop_Suc)
qed

lemma bounce_Set:
  assumes "\<forall>k' x. k' = k \<or> k' = [] \<longrightarrow> wire net k' x" "bounce k a b (snd c)"
  shows "\<exists>ns. at_node (Server_Set (cluster_env base net clk d) k v) a c =
    ((fst (fst (peer_Set (beyond net) (last_hop a b d) k v c)), ns), Some v)"
  using assms(2)
proof (induction d arbitrary: a b)
  case 0
  then obtain s where s: "snd c a = Some s" "points_to k s a b" "a \<noteq> b" "b \<noteq> []" by (auto simp: bounce_def)
  let ?env = "cluster_env base net clk 0"
  obtain s' where "Server_Set ?env k v s c = Some (s', fst (peer_Set ?env b k v c), Some v)"
    by (rule points_to_Set [OF s(2-4)])
  then have "Server_Set ?env k v s c = Some (s', fst (peer_Set (beyond net) b k v c), Some v)" by (simp only: cluster_env_0)
  from at_node_some [where h = "Server_Set ?env k v", OF s(1) this] show ?case by (simp add: last_hop_def)
next
  case (Suc d)
  then obtain s where s: "snd c a = Some s" "points_to k s a b" "a \<noteq> b" "b \<noteq> []" by (auto simp: bounce_def)
  let ?env = "cluster_env base net clk (Suc d)" and ?p = "peer_Set (beyond net) (last_hop b a d) k v c"
  obtain ns where "at_node (Server_Set (cluster_env base net clk d) k v) b c = ((fst (fst ?p), ns), Some v)"
    using Suc.IH [of b a] Suc.prems bounce_sym by blast
  moreover have "wire net k v" using assms(1) by simp
  ultimately have c1: "fst (peer_Set ?env b k v c) = (fst (fst ?p), ns)"
    by (simp only: cluster_env_peer(2) reply_fst fst_conv)
  obtain s' where "Server_Set ?env k v s c = Some (s', fst (peer_Set ?env b k v c), Some v)"
    by (rule points_to_Set [OF s(2-4)])
  then have "Server_Set ?env k v s c = Some (s', (fst (fst ?p), ns), Some v)" by (simp only: c1)
  from at_node_some [where h = "Server_Set ?env k v", OF s(1) this] show ?case by (simp add: last_hop_Suc)
qed


text \<open>The node at \<open>b\<close> has given the node at \<open>a\<close> more replicas; the snapshot has not reached \<open>a\<close>.\<close>

definition ring_node :: "string \<Rightarrow> con_hash \<Rightarrow> string server" where
  "ring_node self m = RegisterPeersToServer (Some \<lparr>pk_selfAddr = self, pk_svcName = ''cache'', consHash = m,
       grpcCli = [''a'' \<mapsto> ''a'', ''b'' \<mapsto> ''b'']\<rparr>)
     (RegisterGroupToServer (NewGroup ''cache'' self small_store_options LRU) (NewServer self ''cache''))"

definition torn_cluster :: "(string \<rightharpoonup> string) cluster" where
  "torn_cluster = ([''a-7'' \<mapsto> ''v''],
     [''a'' \<mapsto> ring_node ''a'' small_ring, ''b'' \<mapsto> ring_node ''b'' (rebalanceReplicas ''a'' 12 small_ring)])"

text \<open>Calls after the unfolded ones answer with the node that is called: 7 calls and 8 calls later.\<close>

definition name_calls :: "('r cluster, string) env" where
  "name_calls = no_calls\<lparr>peer_Get := \<lambda>a k c. (c, Some a)\<rparr>"

definition any_net :: "('r cluster, string) env \<Rightarrow> 'r net" where
  "any_net env = \<lparr>wire = (\<lambda>k v. True), beyond = env\<rparr>"


text \<open>A write that gRPC does not carry, for example one whose key is not UTF-8, is acknowledged and lost.\<close>

lemma uncarried_Set_is_lost:
  assumes "cluster_ok R m (snd c)" "snd c a = Some s" "R k \<noteq> a" "\<not> wire net k v"
  shows "\<exists>ns. submit base net (Suc d) (a, Req_Set k v) c = ((fst c, ns), Resp_Set (Some v))"
proof -
  obtain s' where F: "\<And>(env :: ('a cluster, string) env) v w. Server_Set env k v s w = Some (s', fst (peer_Set env (R k) k v w), Some v)"
    by (rule Server_forward [OF cluster_okD(4) [OF assms(1,2)] assms(3) cluster_okD(1) [OF assms(1)]]) (rule that)
  have "Server_Set (cluster_env base net (0, 0, 0) (Suc d)) k v s c = Some (s', c, Some v)"
    using assms(4) by (simp only: F) (simp add: Let_def)
  from at_node_some [where h = "Server_Set (cluster_env base net (0, 0, 0) (Suc d)) k v", OF assms(2) this]
  show ?thesis by (simp del: cluster_env.simps)
qed

subsection \<open>A cache that outlives a change of the owner\<close>

definition on_picker :: "('c picker \<Rightarrow> 'c picker) \<Rightarrow> 'c server \<Rightarrow> 'c server" where
  "on_picker f s = s\<lparr>clientPicker := map_option f (clientPicker s)\<rparr>"

lemma Map_Get_other: "route m k \<noteq> selfAddr m \<Longrightarrow> fst (Map_Get k m) = m"
  by (auto simp: route_def Map_Get_def Let_def)

text \<open>A node that joins and leaves again leaves the routes as they were.\<close>

lemma joined_and_left:
  assumes "ring_inv m" "b \<notin> members m" "apart m b"
  shows "route (Map_Remove b (Map_Add b m)) k = route m k"
proof -
  have inv: "ring_inv (Map_Add b m)" using ring.add_law [OF assms(1), of b "[]"] by simp
  note s = ring_invD(1) [OF assms(1)] ring_invD(1) [OF conjunct1 [OF ring.remove_law [OF inv, of b]]]
  have "config (Map_Remove b (Map_Add b m)) = config m"
    using removeNoLock_simps(4) [OF ring_invD(1) [OF inv], of b] by (simp add: Map_Remove_cases Map_Add_cases)
  then show ?thesis using route_cong [OF s] Remove_undoes_Add [OF assms] by simp
qed

text \<open>A value in the cache of a node that owns the key is answered, whatever redis holds.\<close>

lemma cached_Get:
  assumes "owns {k} s" "store_of s = Some st" "store_inv st" "sview st k = Some (Some v, e)" "n < e" "n' < e"
  obtains s' where "Server_Get env k (n, n', n'') s w = Some (s', w, Some v)"
proof -
  obtain s1 self where P: "pick k s = Some (s1, self, True, True)" "self \<noteq> []" "owns {k} s1" "store_of s1 = store_of s"
    using pick_self [OF assms(1)] by auto
  obtain st' evs where "Get st k n n' = Some (st', (Some v, True), evs)"
    using lru2_store.get_law [OF assms(3), of k n n'] assms(4-6) by auto
  then show thesis using P assms(2) that by (simp add: Server_Get_store)
qed

text \<open>
  C37. A node keeps cached values of keys that it no longer owns: another node joins and takes a key over,
  a set of the key goes there and reaches redis, the node leaves again (its key is deleted from etcd),
  and the first node answers the old value from its cache until it expires.
\<close>
theorem departed_owner_leaves_stale_value:
  assumes "clientPicker s = Some p" "pk_selfAddr p \<noteq> []" "selfAddr (consHash p) = pk_selfAddr p"
    and "ring_inv (consHash p)" "apart (consHash p) b" "b \<notin> members (consHash p)" "b \<noteq> []" "b \<noteq> pk_selfAddr p"
    and "newCli b = Some cli" "route (consHash p) k = pk_selfAddr p" "route (Map_Add b (consHash p)) k = b"
    and "store_of s = Some st" "store_inv st" "sview st k = Some (Some old, e)" "n < e" "n' < e"
    and "rmap (fst (peer_Set env cli k new w)) = (rmap w)(k \<mapsto> new)"
    and "key = service_key (pk_svcName p) b"
  shows "\<exists>s2 w2 s4. Server_Set env k new (on_picker (handle_event newCli (EventPut key b)) s) w = Some (s2, w2, Some new) \<and>
    rmap w2 k = Some new \<and>
    Server_Get env k (n, n', n'') (on_picker (handle_event newCli (EventDelete key [])) s2) w2 = Some (s4, w2, Some old)"
proof -
  define p1 where "p1 = p\<lparr>grpcCli := (grpcCli p)(b \<mapsto> cli), consHash := Map_Add b (consHash p)\<rparr>"
  have p1: "handle_event newCli (EventPut key b) p = p1"
    using assms(7-9) by (simp add: handle_event_def p1_def)
  have "selfAddr (Map_Add b (consHash p)) = selfAddr (consHash p)" by (simp add: Map_Add_cases)
  then have "fst (Map_Get k (consHash p1)) = consHash p1"
    using Map_Get_other [of "Map_Add b (consHash p)" k] assms(3,8,11) by (simp add: p1_def)
  then have pk: "PickPeer k p1 = (p1, b, True, False)"
    using assms(7,8,11) by (simp add: PickPeer_def p1_def route_def case_prod_beta Let_def)
  define s1 where "s1 = s\<lparr>clientPicker := Some p1\<rparr>"
  have s1: "on_picker (handle_event newCli (EventPut key b)) s = s1"
    using assms(1) p1 by (simp add: on_picker_def s1_def)
  have "pick k s1 = Some (s1, b, True, False)" "client_of s1 b = Some cli"
    using pk by (simp_all add: pick_def s1_def client_of_def, simp add: p1_def)
  then have set: "Server_Set env k new s1 w = Some (s1, fst (peer_Set env cli k new w), Some new)"
    using assms(7) by (simp add: Server_Set_store case_prod_beta Let_def)
  define p2 where "p2 = handle_event newCli (EventDelete key []) p1"
  have p2: "p2 = p1\<lparr>grpcCli := (grpcCli p1)(b := None), consHash := Map_Remove b (consHash p1)\<rparr>"
    using delete_own_key [of b p1 newCli "[]"] assms(7,8,18) by (simp add: p2_def p1_def)
  have s3: "on_picker (handle_event newCli (EventDelete key [])) s1 = s1\<lparr>clientPicker := Some p2\<rparr>"
    by (simp add: on_picker_def s1_def p2_def)
  have "owns {k} (on_picker (handle_event newCli (EventDelete key [])) s1)"
    using joined_and_left [OF assms(4,6,5), of k] assms(2,10) by (simp add: s3 owns_def p2, simp add: p1_def)
  moreover have "store_of (on_picker (handle_event newCli (EventDelete key [])) s1) = Some st"
    using assms(12) by (simp add: on_picker_def s1_def)
  ultimately obtain s4 where "Server_Get env k (n, n', n'') (on_picker (handle_event newCli (EventDelete key [])) s1)
      (fst (peer_Set env cli k new w)) = Some (s4, fst (peer_Set env cli k new w), Some old)"
    by (rule cached_Get [OF _ _ assms(13-16)])
  then show ?thesis using set s1 assms(17) by auto
qed

definition one_ring :: con_hash where
  "one_ring = Map_Add ''a'' empty_ring"

definition peer_env :: "(string \<rightharpoonup> string, string) env" where
  "peer_env = redis_only\<lparr>peer_Set := \<lambda>c k v w. (w(k \<mapsto> v), Some v)\<rparr>"

lemma one_ring_facts:
  "ring_inv one_ring" "apart one_ring ''b''" "''b'' \<notin> members one_ring" "selfAddr one_ring = ''a''"
  "route one_ring ''a-7'' = ''a''" "route (Map_Add ''b'' one_ring) ''a-7'' = ''b''"
proof -
  show "ring_inv one_ring"
    using ring.add_law [of empty_ring "''a''" "[]"] empty_ring_sound(1) by (simp add: one_ring_def sound_def)
  show "''b'' \<notin> members one_ring" unfolding members_def domIff by code_simp
qed code_simp+

theorem departed_owner_leaves_stale_value_witness:
  "\<exists>s :: string server. \<exists>s2 w2 s4. sv_selfAddr s = ''a'' \<and>
    Server_Set peer_env ''a-7'' ''new'' (on_picker (handle_event Some (EventPut (service_key ''cache'' ''b'') ''b'')) s)
      Map.empty = Some (s2, w2, Some ''new'') \<and> w2 ''a-7'' = Some ''new'' \<and>
    Server_Get peer_env ''a-7'' (2, 2, 2) (on_picker (handle_event Some (EventDelete (service_key ''cache'' ''b'') [])) s2) w2 =
      Some (s4, w2, Some ''old'')"
proof -
  let ?s0 = "ring_node ''a'' one_ring"
  have g: "store_of ?s0 = Some (newLRU2Cache small_store_options)"
    by (simp add: ring_node_def RegisterPeersToServer_def RegisterGroupToServer_def NewGroup_def NewStore_def)
  have "good_options small_store_options" by code_simp
  then have inv: "store_inv (newLRU2Cache small_store_options :: string lru2)" by (rule newLRU2Cache_spec)
  have l: "long_lived 1" by (simp add: long_lived_def expiry_def int64_def)
  obtain st where st: "get_fill ''a-7'' ''old'' 1 ?s0 = Some (put_store st ?s0)" "store_inv st"
    "sview st ''a-7'' = Some (Some ''old'', expiry 1 9999999999999999)"
    "\<forall>k'. k' \<noteq> ''a-7'' \<longrightarrow> sview st k' = sview (newLRU2Cache small_store_options) k' \<or> sview st k' = None"
    by (rule get_fill_spec [OF g inv l])
  define s where "s = put_store st ?s0"
  let ?p = "\<lparr>pk_selfAddr = ''a'', pk_svcName = ''cache'', consHash = one_ring, grpcCli = [''a'' \<mapsto> ''a'', ''b'' \<mapsto> ''b'']\<rparr>"
  have s: "clientPicker s = Some ?p" "store_of s = Some st" "sv_selfAddr s = ''a''"
    by (simp_all add: s_def ring_node_def RegisterPeersToServer_def RegisterGroupToServer_def NewServer_def)
  have e: "2 < expiry 1 9999999999999999" by (simp add: expiry_def int64_def)
  have w: "fst (peer_Set peer_env ''b'' ''a-7'' ''new'' Map.empty) = [''a-7'' \<mapsto> ''new'']"
    by (simp add: peer_env_def)
  have "\<exists>s2 w2 s4. Server_Set peer_env ''a-7'' ''new'' (on_picker (handle_event Some (EventPut (service_key ''cache'' ''b'') ''b'')) s)
      Map.empty = Some (s2, w2, Some ''new'') \<and> w2 ''a-7'' = Some ''new'' \<and>
    Server_Get peer_env ''a-7'' (2, 2, 2) (on_picker (handle_event Some (EventDelete (service_key ''cache'' ''b'') [])) s2) w2 =
      Some (s4, w2, Some ''old'')"
    by (rule departed_owner_leaves_stale_value [where rmap = "\<lambda>w. w" and p = ?p and cli = "''b''",
        OF s(1) _ _ _ _ _ _ _ _ _ _ s(2) st(2,3) e e w])
      (simp_all add: one_ring_facts)
  then show ?thesis using s(3) by blast
qed

end
