(* ===== verification/Ghost_Nodes.thy ===== *)
theory Ghost_Nodes
  imports Cache_Server_Correct Con_Hash_Follow
begin

text \<open>
  Snapshots and discovery together. A snapshot brings a follower the positions of the leader's ring but
  not the replica counts behind them, and a departure removes as many virtual nodes as the follower has
  counted. What a rebalance had added stays on the ring of the follower as ghosts of the node.
\<close>

subsection \<open>A ring with a snapshot on it\<close>

lemma install_ring_fields:
  "keys (fst (install_ring (ring_snapshot m) s)) = keys m"
  "hashMap (fst (install_ring (ring_snapshot m) s)) = hashMap m"
  "nodeReplicas (fst (install_ring (ring_snapshot m) s)) = nodeReplicas (fst s)"
  "config (fst (install_ring (ring_snapshot m) s)) = config (fst s)"
  by (simp_all add: install_ring_def ring_snapshot_def)

text \<open>Removing a node does not reach a position that is not among those it counts.\<close>

lemma removed_node_keeps_ghost:
  assumes "sorted (keys m)" "hashMap m h = Some b" "h \<notin> set (vhashes (config m) b (replicas_of m b))"
    and "is_next (set (keys m)) (key_hash m k) h"
  shows "route (removeNoLock b m) k = b"
proof -
  let ?m = "removeNoLock b m" and ?vs = "vhashes (config m) b (replicas_of m b)"
  note R = removeNoLock_simps [OF assms(1), of b]
  have "h \<in> set (keys m)" using assms(4) by (simp add: is_next_def)
  then have "0 < count (mset (keys m)) h" by (simp add: count_greater_zero_iff)
  moreover have "count (mset ?vs) h = 0" using assms(3) by (simp add: count_eq_zero_iff)
  moreover have "count (mset (keys ?m)) h = count (mset (keys m)) h - count (mset ?vs) h" by (simp only: R(2) count_diff)
  ultimately have "0 < count (mset (keys ?m)) h" by linarith
  then have h: "h \<in> set (keys ?m)" by (metis count_greater_zero_iff set_mset_mset)
  have sub: "set (keys ?m) \<subseteq> set (keys m)" using R(2) by (metis diff_subset_eq_self mset_subset_eqD set_mset_mset subsetI)
  have "is_next (set (keys ?m)) (key_hash ?m k) h"
    using is_next_subset [OF assms(4) h sub] by (simp add: key_hash_def R(4))
  from route_is_owner [OF R(1) this] show ?thesis using assms(2,3) by (simp add: owner_of_def R(3))
qed

subsection \<open>A picker with a ghost\<close>

lemma PickPeer_route: "route (consHash p) k = b \<Longrightarrow> b \<noteq> [] \<Longrightarrow>
  PickPeer k p = (p\<lparr>consHash := fst (Map_Get k (consHash p))\<rparr>, b, True, b = pk_selfAddr p)"
  by (simp add: PickPeer_def route_def case_prod_beta Let_def)

text \<open>A handler that picks a peer without a client calls a nil client.\<close>

lemma nil_client_panics:
  assumes "clientPicker s = Some p" "route (consHash p) k = b" "b \<noteq> []" "b \<noteq> pk_selfAddr p" "grpcCli p b = None"
  shows "Server_Get env k clk s w = None" "Server_Set env k v s w = None" "Server_Delete env k s w = None"
  using assms PickPeer_route [OF assms(2,3)]
  by (simp_all add: Server_Get_def Server_Set_def Server_Delete_def pick_def client_of_def split: prod.split)

subsection \<open>After a rebalance, a departure\<close>

text \<open>The ring of a picker follows the snapshots that arrive.\<close>

definition follow_ring :: "(string \<times> string) list list \<Rightarrow> 'c picker \<Rightarrow> 'c picker" where
  "follow_ring resps p = p\<lparr>consHash := fst (updateHashRing resps (consHash p, False))\<rparr>"

lemma follow_ring_fields:
  assumes "ring_inv m" "publishable m" "CheckAndRebalanceAndSyncHashRing evs m = Some (m', out)"
    and "\<forall>visits. Tick visits False \<notin> set evs" "out \<noteq> []" "concat resps = out"
  shows "follow_ring resps p = p\<lparr>consHash := fst (install_ring (ring_snapshot m') (consHash p, False))\<rparr>"
    "config m' = config m"
  using leader_loop_publishes [OF assms(1-4), of "(consHash p, False)"] assms(5,6)
  by (simp_all add: follow_ring_def updateHashRing_concat)

lemma departure_of:
  assumes "b \<noteq> []" "b \<noteq> pk_selfAddr p" "nodeReplicas (consHash p) b = Some r"
  shows "handle_event newCli (EventDelete (''/services/'' @ pk_svcName p @ ''/'' @ b) v) p =
    p\<lparr>grpcCli := (grpcCli p)(b := None), consHash := removeNoLock b (consHash p)\<rparr>"
proof -
  have "trim_prefix (''/services/'' @ pk_svcName p @ ''/'' @ b) (''/services/'' @ pk_svcName p @ ''/'') = b"
    using trim_prefix_append [of "''/services/'' @ pk_svcName p @ ''/''" b] by (simp only: append_assoc)
  then show ?thesis using assms unfolding handle_event_def by (simp only: service_event.case Let_def) (simp add: Map_Remove_def)
qed

lemma loop_keeps_ring_inv:
  assumes "ring_inv m" "CheckAndRebalanceAndSyncHashRing evs m = Some (m', out)"
  shows "ring_inv m'"
  using assms
proof (induction evs m arbitrary: out rule: CheckAndRebalanceAndSyncHashRing.induct)
  case (3 visits put_ok evs m)
  obtain m1 b outs where "checkAndRebalance visits m = Some (m1, b)"
    "CheckAndRebalanceAndSyncHashRing evs m1 = Some (m', outs)"
    using "3.prems"(2) by (auto split: Option.bind_splits prod.splits)
  then show ?case using "3.IH" rebalance_config [OF "3.prems"(1)] by blast
qed simp_all

text \<open>
  C36. A node that was given more replicas and then left is still called: a leader has run rounds of its
  loop and published a ring on which \<open>b\<close> has a virtual node that a follower does not count, the
  follower has installed the ring, and then hears that \<open>b\<close> has left. It drops the client of \<open>b\<close> and \<open>b\<close>
  is no member any more, but every key whose successor on the leader's ring was that virtual node is
  still routed to \<open>b\<close>, and a get, set or delete of such a key panics on the nil client.
\<close>
theorem departed_ghost_is_called:
  assumes "ring_inv m" "publishable m" "CheckAndRebalanceAndSyncHashRing evs m = Some (m', out)"
    and "\<forall>visits. Tick visits False \<notin> set evs" "out \<noteq> []" "concat resps = out"
    and "clientPicker s = Some p" "HashFunc (config (consHash p)) = HashFunc (config m)"
    and "b \<noteq> []" "b \<noteq> pk_selfAddr p" "nodeReplicas (consHash p) b = Some r"
    and "hashMap m' (vhash (config m') b i) = Some b" "vhash (config m') b i \<notin> set (vhashes (config m') b r)"
    and "is_next (set (keys m')) (key_hash m' k) (vhash (config m') b i)"
    and "p' = handle_event newCli (EventDelete (''/services/'' @ pk_svcName p @ ''/'' @ b) v) (follow_ring resps p)"
    and "s' = s\<lparr>clientPicker := Some p'\<rparr>"
  shows "b \<notin> members (consHash p') \<and> grpcCli p' b = None \<and> fst (snd (PickPeer k p')) = b \<and>
    Server_Get env k clk s' w = None \<and> Server_Set env k x s' w = None \<and> Server_Delete env k s' w = None"
proof -
  let ?f = "fst (install_ring (ring_snapshot m') (consHash p, False))"
  note F = follow_ring_fields [OF assms(1-6)]
  note I = install_ring_fields [of m' "(consHash p, False)"]
  have inv: "ring_inv m'" by (rule loop_keeps_ring_inv [OF assms(1,3)])
  have same: "vhash (config ?f) a j = vhash (config m') a j" for a j
    using assms(8) by (simp add: vhash_def I(4) F(2))
  have p': "p' = p\<lparr>grpcCli := (grpcCli p)(b := None), consHash := removeNoLock b ?f\<rparr>"
    using departure_of [of b "follow_ring resps p"] assms(9-11,15) by (simp add: F(1) I(3))
  have sorted: "sorted (keys ?f)" using ring_invD(1) [OF inv] by (simp add: I(1))
  have "route (removeNoLock b ?f) k = b"
  proof (rule removed_node_keeps_ghost [OF sorted])
    show "hashMap ?f (vhash (config m') b i) = Some b" using assms(12) by (simp add: I(2))
    show "vhash (config m') b i \<notin> set (vhashes (config ?f) b (replicas_of ?f b))"
      using assms(11,13) by (simp add: vhashes_def same replicas_of_def I(3))
    show "is_next (set (keys ?f)) (key_hash ?f k) (vhash (config m') b i)"
      using assms(8,14) by (simp add: key_hash_def I(1,4) F(2))
  qed
  then have route: "route (consHash p') k = b" by (simp add: p')
  have c: "b \<noteq> pk_selfAddr p'" "grpcCli p' b = None" using assms(10) by (simp_all add: p')
  have "b \<notin> members (consHash p')" by (simp add: p' remove_fields [OF sorted])
  moreover have "fst (snd (PickPeer k p')) = b" by (simp add: PickPeer_route [OF route assms(9)])
  moreover have "Server_Get env k clk s' w = None \<and> Server_Set env k x s' w = None \<and> Server_Delete env k s' w = None"
    by (intro conjI nil_client_panics [OF _ route assms(9) c]) (simp_all add: assms(16))
  ultimately show ?thesis using c(2) by simp
qed

text \<open>Node \<open>b\<close> is given 12 replicas instead of 2, and the key is the name of its eighth virtual node.\<close>

theorem departed_ghost_is_called_witness:
  "\<exists>m' out p'. CheckAndRebalanceAndSyncHashRing [Tick [''b'', ''a''] True] loaded_ring = Some (m', out) \<and>
     p' = handle_event Some (EventDelete ''/services/cache/b'' []) (follow_ring [out]
       \<lparr>pk_selfAddr = ''a'', pk_svcName = ''cache'', consHash = small_ring, grpcCli = [''b'' \<mapsto> ''b'']\<rparr>) \<and>
     ''b'' \<notin> members (consHash p') \<and> fst (snd (PickPeer ''b-7'' p')) = ''b''"
proof -
  let ?h = "vhash small_config ''b'' 7"
  let ?p = "\<lparr>pk_selfAddr = ''a'', pk_svcName = ''cache'', consHash = small_ring, grpcCli = [''b'' \<mapsto> ''b'']\<rparr>"
  let ?s = "(NewServer ''a'' ''cache'' :: string server)\<lparr>clientPicker := Some ?p\<rparr>"
  have "map_option (\<lambda>(m', b). (b, hashMap m' ?h, ?h \<in> set (keys m'))) (checkAndRebalance [''b'', ''a''] loaded_ring) =
      Some (True, Some ''b'', True)" by code_simp
  then obtain m' where m': "checkAndRebalance [''b'', ''a''] loaded_ring = Some (m', True)"
    "hashMap m' ?h = Some ''b''" "?h \<in> set (keys m')" by auto
  let ?out = "[(ring_key, Marshal (ring_snapshot m'))]"
  have run: "CheckAndRebalanceAndSyncHashRing [Tick [''b'', ''a''] True] loaded_ring = Some (m', ?out)"
    by (simp add: m' syncHashRing_def)
  have cfg: "config loaded_ring = small_config" "config small_ring = small_config" "nodeReplicas small_ring ''b'' = Some 2"
    by (simp_all add: loaded_ring_def small_ring_def Map_Add_cases empty_ring_def NewConsistentHash_def small_config_def members_def)
  have cfg': "config m' = small_config" using rebalance_config [OF loaded_ring_inv m'(1)] cfg by simp
  have ghost: "?h \<notin> set (vhashes small_config ''b'' 2)" by code_simp
  have "key_hash m' ''b-7'' = ?h" unfolding key_hash_def cfg' by code_simp
  then have succ: "is_next (set (keys m')) (key_hash m' ''b-7'') ?h" using m'(3) by (auto simp: is_next_def)
  define p' where "p' = handle_event Some (EventDelete (''/services/'' @ pk_svcName ?p @ ''/'' @ ''b'') []) (follow_ring [?out] ?p)"
  have "''b'' \<notin> members (consHash p') \<and> grpcCli p' ''b'' = None \<and> fst (snd (PickPeer ''b-7'' p')) = ''b'' \<and>
    Server_Get redis_only ''b-7'' (1, 1, 1) (?s\<lparr>clientPicker := Some p'\<rparr>) Map.empty = None \<and>
    Server_Set redis_only ''b-7'' [] (?s\<lparr>clientPicker := Some p'\<rparr>) Map.empty = None \<and>
    Server_Delete redis_only ''b-7'' (?s\<lparr>clientPicker := Some p'\<rparr>) Map.empty = None"
    by (rule departed_ghost_is_called [OF loaded_ring_inv loaded_ring_publishable run _ _ _ _ _ _ _ _ _ _ _ p'_def refl])
      (use m'(2) ghost succ cfg in \<open>simp_all add: cfg'\<close>)
  then show ?thesis using run by (auto simp: p'_def)
qed

end
