(* ===== verification/Spec2Isabelle.thy ===== *)
theory Spec2Isabelle
  imports Lru2_Properties Lru2_Clock Con_Hash_Load Con_Hash_Follow Election Lru_Cache_Properties Byte_View
    Server_Fresh Server_Progress Registry_Properties Console_Properties Cluster_Disagree Ghost_Nodes
begin

text \<open>
  A verification library for a distributed key-value cache written in Go. A node keeps values in a
  store (\<open>pkg/store\<close>), routes keys over a consistent hash ring (\<open>internal/consistenthash\<close>), shares
  load counts and ring snapshots through etcd (also \<open>internal/registry\<close>), collapses concurrent loads
  of a key (\<open>internal/singleflight\<close>) and serves requests (\<open>internal/server\<close>) in front of redis
  (\<open>internal/database\<close>), under the command line of \<open>cmd/cache\<close>. The library models all of these from the
  store up to \<open>main\<close>; redis, etcd, gRPC, the network and the remote nodes are parameters.

  Conventions. A Go value is modelled at its width where its arithmetic can wrap: \<open>uint16\<close> and
  \<open>int32\<close> are words, an \<open>int64\<close> is an integer wrapped by \<open>int64\<close> after each operation. A runtime panic
  is \<open>None\<close>. A callback is user code: operations return the calls they make. Clock readings, map
  iteration orders and the answers of etcd are parameters. A mutex makes its critical section one
  function; goroutines are lists of critical sections in the order in which they take the locks.

  Theories and code.

  \<^item> \<open>Prelude\<close>: indexing Go slices, wrapped integers, lemma collections \<open>go_simps\<close> and \<open>gomap_simps\<close>.
  \<^item> \<open>Store_Api\<close>: \<open>store.go\<close>, the options. \<open>Store_Contract\<close>: the interface \<open>Store\<close> as the locale
    \<open>lossy_store\<close>: a key reads as what was last written to it, or not at all.
  \<^item> \<open>Lru2_Links\<close>: the links of one level in \<open>lru2.go\<close> and \<open>adjust\<close>; doubly linked segments \<open>seg\<close>,
    unlinking and relinking. \<open>Lru2_Spec\<close>: a level as a list of entries in recency order, with
    \<open>lru_put\<close>, \<open>lru_get\<close>, \<open>lru_del\<close>, \<open>lru_walk\<close>, and the locale \<open>lru_level\<close>, the contract of a level.
    \<open>Lru2_Cache\<close>: \<open>cache\<close>, \<open>Create\<close>, \<open>put\<close>, \<open>get\<close>, \<open>del\<close>, \<open>walk\<close>. \<open>Lru2_Cache_Refine\<close>: each of them
    implements its list operation; \<open>lru_level\<close> is interpreted on them.
  \<^item> \<open>Lru2_Store\<close>: \<open>lru2Store\<close> with every operation, \<open>hashBKRD\<close>, \<open>maskOfNextPowOf2\<close> and a tick of
    \<open>cleanupLoop\<close>. \<open>Lru2_Bucket\<close>: the operations on one bucket, over the facts of \<open>lru_level\<close>;
    \<open>Lru2_Mask\<close>: the mask and the bucket index; \<open>Lru2_Correct\<close>: the store invariant, the view
    \<open>sview\<close> of a reader and the effect of every operation on it; \<open>Lru2_Run\<close>: \<open>lossy_store\<close>
    interpreted on the store, executions and their history; \<open>Lru2_Properties\<close>: the properties.
  \<^item> \<open>Lru2_Clock\<close>: the internal clock of \<open>lru2.go\<close> and its drift.
  \<^item> \<open>Lru_Cache\<close>: the list-based cache of \<open>lru.go\<close>, with element identities; \<open>Lru_Cache_Refine\<close>: its
    operations on the list of entries; \<open>Lru_Concurrent\<close>: the sections of \<open>Get\<close> interleaved with all other
    operations; \<open>Lru_Cache_Properties\<close>: the properties.
  \<^item> \<open>Byte_View\<close>: \<open>view.go\<close> on an explicit memory of shared arrays.
  \<^item> \<open>Go_Std\<close> and \<open>Go_Float\<close>: the parts of the standard library that the ring uses: binary search,
    decimal numbers, CRC-32, and float64 with exact rounding.
  \<^item> \<open>Con_Hash\<close>: \<open>con_hash.go\<close> and \<open>config.go\<close>: membership, routing, load counts with the reporting
    goroutine, rebalancing. \<open>Con_Hash_Ring\<close>: the invariant (the slice holds exactly the virtual nodes of the
    registered nodes) and the clockwise successor; \<open>Con_Hash_Route\<close>: the locales \<open>router\<close> and
    \<open>exact_router\<close>, what a consistent hash promises, interpreted on the ring;
    \<open>Con_Hash_Rebalance\<close>: one rebalance, whatever keys the iteration produces, repeatedly too;
    \<open>Con_Hash_Run\<close>: executions, with rebalances of single nodes and installed snapshots in between; \<open>Con_Hash_Properties\<close>: the properties; \<open>Con_Hash_Load\<close>: no request is
    counted twice, and only a failed report loses any; \<open>Con_Hash_Converge\<close>: without rebalances and collisions
    the ring is a function of the set of its members.
  \<^item> \<open>Go_Utf8\<close> and \<open>Go_Json\<close>: UTF-8, the scanner and the parser of \<open>encoding/json\<close>; \<open>Go_Json_Encode\<close>: the
    encoder; \<open>Go_Json_Round\<close>: a quoted string scans back to itself; \<open>parse_json_encode\<close> is the round trip
    of every well-formed value up to the depth limit of the parser.
  \<^item> \<open>Con_Hash_Sync\<close>: \<open>HashRing\<close>, its encoding and decoding, \<open>syncHashRing\<close>, the loop of
    \<open>CheckAndRebalanceAndSyncHashRing\<close> and \<open>updateHashRing\<close>. \<open>Con_Hash_Publish\<close>: the round trip of a snapshot
    and the type of whatever is decoded; \<open>Con_Hash_Follow\<close>: a follower routes like its leader.
  \<^item> \<open>Election\<close>: the loop \<open>RunElection\<close> of \<open>con_hash.go\<close> as a state machine over what etcd reports.
  \<^item> \<open>Single_Flight\<close>: \<open>singleflight.go\<close> as a step relation over goroutines, one step per access to
    shared state, with its invariant: results are results of \<open>fn\<close>, waiters are served, and two
    flights for one key are reachable.
  \<^item> \<open>Registry\<close>: \<open>registry.go\<close>, \<open>Register\<close> with the calls it makes to etcd on every path and the goroutine
    that keeps the lease. \<open>Registry_Properties\<close>: what a registration makes of the rings of its peers.
    \<open>Redis\<close>: the wrapper of \<open>internal/database\<close> around a client, and the laws of the client.
  \<^item> \<open>Peer_Picker\<close>: \<open>peer.go\<close>, the ring with one client per remote node; every remote member has a
    client, but for a node whose departure is being handled (an event has two critical sections). \<open>Cache_Server\<close>: the handlers of \<open>server.go\<close> and \<open>group.go\<close> over the store, the picker
    and an environment \<open>env\<close> (redis and the clients). \<open>Cache_Server_Correct\<close>: under the laws
    \<open>redis_laws\<close> a node answers as a plain map would, request by request; a load that races with a
    write caches the old value. \<open>Server_Life\<close>: \<open>Close\<close> of the server and what it calls, against \<open>Start\<close>.
    \<open>Server_Concurrent\<close>: the handlers as a step relation over goroutines, with the steps of
    \<open>Single_Flight\<close> inside: what concurrent gets can answer, and that no request gets stuck. \<open>Server_Fresh\<close>: between two
    writes of a key its gets are fresh. \<open>Server_Solo\<close>: the handlers of \<open>Cache_Server\<close> run as such steps.
    \<open>Server_Progress\<close>: a rank that falls with every step, so that every request can be answered.
  \<^item> \<open>Cluster\<close>: several nodes that forward requests to each other: a call that gRPC carries (a parameter)
    runs the handler of the node that is called, for any number of calls in a row, and what later calls do is
    arbitrary. \<open>Cluster_Properties\<close>: the locale \<open>kv_service\<close>, a service that answers as a map does, interpreted on the cluster, and a
    cluster that has discovered itself. \<open>Cluster_Disagree\<close>: what happens when rings disagree or change.
    \<open>Ghost_Nodes\<close>: what a rebalance, its snapshot and a departure make of the ring of a follower.
  \<^item> \<open>Console\<close>: \<open>main.go\<close>, a round of its loop and the loop as a partial function, where \<^term>\<open>None\<close> is a run
    that never ends; standard output includes the line that \<open>Server.Get\<close> prints (\<open>print_get\<close>), not what goroutines
    in the background print. \<open>Console_Properties\<close>: the list of commands that an input holds, the loop as its
    interpreter, the node from its start to its exit as a plain map, and which inputs end.

  Loops. \<open>walk\<close> follows links until it meets 0 and is a partial function; on well-formed levels it
  is proved to return. The loop of \<open>main\<close> is a partial function; on a node in order it is proved never to
  panic, and to return exactly when its input has an exit. The binary search, the eviction loop and the scanners of JSON come with
  termination proofs; the parser keeps an explicit stack over the list of tokens; all other loops run
  over lists. No fuel is used, except that \<open>follow\<close>, which reads a ring of links as a list in the
  invariant, is bounded by the number of nodes, and that the calls between nodes are unfolded a number of
  times that is universally quantified, with an arbitrary continuation behind them.

  Not modelled: the generated protocol code; the insides of the clients of etcd, redis and gRPC, and
  what their servers do beyond the laws stated; how \<open>Scanln\<close> splits the first line of the input (the
  word it reads and what it leaves are inputs); log lines; data races on unlocked variables, where an
  interleaving of sections is not all that the memory model of Go allows; timers beyond the
  events they produce.
\<close>

end
